(* ===== verification/Go_Prelude.thy ===== *)
theory Go_Prelude
  imports Main "HOL-Library.Multiset" "HOL-Library.Monad_Syntax" "HOL-Library.Word"
begin

text \<open>
  Shared ground of the development: the fragment of Go that the agilePool sources use.

  \<^item> A Go run-time panic (index out of range, nil dereference, division by zero) is \<open>None\<close>; code
    that may panic returns an \<open>option\<close> and is written with the \<open>do\<close> notation.
  \<^item> A Go \<open>int64\<close> value is an \<open>int\<close>; the function \<open>int64\<close> is two's complement
    wrap-around and is written where a sum may leave the range.  Counters of live objects
    (list lengths, workers, tasks) are far below \<open>2 ^ 63\<close> and are plain integers.
  \<^item> A \<open>time.Time\<close> is the number of nanoseconds since the zero time, a \<open>time.Duration\<close> is a
    number of nanoseconds in the \<open>int64\<close> range.
\<close>

section \<open>Fact collections\<close>

named_theorems go_simps \<open>unfolding of the Go primitives\<close>
named_theorems go_inv \<open>invariant preservation\<close>

section \<open>Machine integers\<close>

type_synonym go_time = int
type_synonym duration = int

definition int64 :: "int \<Rightarrow> int" where
  "int64 x = (x + 2 ^ 63) mod 2 ^ 64 - 2 ^ 63"

definition in_int64 :: "int \<Rightarrow> bool" where
  "in_int64 x \<longleftrightarrow> - (2 ^ 63) \<le> x \<and> x < 2 ^ 63"

lemma int64_id [simp]: "in_int64 x \<Longrightarrow> int64 x = x"
  by (simp add: int64_def in_int64_def)

lemma int64_range: "in_int64 (int64 x)"
  by (simp add: int64_def in_int64_def)

lemma int64_bounds: "- (2 ^ 63) \<le> int64 x" "int64 x < 2 ^ 63"
  using int64_range [of x] by (simp_all add: in_int64_def)

text \<open>Go's integer division truncates towards zero.\<close>

definition go_div :: "int \<Rightarrow> int \<Rightarrow> int" where
  "go_div a b = sgn a * sgn b * (\<bar>a\<bar> div \<bar>b\<bar>)"

lemma go_div_nonneg [simp]: "0 \<le> a \<Longrightarrow> 0 < b \<Longrightarrow> go_div a b = a div b"
  by (cases "a = 0") (simp_all add: go_div_def)

section \<open>Time\<close>

definition time_zero :: go_time where
  "time_zero = 0"

definition time_add :: "go_time \<Rightarrow> duration \<Rightarrow> go_time" where
  "time_add t d = t + d"

definition time_after :: "go_time \<Rightarrow> go_time \<Rightarrow> bool" where
  "time_after t u \<longleftrightarrow> u < t"

definition time_before :: "go_time \<Rightarrow> go_time \<Rightarrow> bool" where
  "time_before t u \<longleftrightarrow> t < u"

text \<open>\<open>Time.Sub\<close> saturates at the smallest and largest \<open>Duration\<close>.\<close>

definition time_sub :: "go_time \<Rightarrow> go_time \<Rightarrow> duration" where
  "time_sub t u = max (- (2 ^ 63)) (min (2 ^ 63 - 1) (t - u))"

text \<open>The unary minus on a \<open>Duration\<close> wraps at the smallest value.\<close>

definition dur_neg :: "duration \<Rightarrow> duration" where
  "dur_neg d = int64 (- d)"

text \<open>A duration whose negation is again a duration: every \<open>int64\<close> but the smallest.\<close>

definition dur_ok :: "duration \<Rightarrow> bool" where
  "dur_ok d \<longleftrightarrow> - (2 ^ 63) < d \<and> d < 2 ^ 63"

lemmas time_simps [go_simps] =
  time_add_def time_after_def time_before_def time_zero_def

lemma dur_neg_ok [simp]: "dur_ok d \<Longrightarrow> dur_neg d = - d"
  by (simp add: dur_neg_def dur_ok_def int64_def)

lemma after_cutoff_iff:
  "dur_ok expiry \<Longrightarrow> time_after t (time_add now (dur_neg expiry)) \<longleftrightarrow> time_after (time_add t expiry) now"
  by (auto simp: time_after_def time_add_def)

section \<open>Slices\<close>

text \<open>Reads and writes of a slice or array panic out of range.\<close>

definition go_get :: "'a list \<Rightarrow> nat \<Rightarrow> 'a option" where
  "go_get xs i = (if i < length xs then Some (xs ! i) else None)"

definition go_set :: "'a list \<Rightarrow> nat \<Rightarrow> 'a \<Rightarrow> 'a list option" where
  "go_set xs i v = (if i < length xs then Some (xs[i := v]) else None)"

lemma go_get_Some [simp]: "i < length xs \<Longrightarrow> go_get xs i = Some (xs ! i)"
  by (simp add: go_get_def)

lemma go_set_Some [simp]: "i < length xs \<Longrightarrow> go_set xs i v = Some (xs[i := v])"
  by (simp add: go_set_def)

lemma go_get_None [simp]: "length xs \<le> i \<Longrightarrow> go_get xs i = None"
  by (simp add: go_get_def)

lemma go_set_None [simp]: "length xs \<le> i \<Longrightarrow> go_set xs i v = None"
  by (simp add: go_set_def)

text \<open>The elements of \<open>xs\<close> not expired at \<open>now\<close>: the reference meaning of a cleanup.\<close>

definition alive :: "('a \<Rightarrow> go_time) \<Rightarrow> go_time \<Rightarrow> duration \<Rightarrow> 'a \<Rightarrow> bool" where
  "alive dated now expiry w \<longleftrightarrow> time_after (time_add (dated w) expiry) now"

lemma alive_cutoff:
  "dur_ok expiry \<Longrightarrow> time_after (dated w) (time_add now (dur_neg expiry)) \<longleftrightarrow> alive dated now expiry w"
  unfolding alive_def by (rule after_cutoff_iff)

section \<open>Lists\<close>

lemma length_filter_le_take: "length (filter P (take i xs)) \<le> i"
  by (rule order_trans [OF length_filter_le]) simp

lemma filter_take_Suc:
  "i < length xs \<Longrightarrow>
     filter P (take (Suc i) xs) = filter P (take i xs) @ (if P (xs ! i) then [xs ! i] else [])"
  by (simp add: take_Suc_conv_app_nth)

lemma mset_remove_hd: "xs \<noteq> [] \<Longrightarrow> mset (tl xs) = mset xs - {#hd xs#}"
  by (cases xs) simp_all

lemma filter_mset_idem [simp]: "filter_mset P (filter_mset P M) = filter_mset P M"
  by (simp add: filter_filter_mset)

section \<open>Ends of an address list\<close>

text \<open>The first address of a list, or what follows it; the last one, or what precedes it.\<close>

definition first_or :: "nat list \<Rightarrow> nat option \<Rightarrow> nat option" where
  "first_or as q = (case as of [] \<Rightarrow> q | b # _ \<Rightarrow> Some b)"

definition last_or :: "nat option \<Rightarrow> nat list \<Rightarrow> nat option" where
  "last_or p as = (if as = [] then p else Some (last as))"

lemma first_or_simps [simp]: "first_or [] q = q" "first_or (b # as) q = Some b"
  by (simp_all add: first_or_def)

lemma last_or_simps [simp]: "last_or p [] = p" "last_or p (as @ [b]) = Some b"
  by (simp_all add: last_or_def)

lemma last_or_Cons [simp]: "last_or p (a # as) = last_or (Some a) as"
  by (simp add: last_or_def)

lemma last_or_append [simp]: "last_or p (as @ b # bs) = last_or (Some b) bs"
  by (simp add: last_or_def)

lemma first_or_append [simp]: "first_or (as @ bs) q = first_or as (first_or bs q)"
  by (cases as) simp_all

lemma first_or_Some [simp]: "first_or as (Some c) \<noteq> None" "None \<noteq> first_or as (Some c)"
  by (cases as; simp)+

section \<open>Digits\<close>

text \<open>The digits of \<open>encoding/hex\<close> and of the verbs \<open>%d\<close> and \<open>%x\<close> of \<open>fmt\<close>, on numbers that are not negative.\<close>

definition hexDigits :: string where
  "hexDigits = ''0123456789abcdef''"

fun print_base :: "nat \<Rightarrow> nat \<Rightarrow> string" where
  "print_base b n = (if n < b \<or> b < 2 then [hexDigits ! n] else print_base b (n div b) @ [hexDigits ! (n mod b)])"

declare print_base.simps [simp del]

end
