(* ===== verification/Idle_Spec.thy ===== *)
theory Idle_Spec
  imports Go_Prelude
begin

text \<open>
  The contract of \<open>internal/idle/idle.go\<close>: the interface \<open>IdleContainer[T Dated]\<close>.
  \<open>idle_container\<close> is the interface as the pool relies on it: a bag of elements with a last-active
  time.  \<open>fifo_container\<close> adds insertion order (LinkedList, Slice, RingQueue) and
  \<open>lru_container\<close> adds that \<open>Pop\<close> returns an element with the smallest time (MinHeap, Treap).
  The type \<open>'o\<close> holds what an implementation draws from the run-time system during \<open>Add\<close> (a random
  priority, a recycled node); it is \<open>unit\<close> where there is nothing to draw.
\<close>

text \<open>The container selector and the re-exported constants.\<close>

datatype IdleContainerType = LinkedListType | MinHeapType | SliceType | RingQueueType | TreapType

text \<open>A client sees a sequence of calls; \<open>idle_run\<close> performs them and collects what they return.\<close>

datatype ('o, 'a) idle_op = OpAdd 'o 'a | OpPop | OpExpire go_time duration

datatype 'a idle_result = RAdd | RPop 'a | RExpire int

locale idle_container =
  fixes dated :: "'a \<Rightarrow> go_time"
    and zero :: 'a
    and inv :: "'c \<Rightarrow> bool"
    and elems :: "'c \<Rightarrow> 'a multiset"
    and New :: 'c
    and Add :: "'o \<Rightarrow> 'a \<Rightarrow> 'c \<Rightarrow> 'c option"
    and Pop :: "'c \<Rightarrow> ('a \<times> 'c) option"
    and RemoveExpired :: "go_time \<Rightarrow> duration \<Rightarrow> 'c \<Rightarrow> (int \<times> 'c) option"
    and Len :: "'c \<Rightarrow> int"
  assumes new_inv: "inv New"
    and new_elems: "elems New = {#}"
    and add_law: "inv c \<Longrightarrow> \<exists>c'. Add r w c = Some c' \<and> inv c' \<and> elems c' = add_mset w (elems c)"
    and pop_empty: "inv c \<Longrightarrow> elems c = {#} \<Longrightarrow> Pop c = Some (zero, c)"
    and pop_law: "inv c \<Longrightarrow> elems c \<noteq> {#} \<Longrightarrow>
      \<exists>w c'. Pop c = Some (w, c') \<and> inv c' \<and> elems c = add_mset w (elems c')"
    and expire_law: "inv c \<Longrightarrow> dur_ok expiry \<Longrightarrow>
      \<exists>n c'. RemoveExpired now expiry c = Some (n, c') \<and> inv c'
        \<and> elems c' = filter_mset (alive dated now expiry) (elems c)
        \<and> n = int (size (elems c)) - int (size (elems c'))"
    and len_law: "inv c \<Longrightarrow> Len c = int (size (elems c))"
begin

lemma expire_twice:
  assumes "inv c" "dur_ok expiry" "RemoveExpired now expiry c = Some (n, c')"
  shows "\<exists>c''. RemoveExpired now expiry c' = Some (0, c'') \<and> elems c'' = elems c'"
proof -
  from expire_law [OF assms(1,2), of now] assms(3)
  have c': "inv c'" "elems c' = filter_mset (alive dated now expiry) (elems c)" by auto
  from expire_law [OF c'(1) assms(2), of now] c'(2) show ?thesis by auto
qed

lemma pop_zero_iff_empty:
  assumes "inv c" "zero \<notin># elems c"
  shows "(\<exists>c'. Pop c = Some (zero, c')) \<longleftrightarrow> elems c = {#}"
proof
  assume "\<exists>c'. Pop c = Some (zero, c')"
  then obtain c' where p: "Pop c = Some (zero, c')" by blast
  show "elems c = {#}"
  proof (rule ccontr)
    assume "elems c \<noteq> {#}"
    from pop_law [OF assms(1) this] p have "zero \<in># elems c" by auto
    with assms(2) show False by simp
  qed
next
  assume "elems c = {#}"
  with assms(1) show "\<exists>c'. Pop c = Some (zero, c')" by (auto simp: pop_empty)
qed

end

text \<open>One call of the interface, over the operations of an implementation.\<close>

fun idle_step ::
  "('o \<Rightarrow> 'a \<Rightarrow> 'c \<Rightarrow> 'c option) \<Rightarrow> ('c \<Rightarrow> ('a \<times> 'c) option) \<Rightarrow>
   (go_time \<Rightarrow> duration \<Rightarrow> 'c \<Rightarrow> (int \<times> 'c) option) \<Rightarrow>
   ('o, 'a) idle_op \<Rightarrow> 'c \<Rightarrow> ('a idle_result \<times> 'c) option" where
  "idle_step add pop expire (OpAdd r w) c = map_option (\<lambda>c'. (RAdd, c')) (add r w c)"
| "idle_step add pop expire OpPop c = map_option (\<lambda>(w, c'). (RPop w, c')) (pop c)"
| "idle_step add pop expire (OpExpire now d) c =
     map_option (\<lambda>(n, c'). (RExpire n, c')) (expire now d c)"

primrec idle_run ::
  "('o \<Rightarrow> 'a \<Rightarrow> 'c \<Rightarrow> 'c option) \<Rightarrow> ('c \<Rightarrow> ('a \<times> 'c) option) \<Rightarrow>
   (go_time \<Rightarrow> duration \<Rightarrow> 'c \<Rightarrow> (int \<times> 'c) option) \<Rightarrow>
   ('o, 'a) idle_op list \<Rightarrow> 'c \<Rightarrow> ('a idle_result list \<times> 'c) option" where
  "idle_run add pop expire [] c = Some ([], c)"
| "idle_run add pop expire (x # xs) c = do {
     (r, c') \<leftarrow> idle_step add pop expire x c;
     (rs, c'') \<leftarrow> idle_run add pop expire xs c';
     Some (r # rs, c'') }"

fun op_ok :: "('o, 'a) idle_op \<Rightarrow> bool" where
  "op_ok (OpExpire now d) = dur_ok d"
| "op_ok _ = True"

fun added :: "('o, 'a) idle_op list \<Rightarrow> 'a multiset" where
  "added [] = {#}"
| "added (OpAdd r w # xs) = add_mset w (added xs)"
| "added (_ # xs) = added xs"

text \<open>The elements handed back by \<open>Pop\<close>, not counting the zero value of an empty container.\<close>

fun popped :: "'a \<Rightarrow> 'a idle_result list \<Rightarrow> 'a multiset" where
  "popped z [] = {#}"
| "popped z (RPop w # rs) = (if w = z then popped z rs else add_mset w (popped z rs))"
| "popped z (_ # rs) = popped z rs"

fun expired_count :: "'a idle_result list \<Rightarrow> int" where
  "expired_count [] = 0"
| "expired_count (RExpire n # rs) = n + expired_count rs"
| "expired_count (_ # rs) = expired_count rs"

context idle_container
begin

lemma step_ok:
  assumes "inv c" "op_ok x"
  shows "\<exists>r c'. idle_step Add Pop RemoveExpired x c = Some (r, c') \<and> inv c'"
proof (cases x)
  case (OpAdd q w)
  with add_law [OF assms(1), of q w] show ?thesis by auto
next
  case OpPop
  with pop_empty [OF assms(1)] pop_law [OF assms(1)] assms(1) show ?thesis
    by (cases "elems c = {#}") auto
next
  case (OpExpire now d)
  with expire_law [OF assms(1), of d now] assms(2) show ?thesis by auto
qed

text \<open>No sequence of calls panics.\<close>

lemma run_ok:
  "inv c \<Longrightarrow> list_all op_ok xs \<Longrightarrow>
     \<exists>rs c'. idle_run Add Pop RemoveExpired xs c = Some (rs, c') \<and> inv c'"
proof (induction xs arbitrary: c)
  case (Cons x xs)
  then obtain r c1 where 1: "idle_step Add Pop RemoveExpired x c = Some (r, c1)" "inv c1"
    using step_ok by fastforce
  with Cons obtain rs c' where "idle_run Add Pop RemoveExpired xs c1 = Some (rs, c')" "inv c'"
    by fastforce
  with 1 show ?case by simp
qed simp

text \<open>Every element added is popped once, expired, or still there: the counts balance.\<close>

lemma step_balance:
  assumes "inv c" "op_ok x" "zero \<notin># elems c" "zero \<notin># added [x]"
    and "idle_step Add Pop RemoveExpired x c = Some (r, c')"
  shows "inv c' \<and> zero \<notin># elems c' \<and> popped zero [r] \<subseteq># elems c + added [x]
     \<and> elems c' \<subseteq># elems c + added [x] - popped zero [r]
     \<and> int (size (elems c')) = int (size (elems c)) + int (size (added [x]))
         - int (size (popped zero [r])) - expired_count [r]"
proof (cases x)
  case (OpAdd q w)
  with add_law [OF assms(1), of q w] assms show ?thesis by auto
next
  case OpPop
  show ?thesis
  proof (cases "elems c = {#}")
    case True
    with OpPop pop_empty [OF assms(1)] assms show ?thesis by auto
  next
    case False
    with pop_law [OF assms(1)] OpPop assms(3,5) show ?thesis by auto
  qed
next
  case (OpExpire now d)
  with expire_law [OF assms(1), of d now] assms show ?thesis
    by (auto simp: multiset_filter_subset)
qed

end

section \<open>First in, first out\<close>

locale fifo_container =
  fixes dated :: "'a \<Rightarrow> go_time"
    and zero :: 'a
    and inv :: "'c \<Rightarrow> bool"
    and contents :: "'c \<Rightarrow> 'a list"
    and New :: 'c
    and Add :: "'o \<Rightarrow> 'a \<Rightarrow> 'c \<Rightarrow> 'c option"
    and Pop :: "'c \<Rightarrow> ('a \<times> 'c) option"
    and RemoveExpired :: "go_time \<Rightarrow> duration \<Rightarrow> 'c \<Rightarrow> (int \<times> 'c) option"
    and Len :: "'c \<Rightarrow> int"
  assumes fifo_new: "inv New" "contents New = []"
    and fifo_add: "inv c \<Longrightarrow> \<exists>c'. Add r w c = Some c' \<and> inv c' \<and> contents c' = contents c @ [w]"
    and fifo_pop_empty: "inv c \<Longrightarrow> contents c = [] \<Longrightarrow> Pop c = Some (zero, c)"
    and fifo_pop: "inv c \<Longrightarrow> contents c = w # ws \<Longrightarrow>
      \<exists>c'. Pop c = Some (w, c') \<and> inv c' \<and> contents c' = ws"
    and fifo_expire: "inv c \<Longrightarrow> dur_ok expiry \<Longrightarrow>
      \<exists>n c'. RemoveExpired now expiry c = Some (n, c') \<and> inv c'
        \<and> contents c' = filter (alive dated now expiry) (contents c)
        \<and> n = int (length (contents c)) - int (length (contents c'))"
    and fifo_len: "inv c \<Longrightarrow> Len c = int (length (contents c))"

sublocale fifo_container \<subseteq> idle_container dated zero inv "\<lambda>c. mset (contents c)" New Add Pop RemoveExpired Len
proof (unfold_locales, goal_cases)
  case (3 c r w)
  then show ?case using fifo_add [of c r w] by auto
next
  case (5 c)
  then obtain w ws where w: "contents c = w # ws" by (cases "contents c") auto
  from fifo_pop [OF 5(1) w] w show ?case by auto
next
  case (6 c expiry now)
  then show ?case using fifo_expire [of c expiry now] by auto
qed (auto simp: fifo_new fifo_pop_empty fifo_len)

text \<open>The list a FIFO container must agree with.\<close>

fun fifo_step :: "('a \<Rightarrow> go_time) \<Rightarrow> 'a \<Rightarrow> ('o, 'a) idle_op \<Rightarrow> 'a list \<Rightarrow> 'a idle_result \<times> 'a list" where
  "fifo_step dated z (OpAdd r w) xs = (RAdd, xs @ [w])"
| "fifo_step dated z OpPop [] = (RPop z, [])"
| "fifo_step dated z OpPop (x # xs) = (RPop x, xs)"
| "fifo_step dated z (OpExpire now d) xs =
     (let ys = filter (alive dated now d) xs in (RExpire (int (length xs) - int (length ys)), ys))"

primrec fifo_run :: "('a \<Rightarrow> go_time) \<Rightarrow> 'a \<Rightarrow> ('o, 'a) idle_op list \<Rightarrow> 'a list \<Rightarrow> 'a idle_result list \<times> 'a list" where
  "fifo_run dated z [] xs = ([], xs)"
| "fifo_run dated z (x # ops) xs =
     (let (r, ys) = fifo_step dated z x xs; (rs, zs) = fifo_run dated z ops ys in (r # rs, zs))"

context fifo_container
begin

lemma fifo_step_sim:
  assumes "inv c" "op_ok x"
  shows "\<exists>c'. idle_step Add Pop RemoveExpired x c = Some (fst (fifo_step dated zero x (contents c)), c')
     \<and> inv c' \<and> contents c' = snd (fifo_step dated zero x (contents c))"
proof (cases x)
  case (OpAdd q w)
  with fifo_add [OF assms(1), of q w] show ?thesis by auto
next
  case OpPop
  show ?thesis
  proof (cases "contents c")
    case Nil
    with OpPop fifo_pop_empty [OF assms(1)] assms(1) show ?thesis by simp
  next
    case (Cons w ws)
    with OpPop fifo_pop [OF assms(1) Cons] show ?thesis by auto
  qed
next
  case (OpExpire now d)
  with fifo_expire [OF assms(1), of d now] assms(2) show ?thesis by (auto simp: Let_def)
qed

text \<open>Every sequence of calls returns exactly what the list returns.\<close>

lemma fifo_run_sim:
  "inv c \<Longrightarrow> list_all op_ok xs \<Longrightarrow>
     \<exists>c'. idle_run Add Pop RemoveExpired xs c = Some (fst (fifo_run dated zero xs (contents c)), c')
       \<and> inv c' \<and> contents c' = snd (fifo_run dated zero xs (contents c))"
proof (induction xs arbitrary: c)
  case (Cons x xs)
  obtain r ys where s: "fifo_step dated zero x (contents c) = (r, ys)" by fastforce
  with fifo_step_sim [of c x] Cons.prems obtain c1 where
    1: "idle_step Add Pop RemoveExpired x c = Some (r, c1)" "inv c1" "contents c1 = ys"
    by auto
  with Cons.IH [of c1] Cons.prems obtain c' where
    "idle_run Add Pop RemoveExpired xs c1 = Some (fst (fifo_run dated zero xs ys), c')"
    "inv c'" "contents c' = snd (fifo_run dated zero xs ys)"
    by auto
  with 1 s show ?case by (auto simp: case_prod_beta)
qed simp

lemma fifo_run_New:
  "list_all op_ok xs \<Longrightarrow>
     map_option fst (idle_run Add Pop RemoveExpired xs New) = Some (fst (fifo_run dated zero xs []))"
  using fifo_run_sim [OF fifo_new(1), of xs] by (auto simp: fifo_new(2))

end

section \<open>Least recently used first\<close>

text \<open>
  The traces an LRU container may produce, over the bag of its elements: \<open>Pop\<close> returns some element
  with the smallest time, and which one among equals is not specified.
\<close>

fun lru_trace ::
  "('a \<Rightarrow> go_time) \<Rightarrow> 'a \<Rightarrow> ('o, 'a) idle_op list \<Rightarrow> 'a idle_result list \<Rightarrow> 'a multiset \<Rightarrow> 'a multiset \<Rightarrow> bool" where
  "lru_trace dated z [] [] M M' = (M' = M)"
| "lru_trace dated z (OpAdd r w # ops) (RAdd # rs) M M' = lru_trace dated z ops rs (add_mset w M) M'"
| "lru_trace dated z (OpPop # ops) (RPop w # rs) M M' =
     (if M = {#} then w = z \<and> lru_trace dated z ops rs M M'
      else w \<in># M \<and> (\<forall>v \<in># M. dated w \<le> dated v) \<and> lru_trace dated z ops rs (M - {#w#}) M')"
| "lru_trace dated z (OpExpire now d # ops) (RExpire n # rs) M M' =
     (n = int (size (filter_mset (\<lambda>w. \<not> alive dated now d w) M))
      \<and> lru_trace dated z ops rs (filter_mset (alive dated now d) M) M')"
| "lru_trace dated z _ _ M M' = False"

locale lru_container = idle_container +
  assumes lru_pop: "inv c \<Longrightarrow> Pop c = Some (w, c') \<Longrightarrow> v \<in># elems c \<Longrightarrow> dated w \<le> dated v"
begin

text \<open>Draining pops the elements in the order of their times.\<close>

lemma drain_sorted:
  "inv c \<Longrightarrow> n \<le> size (elems c) \<Longrightarrow>
     \<exists>ws c'. idle_run Add Pop RemoveExpired (replicate n OpPop) c = Some (map RPop ws, c')
       \<and> inv c' \<and> elems c = mset ws + elems c' \<and> sorted (map dated ws)
       \<and> (\<forall>w \<in> set ws. \<forall>v \<in># elems c'. dated w \<le> dated v)"
proof (induction n arbitrary: c)
  case (Suc n)
  then have "elems c \<noteq> {#}" by auto
  from pop_law [OF Suc.prems(1) this] obtain w c1 where
    1: "Pop c = Some (w, c1)" "inv c1" "elems c = add_mset w (elems c1)" by blast
  from Suc.IH [OF 1(2)] Suc.prems(2) 1(3) obtain ws c' where
    2: "idle_run Add Pop RemoveExpired (replicate n OpPop) c1 = Some (map RPop ws, c')" "inv c'"
       "elems c1 = mset ws + elems c'" "sorted (map dated ws)"
       "\<forall>w \<in> set ws. \<forall>v \<in># elems c'. dated w \<le> dated v"
    by auto
  from lru_pop [OF Suc.prems(1) 1(1)] 1(3) 2(3)
  have "\<forall>v \<in> set ws. dated w \<le> dated v" "\<forall>v \<in># elems c'. dated w \<le> dated v" by auto
  with 1 2 show ?case by (intro exI [of _ "w # ws"] exI [of _ c']) auto
qed simp

lemma lru_step_trace:
  assumes "inv c" "op_ok x"
  shows "\<exists>r c'. idle_step Add Pop RemoveExpired x c = Some (r, c') \<and> inv c'
     \<and> (\<forall>ops rs M. lru_trace dated zero ops rs (elems c') M \<longrightarrow> lru_trace dated zero (x # ops) (r # rs) (elems c) M)"
proof (cases x)
  case (OpAdd q w)
  with add_law [OF assms(1), of q w] show ?thesis by auto
next
  case OpPop
  show ?thesis
  proof (cases "elems c = {#}")
    case True
    with OpPop pop_empty [OF assms(1)] assms(1) show ?thesis by auto
  next
    case False
    from pop_law [OF assms(1) False] obtain w c' where
      p: "Pop c = Some (w, c')" "inv c'" "elems c = add_mset w (elems c')" by blast
    with OpPop False lru_pop [OF assms(1) p(1)] show ?thesis by auto
  qed
next
  case (OpExpire now d)
  have "int (size M) - int (size (filter_mset P M)) = int (size (filter_mset (\<lambda>w. \<not> P w) M))"
    for M :: "'a multiset" and P
    by (metis add_diff_cancel_left' multiset_partition of_nat_add size_union)
  with OpExpire expire_law [OF assms(1), of d now] assms(2) show ?thesis by auto
qed

text \<open>Every sequence of calls returns, with one of the traces of the bag.\<close>

lemma lru_run_trace:
  "inv c \<Longrightarrow> list_all op_ok xs \<Longrightarrow>
     \<exists>rs c'. idle_run Add Pop RemoveExpired xs c = Some (rs, c') \<and> inv c'
       \<and> lru_trace dated zero xs rs (elems c) (elems c')"
proof (induction xs arbitrary: c)
  case (Cons x xs)
  with lru_step_trace [of c x] obtain r c1 where
    1: "idle_step Add Pop RemoveExpired x c = Some (r, c1)" "inv c1"
       "\<And>ops rs M. lru_trace dated zero ops rs (elems c1) M \<Longrightarrow> lru_trace dated zero (x # ops) (r # rs) (elems c) M"
    by auto
  with Cons obtain rs c' where "idle_run Add Pop RemoveExpired xs c1 = Some (rs, c')" "inv c'"
    "lru_trace dated zero xs rs (elems c1) (elems c')"
    by fastforce
  with 1 show ?case by auto
qed simp

lemma lru_run_New:
  assumes "list_all op_ok xs"
  shows "\<exists>rs c'. idle_run Add Pop RemoveExpired xs New = Some (rs, c') \<and> inv c'
    \<and> lru_trace dated zero xs rs {#} (elems c')"
  using lru_run_trace [OF new_inv assms] by (simp add: new_elems)

end

section \<open>A concrete run\<close>

text \<open>Two adds, a cleanup that expires the older element, and two pops; elements are their own times.\<close>

definition sample_calls :: "'o \<Rightarrow> ('o, int) idle_op list" where
  "sample_calls r = [OpAdd r 3, OpAdd r 9, OpExpire 10 5, OpPop, OpPop]"

lemma sample_calls_ok [simp]: "list_all op_ok (sample_calls r)"
  by (simp add: sample_calls_def dur_ok_def)

lemma sample_calls_fifo:
  "fst (fifo_run id 0 (sample_calls r) []) = [RAdd, RAdd, RExpire 1, RPop 9, RPop 0]"
  by (simp add: sample_calls_def alive_def go_simps)

end
