(* ===== verification/Idle_Slice.thy ===== *)
theory Idle_Slice
  imports Idle_Spec
begin

text \<open>
  \<open>internal/idle/slice.go\<close>: the slice-backed FIFO container.  The elements visible through
  \<open>s.workers\<close> are a list; \<open>RemoveExpired\<close> is the in-place compaction of the source, whose
  \<open>survivors\<close> slice shares the backing array it is reading from.
\<close>

section \<open>Model\<close>

record 'a Slice =
  workers :: "'a list"
  slice_length :: int

definition NewSlice :: "'a Slice" where
  "NewSlice = \<lparr>workers = [], slice_length = 0\<rparr>"

definition Slice_Add :: "'a \<Rightarrow> 'a Slice \<Rightarrow> 'a Slice" where
  "Slice_Add w s = s\<lparr>workers := workers s @ [w], slice_length := slice_length s + 1\<rparr>"

definition Slice_Len :: "'a Slice \<Rightarrow> int" where
  "Slice_Len s = slice_length s"

definition Slice_Pop :: "'a \<Rightarrow> 'a Slice \<Rightarrow> ('a \<times> 'a Slice) option" where
  "Slice_Pop zero s =
     (if Slice_Len s = 0 then Some (zero, s)
      else do {
        w \<leftarrow> go_get (workers s) 0;
        ws \<leftarrow> go_set (workers s) 0 zero;
        Some (w, s\<lparr>workers := tl ws, slice_length := slice_length s - 1\<rparr>) })"

text \<open>
  The scan: \<open>i\<close> is the read position of \<open>for _, w := range s.workers\<close>, \<open>k\<close> the length of
  \<open>survivors\<close>; the append writes position \<open>k\<close> of the array being scanned.
\<close>

function Slice_compact :: "('a \<Rightarrow> bool) \<Rightarrow> nat \<Rightarrow> nat \<Rightarrow> 'a list \<Rightarrow> nat \<times> 'a list" where
  "Slice_compact keep i k xs =
     (if i < length xs then
        (if keep (xs ! i) then Slice_compact keep (Suc i) (Suc k) (xs[k := xs ! i])
         else Slice_compact keep (Suc i) k xs)
      else (k, xs))"
  by pat_completeness auto
termination
  by (relation "measure (\<lambda>(keep, i, k, xs). length xs - i)") auto

declare Slice_compact.simps [simp del]

definition Slice_RemoveExpired ::
  "('a \<Rightarrow> go_time) \<Rightarrow> 'a \<Rightarrow> go_time \<Rightarrow> duration \<Rightarrow> 'a Slice \<Rightarrow> int \<times> 'a Slice" where
  "Slice_RemoveExpired dated zero now expiry s =
     (if Slice_Len s = 0 then (0, s)
      else
        let cutoff = time_add now (dur_neg expiry);
            originalLen = length (workers s);
            (k, xs) = Slice_compact (\<lambda>w. time_after (dated w) cutoff) 0 0 (workers s);
            removed = int originalLen - int k
        in (removed,
            if removed > 0 then
              s\<lparr>workers := take k (fold (\<lambda>i ys. ys[i := zero]) [k..<originalLen] xs),
                slice_length := slice_length s - removed\<rparr>
            else s\<lparr>workers := xs\<rparr>))"

definition Slice_inv :: "'a Slice \<Rightarrow> bool" where
  "Slice_inv s \<longleftrightarrow> slice_length s = int (length (workers s))"

section \<open>Compaction\<close>

lemma Slice_compact_length [simp]: "length (snd (Slice_compact keep i k xs)) = length xs"
  by (induction keep i k xs rule: Slice_compact.induct) (subst Slice_compact.simps, auto)

text \<open>The write position never overtakes the read position, so nothing unread is overwritten.\<close>

lemma Slice_compact_filter:
  "k \<le> i \<Longrightarrow> i \<le> length xs \<Longrightarrow> Slice_compact keep i k xs = (k', ys) \<Longrightarrow>
     k' \<le> length xs \<and> take k' ys = take k xs @ filter keep (drop i xs)"
proof (induction keep i k xs rule: Slice_compact.induct)
  case (1 keep i k xs)
  show ?case
  proof (cases "i < length xs")
    case True
    then have d: "drop i xs = xs ! i # drop (Suc i) xs" by (simp add: Cons_nth_drop_Suc)
    show ?thesis
    proof (cases "keep (xs ! i)")
      case keep: True
      with "1.prems" True have *: "Slice_compact keep (Suc i) (Suc k) (xs[k := xs ! i]) = (k', ys)"
        by (subst (asm) Slice_compact.simps) simp
      from "1.prems"(1) True have "take (Suc k) (xs[k := xs ! i]) = take k xs @ [xs ! i]"
        by (simp add: take_Suc_conv_app_nth)
      with "1.IH"(1) [OF True keep _ _ *] "1.prems"(1) True keep d show ?thesis
        by simp
    next
      case False
      with "1.prems" True have *: "Slice_compact keep (Suc i) k xs = (k', ys)"
        by (subst (asm) Slice_compact.simps) simp
      with "1.IH"(2) [OF True False _ _ *] "1.prems"(1) True False d show ?thesis
        by simp
    qed
  next
    case False
    with "1.prems" show ?thesis by (subst (asm) Slice_compact.simps) simp
  qed
qed

lemma take_fold_clear:
  "k \<le> j \<Longrightarrow> take k (fold (\<lambda>i ys. ys[i := z]) [j..<n] xs) = take k xs"
proof (induction n)
  case (Suc n)
  then show ?case by (cases "j \<le> n") simp_all
qed simp

section \<open>Contract\<close>

lemma Slice_RemoveExpired_alive:
  assumes "Slice_inv s" "dur_ok expiry"
  shows "workers (snd (Slice_RemoveExpired dated zero now expiry s))
           = filter (alive dated now expiry) (workers s)"
    and "Slice_inv (snd (Slice_RemoveExpired dated zero now expiry s))"
    and "fst (Slice_RemoveExpired dated zero now expiry s)
           = int (length (workers s))
             - int (length (workers (snd (Slice_RemoveExpired dated zero now expiry s))))"
proof -
  let ?P = "\<lambda>w. time_after (dated w) (time_add now (dur_neg expiry))"
  obtain k xs where c: "Slice_compact ?P 0 0 (workers s) = (k, xs)" by fastforce
  have P: "?P = alive dated now expiry"
    by (rule ext) (rule alive_cutoff [OF assms(2)])
  from Slice_compact_filter [OF _ _ c] P
  have k: "k \<le> length (workers s)" "take k xs = filter (alive dated now expiry) (workers s)"
    by simp_all
  from Slice_compact_length [of ?P 0 0 "workers s"] c have l: "length xs = length (workers s)" by simp
  then have e: "\<not> k < length (workers s) \<Longrightarrow> xs = take k xs" using k(1) by simp
  have len: "length (take k xs) = k" using k(1) l by simp
  note simps = Slice_RemoveExpired_def Slice_inv_def Slice_Len_def c take_fold_clear Let_def
  show "workers (snd (Slice_RemoveExpired dated zero now expiry s))
           = filter (alive dated now expiry) (workers s)"
    using assms(1) e by (auto simp: simps k(2))
  show "fst (Slice_RemoveExpired dated zero now expiry s)
           = int (length (workers s))
             - int (length (workers (snd (Slice_RemoveExpired dated zero now expiry s))))"
    using assms(1) len k(1) l by (simp add: simps)
  show "Slice_inv (snd (Slice_RemoveExpired dated zero now expiry s))"
    using assms(1) len k(1) l by (simp add: simps)
qed

interpretation slice: fifo_container dated zero Slice_inv workers NewSlice
  "\<lambda>(_ :: unit) w s. Some (Slice_Add w s)" "Slice_Pop zero"
  "\<lambda>now expiry s. Some (Slice_RemoveExpired dated zero now expiry s)" Slice_Len
  for dated :: "'a \<Rightarrow> go_time" and zero :: 'a
proof (unfold_locales, goal_cases)
  case (6 c expiry now)
  then show ?case using Slice_RemoveExpired_alive [of c expiry dated zero now]
    by (cases "Slice_RemoveExpired dated zero now expiry c") simp
qed (auto simp: Slice_inv_def NewSlice_def Slice_Add_def Slice_Pop_def Slice_Len_def)

section \<open>The property\<close>

text \<open>
  Slice: whatever sequence of \<open>Add\<close>, \<open>Pop\<close> and \<open>RemoveExpired\<close> is called on a new container, every
  call returns, and returns what a plain FIFO list would return.
\<close>

lemma Slice_refines_queue:
  assumes "list_all op_ok ops"
  shows "map_option fst (idle_run (\<lambda>(_ :: unit) w s. Some (Slice_Add w s)) (Slice_Pop zero)
           (\<lambda>now expiry s. Some (Slice_RemoveExpired dated zero now expiry s)) ops NewSlice)
         = Some (fst (fifo_run dated zero ops []))"
  by (rule slice.fifo_run_New [OF assms])

end
