(* ===== verification/Idle_RingQueue.thy ===== *)
theory Idle_RingQueue
  imports Idle_Slice
begin

text \<open>
  \<open>internal/idle/ring_queue.go\<close>: the circular buffer.  The abstraction reads the buffer from
  \<open>head\<close> on, that is the first \<open>length\<close> elements of the rotated buffer.  Its in-place
  cleanup is shown equal to the compaction of the slice container on that view.
\<close>

section \<open>Model\<close>

record 'a RingQueue =
  buf :: "'a list"
  rq_head :: nat
  rq_tail :: nat
  rq_length :: int

definition defaultRingQueueCapacity :: nat where
  "defaultRingQueueCapacity = 64"

definition NewRingQueue :: "'a \<Rightarrow> 'a RingQueue" where
  "NewRingQueue zero =
     \<lparr>buf = replicate defaultRingQueueCapacity zero, rq_head = 0, rq_tail = 0, rq_length = 0\<rparr>"

text \<open>The copy loop of \<open>grow\<close>.\<close>

function RingQueue_copy :: "nat \<Rightarrow> nat \<Rightarrow> nat \<Rightarrow> 'a list \<Rightarrow> 'a list \<Rightarrow> 'a list option" where
  "RingQueue_copy i n head old newBuf =
     (if i < n then do {
        v \<leftarrow> go_get old ((head + i) mod length old);
        newBuf' \<leftarrow> go_set newBuf i v;
        RingQueue_copy (Suc i) n head old newBuf' }
      else Some newBuf)"
  by pat_completeness auto
termination
  by (relation "measure (\<lambda>(i, n, head, old, newBuf). n - i)") auto

definition RingQueue_grow :: "'a \<Rightarrow> 'a RingQueue \<Rightarrow> 'a RingQueue option" where
  "RingQueue_grow zero rq = do {
     let n = nat (rq_length rq);
     let newCap = length (buf rq) * 2;
     newBuf \<leftarrow> RingQueue_copy 0 n (rq_head rq) (buf rq) (replicate newCap zero);
     Some (rq\<lparr>rq_head := 0, rq_tail := n, buf := newBuf\<rparr>) }"

definition RingQueue_Add :: "'a \<Rightarrow> 'a \<Rightarrow> 'a RingQueue \<Rightarrow> 'a RingQueue option" where
  "RingQueue_Add zero w rq = do {
     rq1 \<leftarrow> (if int (length (buf rq)) = rq_length rq then RingQueue_grow zero rq else Some rq);
     b \<leftarrow> go_set (buf rq1) (rq_tail rq1) w;
     Some (rq1\<lparr>buf := b, rq_tail := (rq_tail rq1 + 1) mod length b,
               rq_length := rq_length rq1 + 1\<rparr>) }"

definition RingQueue_Pop :: "'a \<Rightarrow> 'a RingQueue \<Rightarrow> ('a \<times> 'a RingQueue) option" where
  "RingQueue_Pop zero rq =
     (if rq_length rq = 0 then Some (zero, rq)
      else do {
        w \<leftarrow> go_get (buf rq) (rq_head rq);
        b \<leftarrow> go_set (buf rq) (rq_head rq) zero;
        Some (w, rq\<lparr>buf := b, rq_head := (rq_head rq + 1) mod length b,
                    rq_length := rq_length rq - 1\<rparr>) })"

text \<open>The in-place compaction: \<open>k\<close> is \<open>writeIdx\<close>.\<close>

function RingQueue_compact ::
  "('a \<Rightarrow> bool) \<Rightarrow> nat \<Rightarrow> nat \<Rightarrow> nat \<Rightarrow> nat \<Rightarrow> 'a list \<Rightarrow> (nat \<times> 'a list) option" where
  "RingQueue_compact keep head n i k b =
     (if i < n then do {
        w \<leftarrow> go_get b ((head + i) mod length b);
        if keep w then do {
          b' \<leftarrow> (if k \<noteq> i then go_set b ((head + k) mod length b) w else Some b);
          RingQueue_compact keep head n (Suc i) (Suc k) b' }
        else RingQueue_compact keep head n (Suc i) k b }
      else Some (k, b))"
  by pat_completeness auto
termination
  by (relation "measure (\<lambda>(keep, head, n, i, k, b). n - i)") auto

function RingQueue_clear :: "'a \<Rightarrow> nat \<Rightarrow> nat \<Rightarrow> nat \<Rightarrow> 'a list \<Rightarrow> 'a list option" where
  "RingQueue_clear zero head n i b =
     (if i < n then do {
        b' \<leftarrow> go_set b ((head + i) mod length b) zero;
        RingQueue_clear zero head n (Suc i) b' }
      else Some b)"
  by pat_completeness auto
termination
  by (relation "measure (\<lambda>(zero, head, n, i, b). n - i)") auto

declare RingQueue_copy.simps [simp del] RingQueue_compact.simps [simp del] RingQueue_clear.simps [simp del]

definition RingQueue_RemoveExpired ::
  "('a \<Rightarrow> go_time) \<Rightarrow> 'a \<Rightarrow> go_time \<Rightarrow> duration \<Rightarrow> 'a RingQueue \<Rightarrow> (int \<times> 'a RingQueue) option" where
  "RingQueue_RemoveExpired dated zero now expiry rq =
     (let n = nat (rq_length rq) in
      if n = 0 then Some (0, rq)
      else do {
        let cutoff = time_add now (dur_neg expiry);
        (writeIdx, b) \<leftarrow>
          RingQueue_compact (\<lambda>w. time_after (dated w) cutoff) (rq_head rq) n 0 0 (buf rq);
        b' \<leftarrow> RingQueue_clear zero (rq_head rq) n writeIdx b;
        let removed = int n - int writeIdx;
        Some (removed, rq\<lparr>buf := b', rq_tail := (rq_head rq + writeIdx) mod length b',
                          rq_length := rq_length rq - removed\<rparr>) })"

definition RingQueue_Len :: "'a RingQueue \<Rightarrow> int" where
  "RingQueue_Len rq = rq_length rq"

section \<open>Abstraction and invariant\<close>

definition RingQueue_contents :: "'a RingQueue \<Rightarrow> 'a list" where
  "RingQueue_contents rq = take (nat (rq_length rq)) (rotate (rq_head rq) (buf rq))"

definition RingQueue_inv :: "'a RingQueue \<Rightarrow> bool" where
  "RingQueue_inv rq \<longleftrightarrow> rq_head rq < length (buf rq)
     \<and> 0 \<le> rq_length rq \<and> rq_length rq \<le> int (length (buf rq))
     \<and> rq_tail rq = (rq_head rq + nat (rq_length rq)) mod length (buf rq)"

section \<open>Reading and writing through the rotation\<close>

lemma mod_add_inj:
  fixes h i j n :: nat
  assumes "i < n" "j < n" "(h + i) mod n = (h + j) mod n"
  shows "i = j"
proof -
  have *: "a = b" if "a \<le> b" "b < n" "(h + a) mod n = (h + b) mod n" for a b
    using that mod_eq_dvd_iff_nat [of "h + a" "h + b" n] by (auto dest: dvd_imp_le)
  show ?thesis
    using *[of i j] *[of j i] assms by (cases "i \<le> j") simp_all
qed

lemma rotate_update:
  assumes "i < length xs"
  shows "rotate h (xs[(h + i) mod length xs := v]) = (rotate h xs)[i := v]"
proof (rule nth_equalityI)
  fix j assume "j < length (rotate h (xs[(h + i) mod length xs := v]))"
  then have j: "j < length xs" by simp
  have "(h + i) mod length xs < length xs" using j by (auto intro: mod_less_divisor)
  then show "rotate h (xs[(h + i) mod length xs := v]) ! j = (rotate h xs)[i := v] ! j"
    using j assms mod_add_inj [OF j assms, of h]
    by (auto simp: nth_rotate nth_list_update)
qed simp

lemma rotate_get:
  "i < length xs \<Longrightarrow> go_get xs ((h + i) mod length xs) = Some (rotate h xs ! i)"
  by (cases xs) (auto simp: go_get_def nth_rotate)

lemma rotate_set:
  "i < length xs \<Longrightarrow> go_set xs ((h + i) mod length xs) v = Some (xs[(h + i) mod length xs := v])"
  by (cases xs) (auto simp: go_set_def)

section \<open>The loops\<close>

lemma RingQueue_copy_spec:
  "n \<le> length old \<Longrightarrow> n \<le> length new \<Longrightarrow> i \<le> n \<Longrightarrow>
     RingQueue_copy i n h old new
       = Some (take i new @ drop i (take n (rotate h old)) @ drop n new)"
proof (induction i n h old new rule: RingQueue_copy.induct)
  case (1 i n h old new)
  show ?case
  proof (cases "i < n")
    case True
    let ?v = "rotate h old ! i"
    have "drop i (take n (rotate h old)) = ?v # drop (Suc i) (take n (rotate h old))"
      using True "1.prems" by (simp add: Cons_nth_drop_Suc [symmetric])
    moreover have "take (Suc i) (new[i := ?v]) = take i new @ [?v]"
      using True "1.prems" by (simp add: take_Suc_conv_app_nth)
    ultimately show ?thesis
      using True "1.prems" "1.IH" [of ?v "new[i := ?v]"]
      by (subst RingQueue_copy.simps) (simp add: rotate_get)
  next
    case False
    with "1.prems" show ?thesis by (subst RingQueue_copy.simps) simp
  qed
qed

text \<open>The ring compaction is the slice compaction of the rotated view.\<close>

lemma RingQueue_compact_spec:
  "n \<le> length b \<Longrightarrow> k \<le> i \<Longrightarrow> i \<le> n \<Longrightarrow>
     \<exists>b'. RingQueue_compact keep h n i k b
            = Some (fst (Slice_compact keep i k (take n (rotate h b))), b')
       \<and> length b' = length b
       \<and> take n (rotate h b') = snd (Slice_compact keep i k (take n (rotate h b)))"
proof (induction keep h n i k b rule: RingQueue_compact.induct)
  case (1 keep h n i k b)
  let ?xs = "take n (rotate h b)"
  show ?case
  proof (cases "i < n")
    case True
    then have x: "rotate h b ! i = ?xs ! i" "i < length ?xs" "k < length b" "i < length b"
      using "1.prems" by simp_all
    show ?thesis
    proof (cases "keep (?xs ! i)")
      case keep: True
      define b' where "b' = b[(h + k) mod length b := ?xs ! i]"
      have set: "(if k \<noteq> i then go_set b ((h + k) mod length b) (?xs ! i) else Some b) = Some b'"
      proof (cases "k = i")
        case True
        with x(1,4) have "?xs ! i = b ! ((h + k) mod length b)" by (simp add: nth_rotate)
        with True show ?thesis by (simp add: b'_def)
      next
        case False
        with x(3) show ?thesis by (simp add: rotate_set b'_def)
      qed
      have xs': "take n (rotate h b') = ?xs[k := ?xs ! i]"
        using x(3) True "1.prems" by (simp add: b'_def rotate_update take_update_swap)
      have "length b' = length b" by (simp add: b'_def)
      moreover have get: "go_get b ((h + i) mod length b) = Some (?xs ! i)"
        using x(1,4) by (simp add: rotate_get)
      moreover have "RingQueue_compact keep h n i k b = RingQueue_compact keep h n (Suc i) (Suc k) b'"
        by (subst RingQueue_compact.simps) (simp only: True get keep set if_True bind.bind_lunit)
      moreover have "Slice_compact keep i k ?xs = Slice_compact keep (Suc i) (Suc k) (?xs[k := ?xs ! i])"
        by (subst Slice_compact.simps) (simp only: x(2) keep if_True)
      ultimately show ?thesis
        using "1.IH"(1) [OF True get keep set] True "1.prems" xs' by simp
    next
      case False
      have get: "go_get b ((h + i) mod length b) = Some (?xs ! i)"
        using x(1,4) by (simp add: rotate_get)
      moreover have "RingQueue_compact keep h n i k b = RingQueue_compact keep h n (Suc i) k b"
        by (subst RingQueue_compact.simps) (simp only: True get False if_True if_False bind.bind_lunit)
      moreover have "Slice_compact keep i k ?xs = Slice_compact keep (Suc i) k ?xs"
        by (subst Slice_compact.simps) (simp only: x(2) False if_True if_False)
      ultimately show ?thesis
        using "1.IH"(2) [OF True get False] True "1.prems" by simp
    qed
  next
    case False
    moreover from this "1.prems" have "Slice_compact keep i k ?xs = (k, ?xs)"
      by (subst Slice_compact.simps) simp
    ultimately show ?thesis by (subst RingQueue_compact.simps) simp
  qed
qed

lemma RingQueue_clear_spec:
  "n \<le> length b \<Longrightarrow>
     \<exists>b'. RingQueue_clear zero h n i b = Some b' \<and> length b' = length b
       \<and> take i (rotate h b') = take i (rotate h b)"
proof (induction zero h n i b rule: RingQueue_clear.induct)
  case (1 zero h n i b)
  show ?case
  proof (cases "i < n")
    case True
    let ?b = "b[(h + i) mod length b := zero]"
    from True "1.prems" have s: "go_set b ((h + i) mod length b) zero = Some ?b"
      by (simp add: rotate_set)
    from "1.IH" [OF True s] "1.prems" obtain b' where
      b': "RingQueue_clear zero h n (Suc i) ?b = Some b'" "length b' = length b"
          "take (Suc i) (rotate h b') = take (Suc i) (rotate h ?b)" by auto
    from b'(3) have "take i (take (Suc i) (rotate h b')) = take i (take (Suc i) (rotate h ?b))"
      by simp
    with True "1.prems" have "take i (rotate h b') = take i (rotate h b)"
      by (simp add: rotate_update take_update_cancel)
    with b' s True show ?thesis by (subst RingQueue_clear.simps) simp
  next
    case False
    then show ?thesis by (subst RingQueue_clear.simps) simp
  qed
qed


section \<open>Contract\<close>

lemma RingQueue_inv_nonempty: "RingQueue_inv rq \<Longrightarrow> buf rq \<noteq> []"
  by (auto simp: RingQueue_inv_def)

lemma RingQueue_contents_length [simp]:
  "RingQueue_inv rq \<Longrightarrow> int (length (RingQueue_contents rq)) = rq_length rq"
  by (auto simp: RingQueue_inv_def RingQueue_contents_def)

lemma RingQueue_grow_spec:
  assumes "RingQueue_inv rq" "int (length (buf rq)) = rq_length rq"
  shows "\<exists>rq'. RingQueue_grow zero rq = Some rq' \<and> RingQueue_inv rq'
    \<and> RingQueue_contents rq' = RingQueue_contents rq \<and> rq_length rq' = rq_length rq
    \<and> rq_length rq' < int (length (buf rq'))"
proof -
  let ?n = "length (buf rq)"
  have n: "nat (rq_length rq) = ?n" using assms(2) by linarith
  have "0 < ?n" using RingQueue_inv_nonempty [OF assms(1)] by simp
  moreover from this have "0 < rq_length rq" using assms(2) by linarith
  moreover have "RingQueue_copy 0 ?n (rq_head rq) (buf rq) (replicate (?n * 2) zero)
      = Some (rotate (rq_head rq) (buf rq) @ replicate ?n zero)"
    by (subst RingQueue_copy_spec) simp_all
  ultimately show ?thesis
    using assms(2) n
    by (auto simp: RingQueue_grow_def RingQueue_inv_def RingQueue_contents_def Let_def)
qed

lemma RingQueue_store_tail:
  assumes "RingQueue_inv rq" "rq_length rq < int (length (buf rq))"
  shows "\<exists>b. go_set (buf rq) (rq_tail rq) w = Some b \<and> length b = length (buf rq)
    \<and> take (Suc (nat (rq_length rq))) (rotate (rq_head rq) b) = RingQueue_contents rq @ [w]"
proof -
  let ?n = "nat (rq_length rq)"
  have n: "?n < length (buf rq)" "rq_tail rq = (rq_head rq + ?n) mod length (buf rq)"
    using assms by (auto simp: RingQueue_inv_def)
  then show ?thesis
    by (simp add: rotate_set rotate_update RingQueue_contents_def take_Suc_conv_app_nth)
qed

lemma RingQueue_Add_spec:
  assumes "RingQueue_inv rq"
  shows "\<exists>rq'. RingQueue_Add zero w rq = Some rq' \<and> RingQueue_inv rq'
    \<and> RingQueue_contents rq' = RingQueue_contents rq @ [w]"
proof -
  obtain rq1 where 1:
    "(if int (length (buf rq)) = rq_length rq then RingQueue_grow zero rq else Some rq) = Some rq1"
    "RingQueue_inv rq1" "RingQueue_contents rq1 = RingQueue_contents rq"
    "rq_length rq1 < int (length (buf rq1))"
  proof (cases "int (length (buf rq)) = rq_length rq")
    case True
    with RingQueue_grow_spec [OF assms True, of zero] that show ?thesis by auto
  next
    case False
    with assms that [of rq] show ?thesis by (simp add: RingQueue_inv_def)
  qed
  from RingQueue_store_tail [OF 1(2,4), of w] obtain b where
    b: "go_set (buf rq1) (rq_tail rq1) w = Some b" "length b = length (buf rq1)"
       "take (Suc (nat (rq_length rq1))) (rotate (rq_head rq1) b) = RingQueue_contents rq1 @ [w]"
    by blast
  have "nat (rq_length rq1 + 1) = Suc (nat (rq_length rq1))"
    using 1(2) by (simp add: RingQueue_inv_def nat_add_distrib)
  with 1 b show ?thesis
    by (simp add: RingQueue_Add_def RingQueue_inv_def RingQueue_contents_def mod_Suc_eq)
qed

lemma RingQueue_Pop_spec:
  assumes "RingQueue_inv rq" "RingQueue_contents rq = w # ws"
  shows "\<exists>rq'. RingQueue_Pop zero rq = Some (w, rq') \<and> RingQueue_inv rq' \<and> RingQueue_contents rq' = ws"
proof -
  let ?h = "rq_head rq" and ?b = "(buf rq)[rq_head rq := zero]"
  define m where "m = length ws"
  have m: "rq_length rq = int (Suc m)" "Suc m \<le> length (buf rq)"
    using assms RingQueue_contents_length [OF assms(1)] by (auto simp: RingQueue_inv_def m_def)
  have h: "?h < length (buf rq)" using assms(1) by (simp add: RingQueue_inv_def)
  have "take (Suc m) (rotate ?h (buf rq)) = w # ws"
    using assms(2) by (simp only: RingQueue_contents_def m(1) nat_int)
  then obtain t where r: "rotate ?h (buf rq) = w # t" "take m t = ws"
    by (cases "rotate ?h (buf rq)") simp_all
  have w: "buf rq ! ?h = w"
  proof -
    have "buf rq ! ?h = rotate ?h (buf rq) ! 0"
      using h by (subst nth_rotate) (auto intro: le_less_trans)
    also have "\<dots> = w" by (simp add: r(1))
    finally show ?thesis .
  qed
  have "rotate ?h ?b = (rotate ?h (buf rq))[0 := zero]"
    using rotate_update [of 0 "buf rq" ?h zero] h by (cases "buf rq") simp_all
  then have "rotate ?h ?b = zero # t" by (simp add: r(1))
  then have rot: "rotate ((?h + 1) mod length ?b) ?b = t @ [zero]"
    using rotate_conv_mod [of "?h + 1" ?b] by simp
  have lt: "length t = length (buf rq) - 1" using arg_cong [OF r(1), of length] by simp
  define rq' where "rq' = rq\<lparr>buf := ?b, rq_head := (?h + 1) mod length ?b, rq_length := int m\<rparr>"
  have "RingQueue_Pop zero rq = Some (w, rq')"
    using m(1) h w by (simp add: RingQueue_Pop_def rq'_def)
  moreover have "RingQueue_contents rq' = ws"
    using rot lt m(2) r(2) by (simp add: RingQueue_contents_def rq'_def)
  moreover have "0 < length (buf rq)" "nat (rq_length rq) = Suc m"
    using h m(1) by (auto intro: le_less_trans)
  then have "RingQueue_inv rq'"
    using assms(1) m(2) by (auto simp: RingQueue_inv_def rq'_def mod_simps)
  ultimately show ?thesis by blast
qed

lemma RingQueue_RemoveExpired_spec:
  assumes "RingQueue_inv rq" "dur_ok expiry"
  shows "\<exists>n rq'. RingQueue_RemoveExpired dated zero now expiry rq = Some (n, rq') \<and> RingQueue_inv rq'
    \<and> RingQueue_contents rq' = filter (alive dated now expiry) (RingQueue_contents rq)
    \<and> n = int (length (RingQueue_contents rq)) - int (length (RingQueue_contents rq'))"
proof (cases "nat (rq_length rq) = 0")
  case True
  with assms(1) show ?thesis
    by (simp add: RingQueue_RemoveExpired_def RingQueue_contents_def)
next
  case False
  let ?n = "nat (rq_length rq)" and ?h = "rq_head rq"
  let ?P = "\<lambda>w. time_after (dated w) (time_add now (dur_neg expiry))"
  have P: "?P = alive dated now expiry" by (rule ext) (rule alive_cutoff [OF assms(2)])
  have n: "?n \<le> length (buf rq)" "rq_length rq = int ?n"
    using assms(1) by (auto simp: RingQueue_inv_def)
  obtain k ys where s: "Slice_compact ?P 0 0 (take ?n (rotate ?h (buf rq))) = (k, ys)" by fastforce
  with RingQueue_compact_spec [OF n(1), of 0 0 ?P ?h] obtain b where
    b: "RingQueue_compact ?P ?h ?n 0 0 (buf rq) = Some (k, b)" "length b = length (buf rq)"
       "take ?n (rotate ?h b) = ys" by auto
  from Slice_compact_filter [OF _ _ s] n(1) P
  have k: "k \<le> ?n" "take k ys = filter (alive dated now expiry) (RingQueue_contents rq)"
    by (simp_all add: RingQueue_contents_def)
  from RingQueue_clear_spec [of ?n b zero ?h k] n(1) b(2) obtain b' where
    b': "RingQueue_clear zero ?h ?n k b = Some b'" "length b' = length b"
        "take k (rotate ?h b') = take k (rotate ?h b)" by auto
  from b(3) k b'(3) have c: "take k (rotate ?h b') = filter (alive dated now expiry) (RingQueue_contents rq)"
    by (simp add: min_def flip: b(3))
  define rq' where "rq' = rq\<lparr>buf := b', rq_tail := (?h + k) mod length b', rq_length := int k\<rparr>"
  have e: "RingQueue_RemoveExpired dated zero now expiry rq = Some (int ?n - int k, rq')"
    using False b(1) b'(1) n(2) by (simp add: RingQueue_RemoveExpired_def rq'_def Let_def)
  have i: "RingQueue_inv rq'"
    using assms(1) k(1) n(1) b(2) b'(2) by (auto simp: RingQueue_inv_def rq'_def)
  moreover have "RingQueue_contents rq' = filter (alive dated now expiry) (RingQueue_contents rq)"
    using c by (simp add: RingQueue_contents_def rq'_def)
  moreover have "int (length (RingQueue_contents rq')) = int k"
    using RingQueue_contents_length [OF i] by (simp add: rq'_def)
  ultimately show ?thesis
    using e RingQueue_contents_length [OF assms(1)] n(2) by auto
qed

interpretation ring: fifo_container dated zero RingQueue_inv RingQueue_contents "NewRingQueue zero"
  "\<lambda>(_ :: unit). RingQueue_Add zero" "RingQueue_Pop zero" "RingQueue_RemoveExpired dated zero" RingQueue_Len
  for dated :: "'a \<Rightarrow> go_time" and zero :: 'a
proof (unfold_locales, goal_cases)
  case (4 c)
  then show ?case using RingQueue_contents_length [of c] by (simp add: RingQueue_Pop_def)
next
  case (6 c expiry now)
  then show ?case by (rule RingQueue_RemoveExpired_spec)
qed (simp_all add: RingQueue_Add_spec RingQueue_Pop_spec RingQueue_Len_def,
     simp_all add: RingQueue_inv_def RingQueue_contents_def NewRingQueue_def defaultRingQueueCapacity_def)

section \<open>The property\<close>

text \<open>
  C12.  RingQueue: whatever sequence of \<open>Add\<close> (growing the ring as needed), \<open>Pop\<close> and \<open>RemoveExpired\<close> is
  called on a new container, no index is out of range, every call returns, and returns what a
  plain FIFO list would return.
\<close>

theorem RingQueue_refines_queue:
  assumes "list_all op_ok ops"
  shows "map_option fst (idle_run (\<lambda>(_ :: unit). RingQueue_Add zero) (RingQueue_Pop zero)
           (RingQueue_RemoveExpired dated zero) ops (NewRingQueue zero))
         = Some (fst (fifo_run dated zero ops []))"
  by (rule ring.fifo_run_New [OF assms])

theorem RingQueue_refines_queue_witness:
  "list_all op_ok (sample_calls ())
   \<and> map_option fst (idle_run (\<lambda>(_ :: unit). RingQueue_Add 0) (RingQueue_Pop 0)
           (RingQueue_RemoveExpired id 0)
           (sample_calls ()) (NewRingQueue 0))
       = Some [RAdd, RAdd, RExpire 1, RPop 9, RPop 0]"
  using RingQueue_refines_queue [OF sample_calls_ok, of 0 id]
  by (simp add: sample_calls_fifo)

end
