(* ===== verification/Idle_LinkedList.thy ===== *)
theory Idle_LinkedList
  imports Idle_Spec
begin

text \<open>
  \<open>internal/idle/linkedlist.go\<close>: the doubly linked list.  Nodes live in an explicit store from
  addresses to nodes because the code updates them through the pointers of their neighbours; a
  missing address is a nil dereference.  \<open>ll_fresh\<close> is the address the allocator returns next.
  The abstraction follows the \<open>next\<close> pointers from \<open>head\<close>.
\<close>

section \<open>Model\<close>

record 'a llNode =
  ll_val :: 'a
  ll_next :: "nat option"
  ll_prev :: "nat option"

record 'a LinkedList =
  ll_head :: "nat option"
  ll_tail :: "nat option"
  ll_length :: int
  ll_store :: "nat \<rightharpoonup> 'a llNode"
  ll_fresh :: nat

definition newLLNode :: "'a \<Rightarrow> 'a llNode" where
  "newLLNode v = \<lparr>ll_val = v, ll_next = None, ll_prev = None\<rparr>"

definition NewLinkedList :: "'a LinkedList" where
  "NewLinkedList = \<lparr>ll_head = None, ll_tail = None, ll_length = 0, ll_store = Map.empty, ll_fresh = 0\<rparr>"

text \<open>Assignments \<open>p.next = q\<close> and \<open>p.prev = q\<close> through a pointer; nil panics.\<close>

definition set_next :: "nat option \<Rightarrow> nat option \<Rightarrow> 'a LinkedList \<Rightarrow> 'a LinkedList option" where
  "set_next p q ll = do {
     a \<leftarrow> p; n \<leftarrow> ll_store ll a;
     Some (ll\<lparr>ll_store := (ll_store ll)(a \<mapsto> n\<lparr>ll_next := q\<rparr>)\<rparr>) }"

definition set_prev :: "nat option \<Rightarrow> nat option \<Rightarrow> 'a LinkedList \<Rightarrow> 'a LinkedList option" where
  "set_prev p q ll = do {
     a \<leftarrow> p; n \<leftarrow> ll_store ll a;
     Some (ll\<lparr>ll_store := (ll_store ll)(a \<mapsto> n\<lparr>ll_prev := q\<rparr>)\<rparr>) }"

definition LinkedList_Add :: "'a \<Rightarrow> 'a LinkedList \<Rightarrow> 'a LinkedList option" where
  "LinkedList_Add w ll =
     (let node = ll_fresh ll;
          ll1 = ll\<lparr>ll_store := (ll_store ll)(node \<mapsto> newLLNode w), ll_fresh := Suc node\<rparr>
      in if ll_head ll1 = None \<and> ll_tail ll1 = None
         then Some (ll1\<lparr>ll_head := Some node, ll_tail := Some node, ll_length := ll_length ll1 + 1\<rparr>)
         else do {
           let prev = ll_tail ll1;
           ll2 \<leftarrow> set_next (ll_tail ll1) (Some node) ll1;
           t \<leftarrow> ll_tail ll2; tn \<leftarrow> ll_store ll2 t;
           let ll3 = ll2\<lparr>ll_tail := ll_next tn\<rparr>;
           ll4 \<leftarrow> set_prev (ll_tail ll3) prev ll3;
           Some (ll4\<lparr>ll_length := ll_length ll4 + 1\<rparr>) })"

definition LinkedList_Pop :: "'a \<Rightarrow> 'a LinkedList \<Rightarrow> ('a \<times> 'a LinkedList) option" where
  "LinkedList_Pop zero ll =
     (case ll_head ll of
        None \<Rightarrow> Some (zero, ll)
      | Some h \<Rightarrow> do {
          n \<leftarrow> ll_store ll h;
          ll1 \<leftarrow> (if ll_head ll = ll_tail ll then Some (ll\<lparr>ll_head := None, ll_tail := None\<rparr>)
                 else set_prev (ll_next n) None (ll\<lparr>ll_head := ll_next n\<rparr>));
          Some (ll_val n, ll1\<lparr>ll_length := ll_length ll1 - 1\<rparr>) })"

definition LinkedList_removeNode :: "nat \<Rightarrow> 'a LinkedList \<Rightarrow> 'a LinkedList option" where
  "LinkedList_removeNode node ll = do {
     n \<leftarrow> ll_store ll node;
     ll1 \<leftarrow> (if ll_prev n \<noteq> None then set_next (ll_prev n) (ll_next n) ll
            else Some (ll\<lparr>ll_head := ll_next n\<rparr>));
     n1 \<leftarrow> ll_store ll1 node;
     ll2 \<leftarrow> (if ll_next n1 \<noteq> None then set_prev (ll_next n1) (ll_prev n1) ll1
            else Some (ll1\<lparr>ll_tail := ll_prev n1\<rparr>));
     ll3 \<leftarrow> set_prev (Some node) None ll2;
     ll4 \<leftarrow> set_next (Some node) None ll3;
     Some (ll4\<lparr>ll_length := ll_length ll4 - 1\<rparr>) }"

text \<open>
  The traversal of \<open>RemoveExpired\<close>.  It would not end on a cyclic list, so it is a partial function;
  \<open>None\<close> is a panic or no return.
\<close>

partial_function (option) LinkedList_expireLoop ::
  "('a \<Rightarrow> go_time) \<Rightarrow> go_time \<Rightarrow> duration \<Rightarrow> nat option \<Rightarrow> int \<Rightarrow> 'a LinkedList \<Rightarrow> (int \<times> 'a LinkedList) option" where
  "LinkedList_expireLoop dated now expiry node removed ll =
     (case node of
        None \<Rightarrow> Some (removed, ll)
      | Some a \<Rightarrow>
          Option.bind (ll_store ll a) (\<lambda>n.
            if \<not> time_after (time_add (dated (ll_val n)) expiry) now
            then Option.bind (LinkedList_removeNode a ll)
              (\<lambda>ll'. LinkedList_expireLoop dated now expiry (ll_next n) (removed + 1) ll')
            else LinkedList_expireLoop dated now expiry (ll_next n) removed ll))"

definition LinkedList_RemoveExpired ::
  "('a \<Rightarrow> go_time) \<Rightarrow> go_time \<Rightarrow> duration \<Rightarrow> 'a LinkedList \<Rightarrow> (int \<times> 'a LinkedList) option" where
  "LinkedList_RemoveExpired dated now expiry ll =
     LinkedList_expireLoop dated now expiry (ll_head ll) 0 ll"

definition LinkedList_Len :: "'a LinkedList \<Rightarrow> int" where
  "LinkedList_Len ll = ll_length ll"

section \<open>Well-linked segments\<close>

text \<open>The nodes \<open>as\<close> are linked in both directions, entered from \<open>p\<close> and left to \<open>q\<close>.\<close>

fun linked :: "(nat \<rightharpoonup> 'a llNode) \<Rightarrow> nat option \<Rightarrow> nat list \<Rightarrow> nat option \<Rightarrow> bool" where
  "linked h p [] q = True"
| "linked h p (a # as) q \<longleftrightarrow>
     (case h a of None \<Rightarrow> False
      | Some n \<Rightarrow> ll_prev n = p \<and> ll_next n = first_or as q) \<and> linked h (Some a) as q"

lemma linked_append [simp]:
  "linked h p (as @ bs) q \<longleftrightarrow> linked h p as (first_or bs q) \<and> linked h (last_or p as) bs q"
  by (induction as arbitrary: p) (auto split: option.splits)

lemma linked_frame [simp]: "a \<notin> set as \<Longrightarrow> linked (h(a \<mapsto> n)) p as q = linked h p as q"
  by (induction as arbitrary: p) auto

lemma linked_dom: "linked h p as q \<Longrightarrow> a \<in> set as \<Longrightarrow> \<exists>n. h a = Some n"
  by (induction as arbitrary: p) (auto split: option.splits)

definition node_val :: "(nat \<rightharpoonup> 'a llNode) \<Rightarrow> nat \<Rightarrow> 'a" where
  "node_val h a = ll_val (the (h a))"

lemma node_val_upd [simp]:
  "node_val (h(a \<mapsto> n)) b = (if a = b then ll_val n else node_val h b)"
  by (simp add: node_val_def)

definition ll_rep :: "'a LinkedList \<Rightarrow> nat list \<Rightarrow> bool" where
  "ll_rep ll as \<longleftrightarrow> distinct as \<and> (\<forall>a \<in> set as. a < ll_fresh ll)
     \<and> ll_head ll = first_or as None \<and> ll_tail ll = last_or None as
     \<and> ll_length ll = int (length as) \<and> linked (ll_store ll) None as None"

fun ll_walk :: "nat \<Rightarrow> (nat \<rightharpoonup> 'a llNode) \<Rightarrow> nat option \<Rightarrow> nat list" where
  "ll_walk (Suc k) h (Some a) = a # ll_walk k h (case h a of None \<Rightarrow> None | Some n \<Rightarrow> ll_next n)"
| "ll_walk _ h _ = []"

definition ll_addrs :: "'a LinkedList \<Rightarrow> nat list" where
  "ll_addrs ll = ll_walk (nat (ll_length ll)) (ll_store ll) (ll_head ll)"

definition LinkedList_contents :: "'a LinkedList \<Rightarrow> 'a list" where
  "LinkedList_contents ll = map (node_val (ll_store ll)) (ll_addrs ll)"

definition LinkedList_inv :: "'a LinkedList \<Rightarrow> bool" where
  "LinkedList_inv ll \<longleftrightarrow> ll_rep ll (ll_addrs ll)"

lemma ll_walk_linked: "linked h p as None \<Longrightarrow> ll_walk (length as) h (first_or as None) = as"
  by (induction as arbitrary: p) (auto split: option.splits)

lemma ll_rep_addrs: "ll_rep ll as \<Longrightarrow> ll_addrs ll = as"
  using ll_walk_linked [of "ll_store ll" None as] by (simp add: ll_rep_def ll_addrs_def)

lemma ll_rep_inv: "ll_rep ll as \<Longrightarrow> LinkedList_inv ll"
  by (simp add: LinkedList_inv_def ll_rep_addrs)

lemma ll_rep_contents: "ll_rep ll as \<Longrightarrow> LinkedList_contents ll = map (node_val (ll_store ll)) as"
  by (simp add: LinkedList_contents_def ll_rep_addrs)

section \<open>Operations on represented lists\<close>

lemma LinkedList_Add_rep:
  assumes "ll_rep ll as"
  shows "\<exists>ll'. LinkedList_Add w ll = Some ll' \<and> ll_rep ll' (as @ [ll_fresh ll])
     \<and> map (node_val (ll_store ll')) (as @ [ll_fresh ll]) = map (node_val (ll_store ll)) as @ [w]"
proof (cases as rule: rev_cases)
  case Nil
  with assms show ?thesis
    by (auto simp: LinkedList_Add_def ll_rep_def newLLNode_def Let_def)
next
  case (snoc bs b)
  let ?f = "ll_fresh ll"
  obtain n where b: "ll_store ll b = Some n"
    using assms snoc linked_dom [of "ll_store ll" None as None b] by (auto simp: ll_rep_def)
  have fresh: "?f \<notin> set as" using assms by (auto simp: ll_rep_def)
  moreover have "node_val (ll_store ll) b = ll_val n" using b by (simp add: node_val_def)
  ultimately show ?thesis
    using assms snoc b
    by (auto simp: LinkedList_Add_def ll_rep_def newLLNode_def Let_def set_next_def set_prev_def)
qed

lemma LinkedList_Pop_rep:
  assumes "ll_rep ll (a # as)"
  shows "\<exists>ll'. LinkedList_Pop zero ll = Some (node_val (ll_store ll) a, ll') \<and> ll_rep ll' as
     \<and> map (node_val (ll_store ll')) as = map (node_val (ll_store ll)) as"
proof (cases as)
  case Nil
  with assms show ?thesis
    by (auto simp: LinkedList_Pop_def ll_rep_def node_val_def split: option.splits)
next
  case (Cons b bs)
  obtain n m where "ll_store ll a = Some n" "ll_store ll b = Some m"
    using assms Cons by (auto simp: ll_rep_def split: option.splits)
  moreover have "last (b # bs) \<noteq> a" using assms Cons by (auto simp: ll_rep_def)
  ultimately show ?thesis
    using assms Cons
    by (auto simp: LinkedList_Pop_def ll_rep_def set_prev_def node_val_def last_or_def split: if_splits)
qed

text \<open>Unlinking a node in any position keeps the rest of the list and the stored values.\<close>

lemma LinkedList_removeNode_rep:
  assumes "ll_rep ll (xs @ a # ys)"
  shows "\<exists>ll'. LinkedList_removeNode a ll = Some ll' \<and> ll_rep ll' (xs @ ys)
     \<and> node_val (ll_store ll') = node_val (ll_store ll)"
proof -
  have d: "distinct (xs @ a # ys)" "linked (ll_store ll) None (xs @ a # ys) None"
    using assms by (simp_all add: ll_rep_def)
  from d(2) obtain n where n: "ll_store ll a = Some n" "ll_prev n = last_or None xs" "ll_next n = first_or ys None"
    by (auto split: option.splits)
  have xs: "xs = [] \<or> (\<exists>xs' b m. xs = xs' @ [b] \<and> ll_store ll b = Some m)"
    using linked_dom [OF d(2)] by (cases xs rule: rev_cases) auto
  have ys: "ys = [] \<or> (\<exists>c ys' k. ys = c # ys' \<and> ll_store ll c = Some k)"
    using linked_dom [OF d(2)] by (cases ys) auto
  note simps = LinkedList_removeNode_def set_next_def set_prev_def ll_rep_def fun_eq_iff last_or_def
  from xs show ?thesis
  proof (elim disjE exE conjE)
    assume x: "xs = []"
    from ys show ?thesis
    proof (elim disjE exE conjE)
      assume "ys = []"
      with x n assms show ?thesis by (auto simp: simps node_val_def)
    next
      fix c ys' k assume "ys = c # ys'" "ll_store ll c = Some k"
      with x n assms d show ?thesis by (auto simp: simps node_val_def)
    qed
  next
    fix xs' b m assume x: "xs = xs' @ [b]" "ll_store ll b = Some m"
    from ys show ?thesis
    proof (elim disjE exE conjE)
      assume "ys = []"
      with x n assms d show ?thesis by (auto simp: simps node_val_def)
    next
      fix c ys' k assume "ys = c # ys'" "ll_store ll c = Some k"
      with x n assms d show ?thesis by (auto simp: simps node_val_def)
    qed
  qed
qed

lemma expireLoop_rep:
  "ll_rep ll (xs @ ys) \<Longrightarrow>
     \<exists>ll'. LinkedList_expireLoop dated now expiry (first_or ys None) removed ll
         = Some (removed + int (length ys)
                   - int (length (filter (\<lambda>a. alive dated now expiry (node_val (ll_store ll) a)) ys)), ll')
       \<and> ll_rep ll' (xs @ filter (\<lambda>a. alive dated now expiry (node_val (ll_store ll) a)) ys)
       \<and> node_val (ll_store ll') = node_val (ll_store ll)"
proof (induction ys arbitrary: ll xs removed)
  case Nil
  then show ?case by (simp add: LinkedList_expireLoop.simps)
next
  case (Cons a ys)
  from Cons.prems obtain n where n: "ll_store ll a = Some n" "ll_next n = first_or ys None"
    by (auto simp: ll_rep_def split: option.splits)
  then have v: "ll_val n = node_val (ll_store ll) a" by (simp add: node_val_def)
  show ?case
  proof (cases "alive dated now expiry (node_val (ll_store ll) a)")
    case True
    have "ll_rep ll ((xs @ [a]) @ ys)" using Cons.prems by simp
    from Cons.IH [OF this, of removed] True n v show ?thesis
      by (subst LinkedList_expireLoop.simps) (auto simp: alive_def)
  next
    case False
    obtain ll1 where 1: "LinkedList_removeNode a ll = Some ll1" "ll_rep ll1 (xs @ ys)"
      "node_val (ll_store ll1) = node_val (ll_store ll)"
      using LinkedList_removeNode_rep [OF Cons.prems] by auto
    from Cons.IH [OF 1(2), of "removed + 1"] False n v 1 show ?thesis
      by (subst LinkedList_expireLoop.simps) (auto simp: alive_def)
  qed
qed

section \<open>Contract\<close>

interpretation linkedlist: fifo_container dated zero LinkedList_inv LinkedList_contents NewLinkedList
  "\<lambda>(_ :: unit). LinkedList_Add" "LinkedList_Pop zero" "LinkedList_RemoveExpired dated" LinkedList_Len
  for dated :: "'a \<Rightarrow> go_time" and zero :: 'a
proof (unfold_locales, goal_cases)
  case (3 c r w)
  then have "ll_rep c (ll_addrs c)" by (simp add: LinkedList_inv_def)
  from LinkedList_Add_rep [OF this, of w] show ?case
    by (auto simp: LinkedList_contents_def ll_rep_addrs ll_rep_inv)
next
  case (4 c)
  then show ?case by (auto simp: LinkedList_Pop_def LinkedList_inv_def LinkedList_contents_def ll_rep_def)
next
  case (5 c w ws)
  then obtain a as where a: "ll_addrs c = a # as" "w = node_val (ll_store c) a" "ws = map (node_val (ll_store c)) as"
    by (auto simp: LinkedList_contents_def)
  from 5(1) a have "ll_rep c (a # as)" by (simp add: LinkedList_inv_def)
  from LinkedList_Pop_rep [OF this, of zero] a show ?case
    by (auto simp: LinkedList_contents_def ll_rep_addrs ll_rep_inv)
next
  case (6 c expiry now)
  then have r: "ll_rep c ([] @ ll_addrs c)" by (simp add: LinkedList_inv_def)
  then have "ll_head c = first_or (ll_addrs c) None" by (simp add: ll_rep_def)
  with expireLoop_rep [OF r, of dated now expiry 0] show ?case
    by (auto simp: LinkedList_RemoveExpired_def LinkedList_contents_def ll_rep_addrs ll_rep_inv
        filter_map comp_def)
qed (auto simp: LinkedList_inv_def ll_rep_def NewLinkedList_def LinkedList_contents_def ll_addrs_def LinkedList_Len_def)

section \<open>The property\<close>

text \<open>
  C11.  LinkedList: whatever sequence of \<open>Add\<close>, \<open>Pop\<close> and \<open>RemoveExpired\<close> is called on a new container,
  no nil pointer is followed, every loop ends, every call returns, and returns what a plain FIFO
  list would return.
\<close>

theorem LinkedList_refines_queue:
  assumes "list_all op_ok ops"
  shows "map_option fst (idle_run (\<lambda>(_ :: unit). LinkedList_Add) (LinkedList_Pop zero)
           (LinkedList_RemoveExpired dated) ops NewLinkedList)
         = Some (fst (fifo_run dated zero ops []))"
  by (rule linkedlist.fifo_run_New [OF assms])

theorem LinkedList_refines_queue_witness:
  "list_all op_ok (sample_calls ())
   \<and> map_option fst (idle_run (\<lambda>(_ :: unit). LinkedList_Add) (LinkedList_Pop 0)
           (LinkedList_RemoveExpired id)
           (sample_calls ()) NewLinkedList)
       = Some [RAdd, RAdd, RExpire 1, RPop 9, RPop 0]"
  using LinkedList_refines_queue [OF sample_calls_ok, of 0 id]
  by (simp add: sample_calls_fifo)

end
