(* ===== verification/Idle_MinHeap.thy ===== *)
theory Idle_MinHeap
  imports Idle_Spec
begin

text \<open>
  \<open>internal/idle/heap.go\<close>: the binary min-heap ordered by \<open>DatedTime\<close>, on top of the functions of
  Go's \<open>container/heap\<close> that it calls (\<open>Init\<close>, \<open>Push\<close>, \<open>Pop\<close>, \<open>up\<close>, \<open>down\<close>), which are
  written out here over the slice.  Every index they compute is below the bound they test, so no
  access is out of range.
\<close>

section \<open>Model of \<open>heap.Interface\<close> on the slice\<close>

definition minHeapInner_Less :: "('a \<Rightarrow> go_time) \<Rightarrow> 'a list \<Rightarrow> nat \<Rightarrow> nat \<Rightarrow> bool" where
  "minHeapInner_Less dated h i j \<longleftrightarrow> time_before (dated (h ! i)) (dated (h ! j))"

definition minHeapInner_Swap :: "'a list \<Rightarrow> nat \<Rightarrow> nat \<Rightarrow> 'a list" where
  "minHeapInner_Swap h i j = h[i := h ! j, j := h ! i]"

definition minHeapInner_Push :: "'a list \<Rightarrow> 'a \<Rightarrow> 'a list" where
  "minHeapInner_Push h x = h @ [x]"

definition minHeapInner_Pop :: "'a list \<Rightarrow> 'a \<times> 'a list" where
  "minHeapInner_Pop h = (h ! (length h - 1), take (length h - 1) h)"

section \<open>The functions of \<open>container/heap\<close>\<close>

definition parent :: "nat \<Rightarrow> nat" where
  "parent j = (j - 1) div 2"

lemma parent_less: "0 < j \<Longrightarrow> parent j < j"
  by (auto simp: parent_def)

lemma parent_0 [simp]: "parent 0 = 0"
  by (simp add: parent_def)

lemma parent_le: "parent j \<le> j"
  by (simp add: parent_def)

lemma parent_iff: "0 < k \<Longrightarrow> parent k = i \<longleftrightarrow> k = 2 * i + 1 \<or> k = 2 * i + 2"
  by (auto simp: parent_def)

function heap_up :: "('a \<Rightarrow> go_time) \<Rightarrow> 'a list \<Rightarrow> nat \<Rightarrow> 'a list" where
  "heap_up dated h j =
     (let i = parent j in
      if i = j \<or> \<not> minHeapInner_Less dated h j i then h
      else heap_up dated (minHeapInner_Swap h i j) i)"
  by pat_completeness auto
termination
  by (relation "measure (\<lambda>(dated, h, j). j)") (auto simp: parent_def)

function heap_down :: "('a \<Rightarrow> go_time) \<Rightarrow> 'a list \<Rightarrow> nat \<Rightarrow> nat \<Rightarrow> 'a list" where
  "heap_down dated h i n =
     (let j1 = 2 * i + 1 in
      if j1 \<ge> n then h
      else
        let j2 = j1 + 1;
            j = (if j2 < n \<and> minHeapInner_Less dated h j2 j1 then j2 else j1)
        in if \<not> minHeapInner_Less dated h j i then h
           else heap_down dated (minHeapInner_Swap h i j) j n)"
  by pat_completeness auto
termination
  by (relation "measure (\<lambda>(dated, h, i, n). n - i)") (auto simp: Let_def)

declare heap_up.simps [simp del] heap_down.simps [simp del]

definition heap_Init :: "('a \<Rightarrow> go_time) \<Rightarrow> 'a list \<Rightarrow> 'a list" where
  "heap_Init dated h = fold (\<lambda>i h'. heap_down dated h' i (length h)) (rev [0..<length h div 2]) h"

definition heap_Push :: "('a \<Rightarrow> go_time) \<Rightarrow> 'a list \<Rightarrow> 'a \<Rightarrow> 'a list" where
  "heap_Push dated h x = (let h' = minHeapInner_Push h x in heap_up dated h' (length h' - 1))"

definition heap_Pop :: "('a \<Rightarrow> go_time) \<Rightarrow> 'a list \<Rightarrow> 'a \<times> 'a list" where
  "heap_Pop dated h =
     (let n = length h - 1 in minHeapInner_Pop (heap_down dated (minHeapInner_Swap h 0 n) 0 n))"

section \<open>\<open>MinHeap\<close>\<close>

record 'a MinHeap =
  inner :: "'a list"
  mh_size :: int

definition NewMinHeap :: "('a \<Rightarrow> go_time) \<Rightarrow> 'a MinHeap" where
  "NewMinHeap dated = \<lparr>inner = heap_Init dated [], mh_size = 0\<rparr>"

definition MinHeap_Add :: "('a \<Rightarrow> go_time) \<Rightarrow> 'a \<Rightarrow> 'a MinHeap \<Rightarrow> 'a MinHeap" where
  "MinHeap_Add dated w h = h\<lparr>inner := heap_Push dated (inner h) w, mh_size := mh_size h + 1\<rparr>"

definition MinHeap_Pop :: "('a \<Rightarrow> go_time) \<Rightarrow> 'a \<Rightarrow> 'a MinHeap \<Rightarrow> 'a \<times> 'a MinHeap" where
  "MinHeap_Pop dated zero h =
     (if length (inner h) = 0 then (zero, h)
      else let (w, xs) = heap_Pop dated (inner h)
           in (w, h\<lparr>inner := xs, mh_size := mh_size h - 1\<rparr>))"

lemma heap_down_length [simp]: "length (heap_down dated h i n) = length h"
  by (induction dated h i n rule: heap_down.induct)
    (subst heap_down.simps, simp add: Let_def minHeapInner_Swap_def)

lemma heap_up_length [simp]: "length (heap_up dated h j) = length h"
  by (induction dated h j rule: heap_up.induct)
    (subst heap_up.simps, simp add: Let_def minHeapInner_Swap_def)

lemma minHeapInner_Swap_length [simp]: "length (minHeapInner_Swap h i j) = length h"
  by (simp add: minHeapInner_Swap_def)

lemma heap_Pop_length: "length (snd (heap_Pop dated h)) = length h - 1"
  by (simp add: heap_Pop_def minHeapInner_Pop_def Let_def)

function MinHeap_RemoveExpired ::
  "('a \<Rightarrow> go_time) \<Rightarrow> 'a \<Rightarrow> go_time \<Rightarrow> duration \<Rightarrow> 'a MinHeap \<Rightarrow> int \<Rightarrow> int \<times> 'a MinHeap" where
  "MinHeap_RemoveExpired dated zero now expiry h removed =
     (if length (inner h) > 0 then
        (if time_after (time_add (dated (inner h ! 0)) expiry) now then (removed, h)
         else MinHeap_RemoveExpired dated zero now expiry (snd (MinHeap_Pop dated zero h)) (removed + 1))
      else (removed, h))"
  by pat_completeness auto
termination
  by (relation "measure (\<lambda>(dated, zero, now, expiry, h, removed). length (inner h))")
    (auto simp: MinHeap_Pop_def case_prod_beta heap_Pop_length)

declare MinHeap_RemoveExpired.simps [simp del]

definition MinHeap_Len :: "'a MinHeap \<Rightarrow> int" where
  "MinHeap_Len h = mh_size h"

section \<open>The heap order\<close>

definition heap_upto :: "('a \<Rightarrow> go_time) \<Rightarrow> 'a list \<Rightarrow> nat \<Rightarrow> bool" where
  "heap_upto dated h n \<longleftrightarrow> (\<forall>k < n. 0 < k \<longrightarrow> dated (h ! parent k) \<le> dated (h ! k))"

definition MinHeap_inv :: "('a \<Rightarrow> go_time) \<Rightarrow> 'a MinHeap \<Rightarrow> bool" where
  "MinHeap_inv dated h \<longleftrightarrow>
     heap_upto dated (inner h) (length (inner h)) \<and> mh_size h = int (length (inner h))"

lemma heap_upto_root:
  assumes "heap_upto dated h n"
  shows "k < n \<Longrightarrow> dated (h ! 0) \<le> dated (h ! k)"
proof (induction k rule: less_induct)
  case (less k)
  show ?case
  proof (cases "k = 0")
    case False
    then have p: "parent k < k" by (simp add: parent_less)
    with less have "dated (h ! 0) \<le> dated (h ! parent k)" by simp
    also have "\<dots> \<le> dated (h ! k)"
      using assms less.prems False by (simp add: heap_upto_def)
    finally show ?thesis .
  qed simp
qed

lemma mset_Swap [simp]:
  "i < length h \<Longrightarrow> j < length h \<Longrightarrow> mset (minHeapInner_Swap h i j) = mset h"
  by (simp add: minHeapInner_Swap_def mset_swap)

lemma nth_Swap:
  "i < length h \<Longrightarrow> j < length h \<Longrightarrow>
     minHeapInner_Swap h i j ! k = (if k = j then h ! i else if k = i then h ! j else h ! k)"
  by (auto simp: minHeapInner_Swap_def nth_list_update)

subsection \<open>\<open>up\<close>\<close>

text \<open>Everything is in order but possibly the edge from \<open>j\<close> to its parent.\<close>

definition up_pre :: "('a \<Rightarrow> go_time) \<Rightarrow> 'a list \<Rightarrow> nat \<Rightarrow> bool" where
  "up_pre dated h j \<longleftrightarrow> j < length h
     \<and> (\<forall>k < length h. 0 < k \<longrightarrow> k \<noteq> j \<longrightarrow> dated (h ! parent k) \<le> dated (h ! k))
     \<and> (\<forall>k < length h. 0 < k \<longrightarrow> parent k = j \<longrightarrow> dated (h ! parent j) \<le> dated (h ! k))"

lemma up_pre_step:
  assumes "up_pre dated h j" "parent j \<noteq> j" "minHeapInner_Less dated h j (parent j)"
  shows "up_pre dated (minHeapInner_Swap h (parent j) j) (parent j)"
proof -
  let ?i = "parent j" and ?h = "minHeapInner_Swap h (parent j) j"
  have j: "j < length h" "0 < j" "?i < length h" "?i < j"
  proof -
    show "j < length h" using assms(1) by (simp add: up_pre_def)
    show "0 < j" using assms(2) by (cases j) simp_all
    then show "?i < j" by (rule parent_less)
    then show "?i < length h" using \<open>j < length h\<close> by simp
  qed
  have less: "dated (h ! j) < dated (h ! ?i)"
    using assms(3) by (simp add: minHeapInner_Less_def time_before_def)
  have ord: "dated (h ! parent k) \<le> dated (h ! k)" if "k < length h" "0 < k" "k \<noteq> j" for k
    using assms(1) that by (simp add: up_pre_def)
  have sub: "dated (h ! ?i) \<le> dated (h ! k)" if "k < length h" "0 < k" "parent k = j" for k
    using assms(1) that by (simp add: up_pre_def)
  have "dated (?h ! parent k) \<le> dated (?h ! k)" if k: "k < length h" "0 < k" "k \<noteq> ?i" for k
    using ord [OF k(1,2)] sub [OF k(1,2)] less j k parent_less [OF k(2)]
    by (auto simp: nth_Swap)
  moreover have "dated (?h ! parent ?i) \<le> dated (?h ! k)"
    if k: "k < length h" "0 < k" "parent k = ?i" for k
  proof (cases "?i = 0")
    case True
    with k j less ord [OF k(1,2)] show ?thesis by (auto simp: nth_Swap)
  next
    case False
    then have "parent ?i < ?i" by (simp add: parent_less)
    with k j less ord [OF k(1,2)] ord [of ?i] False show ?thesis
      by (auto simp: nth_Swap)
  qed
  ultimately show ?thesis using j by (simp add: up_pre_def)
qed

lemma heap_up_correct:
  "up_pre dated h j \<Longrightarrow>
     heap_upto dated (heap_up dated h j) (length h) \<and> mset (heap_up dated h j) = mset h"
proof (induction dated h j rule: heap_up.induct)
  case (1 dated h j)
  show ?case
  proof (cases "parent j = j \<or> \<not> minHeapInner_Less dated h j (parent j)")
    case True
    have "heap_upto dated h (length h)"
      unfolding heap_upto_def
    proof (intro allI impI)
      fix k assume k: "k < length h" "0 < k"
      show "dated (h ! parent k) \<le> dated (h ! k)"
      proof (cases "k = j")
        case kj: True
        with k True parent_less [of j] have "\<not> minHeapInner_Less dated h j (parent j)" by auto
        then show ?thesis by (simp add: kj minHeapInner_Less_def time_before_def)
      next
        case False
        with k "1.prems" show ?thesis by (simp add: up_pre_def)
      qed
    qed
    with True show ?thesis by (subst (1 2) heap_up.simps) (simp add: Let_def)
  next
    case False
    then have "parent j < length h" "j < length h"
      using "1.prems" parent_le [of j] by (auto simp: up_pre_def)
    with "1.IH" [OF refl False up_pre_step] False "1.prems" show ?thesis
      by (subst (1 2) heap_up.simps) (simp add: Let_def)
  qed
qed

subsection \<open>\<open>down\<close>\<close>

text \<open>Within the first \<open>n\<close> slots everything is in order but the edges from \<open>i\<close> to its children.\<close>

definition down_pre :: "('a \<Rightarrow> go_time) \<Rightarrow> 'a list \<Rightarrow> nat \<Rightarrow> nat \<Rightarrow> bool" where
  "down_pre dated h i n \<longleftrightarrow> n \<le> length h
     \<and> (\<forall>k < n. 0 < k \<longrightarrow> parent k \<noteq> i \<longrightarrow> dated (h ! parent k) \<le> dated (h ! k))
     \<and> (\<forall>k < n. 0 < k \<longrightarrow> parent k = i \<longrightarrow> 0 < i \<longrightarrow> dated (h ! parent i) \<le> dated (h ! k))"

lemma down_pre_step:
  assumes pre: "down_pre dated h i n" and j: "j < n" "0 < j" "parent j = i"
    and least: "\<And>k. k < n \<Longrightarrow> 0 < k \<Longrightarrow> parent k = i \<Longrightarrow> dated (h ! j) \<le> dated (h ! k)"
    and less: "dated (h ! j) < dated (h ! i)"
  shows "down_pre dated (minHeapInner_Swap h i j) j n"
proof -
  let ?h = "minHeapInner_Swap h i j"
  have b: "n \<le> length h" "i < j" "i < length h" "j < length h"
    using pre j parent_less [OF j(2)] by (auto simp: down_pre_def)
  have ord: "dated (h ! parent k) \<le> dated (h ! k)" if "k < n" "0 < k" "parent k \<noteq> i" for k
    using pre that by (simp add: down_pre_def)
  have sub: "dated (h ! parent i) \<le> dated (h ! k)" if "k < n" "0 < k" "parent k = i" "0 < i" for k
    using pre that by (simp add: down_pre_def)
  have "dated (?h ! parent k) \<le> dated (?h ! k)" if k: "k < n" "0 < k" "parent k \<noteq> j" for k
  proof (cases "parent k = i")
    case True
    with least [OF k(1,2)] less b k j parent_less [OF k(2)] show ?thesis by (auto simp: nth_Swap)
  next
    case False
    show ?thesis
    proof (cases "k = i")
      case True
      with sub [OF j(1,2,3)] b k False show ?thesis by (auto simp: nth_Swap)
    next
      case ki: False
      with False ord [OF k(1,2)] b k j show ?thesis by (auto simp: nth_Swap)
    qed
  qed
  moreover have "dated (?h ! parent j) \<le> dated (?h ! k)" if k: "k < n" "0 < k" "parent k = j" for k
    using ord [OF k(1,2)] k b j parent_less [OF k(2)] by (auto simp: nth_Swap)
  ultimately show ?thesis using b by (simp add: down_pre_def)
qed

text \<open>The child \<open>down\<close> selects is the one with the smaller time.\<close>

lemma down_child:
  assumes "2 * i + 1 < n"
    and "j = (if 2 * i + 1 + 1 < n \<and> minHeapInner_Less dated h (2 * i + 1 + 1) (2 * i + 1)
              then 2 * i + 1 + 1 else 2 * i + 1)"
  shows "j < n" "0 < j" "parent j = i"
    and "\<And>k. k < n \<Longrightarrow> 0 < k \<Longrightarrow> parent k = i \<Longrightarrow> dated (h ! j) \<le> dated (h ! k)"
  using assms by (auto simp: parent_iff minHeapInner_Less_def time_before_def)

lemma heap_down_step:
  assumes "\<not> 2 * i + 1 \<ge> n"
    and "j = (if 2 * i + 1 + 1 < n \<and> minHeapInner_Less dated h (2 * i + 1 + 1) (2 * i + 1)
              then 2 * i + 1 + 1 else 2 * i + 1)"
  shows "heap_down dated h i n
    = (if \<not> minHeapInner_Less dated h j i then h else heap_down dated (minHeapInner_Swap h i j) j n)"
  by (subst heap_down.simps) (simp only: Let_def assms(1) if_False assms(2) [symmetric])

lemma heap_down_correct:
  "down_pre dated h i n \<Longrightarrow>
     heap_upto dated (heap_down dated h i n) n \<and> mset (heap_down dated h i n) = mset h
     \<and> (\<forall>k \<ge> n. heap_down dated h i n ! k = h ! k)"
proof (induction dated h i n rule: heap_down.induct)
  case (1 dated h i n)
  let ?j1 = "2 * i + 1"
  define j where "j = (if ?j1 + 1 < n \<and> minHeapInner_Less dated h (?j1 + 1) ?j1 then ?j1 + 1 else ?j1)"
  have all: "heap_upto dated h n"
    if "\<And>k. k < n \<Longrightarrow> 0 < k \<Longrightarrow> parent k = i \<Longrightarrow> dated (h ! i) \<le> dated (h ! k)"
    using that "1.prems" by (auto simp: heap_upto_def down_pre_def)
  show ?case
  proof (cases "?j1 \<ge> n")
    case True
    then have "heap_upto dated h n" by (intro all) (auto simp: parent_iff)
    with True show ?thesis by (subst (1 2 3) heap_down.simps) simp
  next
    case False
    note c = down_child [of i n j dated h, OF _ j_def]
    show ?thesis
    proof (cases "minHeapInner_Less dated h j i")
      case True
      have "heap_down dated h i n = heap_down dated (minHeapInner_Swap h i j) j n"
        using heap_down_step [OF False j_def] True by simp
      moreover have "down_pre dated (minHeapInner_Swap h i j) j n"
        using c False True "1.prems"
        by (intro down_pre_step) (auto simp: minHeapInner_Less_def time_before_def)
      moreover have "i < n" "j < n" "n \<le> length h"
        using c False "1.prems" by (auto simp: down_pre_def)
      ultimately show ?thesis
        using "1.IH" [OF refl False refl j_def] True by (auto simp: nth_Swap)
    next
      case no: False
      have "heap_upto dated h n"
        using c(4) False no
        by (intro all) (force simp: minHeapInner_Less_def time_before_def)
      with no show ?thesis
        unfolding heap_down_step [OF False j_def] by simp
    qed
  qed
qed

section \<open>Contract\<close>

lemma heap_Push_correct:
  assumes "heap_upto dated h (length h)"
  shows "heap_upto dated (heap_Push dated h x) (Suc (length h))"
    and "mset (heap_Push dated h x) = add_mset x (mset h)"
    and "length (heap_Push dated h x) = Suc (length h)"
proof -
  have "dated ((h @ [x]) ! parent k) \<le> dated ((h @ [x]) ! k)" if "k < length h" "0 < k" for k
    using assms that parent_less [of k] by (auto simp: heap_upto_def nth_append)
  moreover have "parent k \<noteq> length h" if "k < Suc (length h)" "0 < k" for k
    using parent_less [OF that(2)] that(1) by simp
  ultimately have "up_pre dated (h @ [x]) (length h)"
    by (simp add: up_pre_def)
  from heap_up_correct [OF this] show
    "heap_upto dated (heap_Push dated h x) (Suc (length h))"
    "mset (heap_Push dated h x) = add_mset x (mset h)"
    "length (heap_Push dated h x) = Suc (length h)"
    by (simp_all add: heap_Push_def minHeapInner_Push_def)
qed

lemma heap_Pop_correct:
  assumes "heap_upto dated h (length h)" "h \<noteq> []"
  obtains xs where "heap_Pop dated h = (h ! 0, xs)" "heap_upto dated xs (length xs)"
    "mset h = add_mset (h ! 0) (mset xs)"
proof -
  define n where "n = length h - 1"
  have n: "n < length h" "length h = Suc n" using assms(2) by (simp_all add: n_def)
  let ?s = "minHeapInner_Swap h 0 n" and ?d = "heap_down dated (minHeapInner_Swap h 0 n) 0 n"
  have "down_pre dated ?s 0 n"
    unfolding down_pre_def
  proof (intro conjI allI impI)
    fix k assume k: "k < n" "0 < k" "parent k \<noteq> 0"
    with parent_less [of k] assms(1) n show "dated (?s ! parent k) \<le> dated (?s ! k)"
      by (auto simp: nth_Swap heap_upto_def)
  qed (use n in auto)
  from heap_down_correct [OF this] n
  have d: "heap_upto dated ?d n" "mset ?d = mset h" "?d ! n = h ! 0"
    by (auto simp: nth_Swap)
  have "mset h = add_mset (h ! 0) (mset (take n ?d))"
  proof -
    have "?d = take n ?d @ [?d ! n]"
      using n take_Suc_conv_app_nth [of n ?d] by simp
    then have "mset ?d = add_mset (?d ! n) (mset (take n ?d))"
      by (metis mset_append mset_single_iff_right mset.simps add_mset_add_single)
    with d show ?thesis by simp
  qed
  moreover have "heap_upto dated (take n ?d) (length (take n ?d))"
    using d(1) n parent_less by (auto simp: heap_upto_def) (metis less_trans nth_take)
  moreover have "heap_Pop dated h = (h ! 0, take n ?d)"
    using d(3) n by (simp add: heap_Pop_def minHeapInner_Pop_def Let_def)
  ultimately show ?thesis using that by blast
qed

lemma MinHeap_Pop_correct:
  assumes "MinHeap_inv dated h" "inner h \<noteq> []"
  obtains h' where "MinHeap_Pop dated zero h = (inner h ! 0, h')" "MinHeap_inv dated h'"
    "mset (inner h) = add_mset (inner h ! 0) (mset (inner h'))"
proof -
  from assms heap_Pop_correct [of dated "inner h"] obtain xs where
    xs: "heap_Pop dated (inner h) = (inner h ! 0, xs)" "heap_upto dated xs (length xs)"
        "mset (inner h) = add_mset (inner h ! 0) (mset xs)"
    by (auto simp: MinHeap_inv_def)
  from xs(3) have "length (inner h) = Suc (length xs)" by (metis size_add_mset size_mset)
  with assms xs show ?thesis
    by (intro that [of "h\<lparr>inner := xs, mh_size := mh_size h - 1\<rparr>"])
      (auto simp: MinHeap_Pop_def MinHeap_inv_def)
qed

lemma MinHeap_inv_root:
  assumes "MinHeap_inv dated h" "v \<in># mset (inner h)"
  shows "dated (inner h ! 0) \<le> dated v"
proof -
  from assms(2) obtain k where "k < length (inner h)" "inner h ! k = v"
    by (auto simp: in_set_conv_nth)
  with heap_upto_root [of dated "inner h" "length (inner h)" k] assms(1) show ?thesis
    by (simp add: MinHeap_inv_def)
qed

text \<open>Stopping at the first live root is enough: nothing below it can be expired.\<close>

lemma MinHeap_RemoveExpired_correct:
  "MinHeap_inv dated h \<Longrightarrow>
     \<exists>h'. MinHeap_RemoveExpired dated zero now expiry h removed
            = (removed + int (length (inner h)) - int (length (inner h')), h')
       \<and> MinHeap_inv dated h'
       \<and> mset (inner h') = filter_mset (alive dated now expiry) (mset (inner h))"
proof (induction dated zero now expiry h removed rule: MinHeap_RemoveExpired.induct)
  case (1 dated zero now expiry h removed)
  let ?P = "alive dated now expiry"
  show ?case
  proof (cases "inner h = []")
    case True
    with "1.prems" show ?thesis by (subst MinHeap_RemoveExpired.simps) simp
  next
    case ne: False
    show ?thesis
    proof (cases "?P (inner h ! 0)")
      case True
      have "?P v" if "v \<in># mset (inner h)" for v
        using MinHeap_inv_root [OF "1.prems" that] True
        by (auto simp: alive_def time_after_def time_add_def)
      then have "filter_mset ?P (mset (inner h)) = mset (inner h)"
        by (auto simp: filter_mset_eq_conv)
      with True ne "1.prems" show ?thesis
        by (subst MinHeap_RemoveExpired.simps) (simp add: alive_def)
    next
      case False
      obtain h1 where h1: "MinHeap_Pop dated zero h = (inner h ! 0, h1)" "MinHeap_inv dated h1"
        "mset (inner h) = add_mset (inner h ! 0) (mset (inner h1))"
        using MinHeap_Pop_correct [OF "1.prems" ne] by metis
      from h1(3) have "length (inner h) = Suc (length (inner h1))" by (metis size_add_mset size_mset)
      with "1.IH" h1 False ne show ?thesis
        by (subst MinHeap_RemoveExpired.simps) (auto simp: alive_def [abs_def])
    qed
  qed
qed

interpretation minheap: lru_container dated zero "MinHeap_inv dated" "\<lambda>h. mset (inner h)" "NewMinHeap dated"
  "\<lambda>(_ :: unit) w h. Some (MinHeap_Add dated w h)" "\<lambda>h. Some (MinHeap_Pop dated zero h)"
  "\<lambda>now expiry h. Some (MinHeap_RemoveExpired dated zero now expiry h 0)" MinHeap_Len
  for dated :: "'a \<Rightarrow> go_time" and zero :: 'a
proof (unfold_locales, goal_cases)
  case (3 c r w)
  then show ?case
    using heap_Push_correct [of dated "inner c" w] by (auto simp: MinHeap_inv_def MinHeap_Add_def)
next
  case (5 c)
  then show ?case using MinHeap_Pop_correct [of dated c zero] by (metis mset_zero_iff)
next
  case (6 c expiry now)
  then show ?case using MinHeap_RemoveExpired_correct [of dated c zero now expiry 0] by auto
next
  case (8 c w c' v)
  then have "inner c \<noteq> []" by auto
  with 8 MinHeap_Pop_correct [of dated c zero] have "w = inner c ! 0" by (metis fst_conv option.inject)
  with MinHeap_inv_root [OF 8(1,3)] show ?case by simp
qed (auto simp: NewMinHeap_def MinHeap_inv_def heap_Init_def heap_upto_def MinHeap_Pop_def MinHeap_Len_def)

section \<open>The property\<close>

text \<open>
  C13.  MinHeap: whatever sequence of \<open>Add\<close>, \<open>Pop\<close> and \<open>RemoveExpired\<close> is called on a new container,
  every call returns, \<open>Pop\<close> returns an element with the smallest last-active time of those present
  (the zero value if there is none) and removes just it, and \<open>RemoveExpired\<close> removes and counts
  exactly the elements that are not alive.
\<close>

theorem MinHeap_lru:
  assumes "list_all op_ok ops"
  shows "\<exists>rs h. idle_run (\<lambda>(_ :: unit) w h. Some (MinHeap_Add dated w h)) (\<lambda>h. Some (MinHeap_Pop dated zero h))
             (\<lambda>now expiry h. Some (MinHeap_RemoveExpired dated zero now expiry h 0)) ops (NewMinHeap dated) = Some (rs, h)
           \<and> MinHeap_inv dated h \<and> lru_trace dated zero ops rs {#} (mset (inner h))"
  by (rule minheap.lru_run_New [OF assms])

theorem MinHeap_lru_witness:
  "list_all op_ok [OpAdd () (9 :: int), OpAdd () 3, OpPop]
   \<and> (\<exists>rs h. idle_run (\<lambda>(_ :: unit) w h. Some (MinHeap_Add id w h)) (\<lambda>h. Some (MinHeap_Pop id 0 h))
             (\<lambda>now expiry h. Some (MinHeap_RemoveExpired id 0 now expiry h 0))
             [OpAdd () (9 :: int), OpAdd () 3, OpPop] (NewMinHeap id) = Some (rs, h)
           \<and> MinHeap_inv id h \<and> lru_trace id 0 [OpAdd () (9 :: int), OpAdd () 3, OpPop] rs {#} (mset (inner h)))"
  using MinHeap_lru [of "[OpAdd () (9 :: int), OpAdd () 3, OpPop]" id 0] by simp

end
