(* ===== verification/Idle_Treap.thy ===== *)
theory Idle_Treap
  imports Idle_Spec
begin

text \<open>
  \<open>internal/idle/treap.go\<close>: the randomised treap ordered by \<open>DatedTime\<close>.  Every node has one owner
  (a parent, the root or the recycling pool), so nodes are a datatype.  The recycling \<open>sync.Pool\<close>
  is kept as the list of nodes put back: \<open>Add\<close> reuses the fields of the node it gets, so its
  correctness depends on recycled nodes being clean.  Which recycled node \<open>Get\<close> returns (or that it
  allocates) and the random priority are inputs of \<open>Add\<close>.
\<close>

section \<open>Model\<close>

datatype 'a treapNode =
    TNil
  | TNode (left: "'a treapNode") (tvalue: 'a) (priority: int) (right: "'a treapNode")

record 'a Treap =
  root :: "'a treapNode"
  tr_size :: int
  tr_pool :: "'a treapNode list"

definition NewTreap :: "'a Treap" where
  "NewTreap = \<lparr>root = TNil, tr_size = 0, tr_pool = []\<rparr>"

fun Treap_split :: "('a \<Rightarrow> go_time) \<Rightarrow> 'a treapNode \<Rightarrow> go_time \<Rightarrow> 'a treapNode \<times> 'a treapNode" where
  "Treap_split dated TNil k = (TNil, TNil)"
| "Treap_split dated (TNode l v p r) k =
     (if time_after (dated v) k
      then let (a, b) = Treap_split dated l k in (a, TNode b v p r)
      else let (a, b) = Treap_split dated r k in (TNode l v p a, b))"

fun Treap_merge :: "'a treapNode \<Rightarrow> 'a treapNode \<Rightarrow> 'a treapNode" where
  "Treap_merge TNil r = r"
| "Treap_merge l TNil = l"
| "Treap_merge (TNode l1 v1 p1 r1) (TNode l2 v2 p2 r2) =
     (if p1 < p2 then TNode l1 v1 p1 (Treap_merge r1 (TNode l2 v2 p2 r2))
      else TNode (Treap_merge (TNode l1 v1 p1 r1) l2) v2 p2 r2)"

text \<open>\<open>removeTree\<close> clears every node of the subtree, puts it in the pool and counts it off.\<close>

fun Treap_removeTree :: "'a \<Rightarrow> 'a treapNode \<Rightarrow> 'a treapNode list \<times> int \<Rightarrow> 'a treapNode list \<times> int" where
  "Treap_removeTree zero TNil (ps, n) = (ps, n)"
| "Treap_removeTree zero (TNode l v p r) (ps, n) =
     (let (ps1, n1) = Treap_removeTree zero l (ps, n);
          (ps2, n2) = Treap_removeTree zero r (ps1, n1)
      in (TNode TNil zero p TNil # ps2, n2 - 1))"

text \<open>\<open>t.pool.Get()\<close>: a recycled node, or a new zero node when there is none to take.\<close>

definition Treap_Get :: "'a \<Rightarrow> nat option \<Rightarrow> 'a treapNode list \<Rightarrow> 'a treapNode \<times> 'a treapNode list" where
  "Treap_Get zero pick ps =
     (case pick of
        Some i \<Rightarrow> if i < length ps then (ps ! i, take i ps @ drop (Suc i) ps)
                 else (TNode TNil zero 0 TNil, ps)
      | None \<Rightarrow> (TNode TNil zero 0 TNil, ps))"

definition Treap_keyOf :: "('a \<Rightarrow> go_time) \<Rightarrow> 'a \<Rightarrow> go_time" where
  "Treap_keyOf dated v = dated v"

definition Treap_Add ::
  "('a \<Rightarrow> go_time) \<Rightarrow> 'a \<Rightarrow> nat option \<times> int \<Rightarrow> 'a \<Rightarrow> 'a Treap \<Rightarrow> 'a Treap option" where
  "Treap_Add dated zero draw work t =
     (let (pick, prio) = draw; (got, ps) = Treap_Get zero pick (tr_pool t) in
      case got of
        TNil \<Rightarrow> None
      | TNode nl _ _ nr \<Rightarrow>
          let node = TNode nl work prio nr;
              (l, r) = Treap_split dated (root t) (Treap_keyOf dated work)
          in Some (t\<lparr>root := Treap_merge l (Treap_merge node r), tr_size := tr_size t + 1,
                     tr_pool := ps\<rparr>))"

text \<open>The walk down the left spine, ending with \<open>preNode.left = node.right\<close>.\<close>

fun Treap_popLeftmost :: "'a treapNode \<Rightarrow> 'a \<Rightarrow> int \<Rightarrow> 'a treapNode \<Rightarrow> 'a \<times> int \<times> 'a treapNode" where
  "Treap_popLeftmost TNil v p r = (v, p, r)"
| "Treap_popLeftmost (TNode ll lv lp lr) v p r =
     (let (x, q, l') = Treap_popLeftmost ll lv lp lr in (x, q, TNode l' v p r))"

definition Treap_Pop :: "'a \<Rightarrow> 'a Treap \<Rightarrow> 'a \<times> 'a Treap" where
  "Treap_Pop zero t =
     (case root t of
        TNil \<Rightarrow> (zero, t)
      | TNode l v p r \<Rightarrow>
          let (x, q, t') = Treap_popLeftmost l v p r
          in (x, t\<lparr>root := t', tr_pool := TNode TNil zero q TNil # tr_pool t,
                   tr_size := tr_size t - 1\<rparr>))"

definition Treap_RemoveExpired ::
  "('a \<Rightarrow> go_time) \<Rightarrow> 'a \<Rightarrow> go_time \<Rightarrow> duration \<Rightarrow> 'a Treap \<Rightarrow> int \<times> 'a Treap" where
  "Treap_RemoveExpired dated zero now expiry t =
     (let oriCount = tr_size t;
          removeTime = time_add now (dur_neg expiry);
          (leftTree, rt) = Treap_split dated (root t) removeTime;
          (ps, n) = Treap_removeTree zero leftTree (tr_pool t, tr_size t)
      in (oriCount - n, t\<lparr>root := rt, tr_pool := ps, tr_size := n\<rparr>))"

definition Treap_Len :: "'a Treap \<Rightarrow> int" where
  "Treap_Len t = tr_size t"

section \<open>Order, priorities and clean nodes\<close>

fun tr_inorder :: "'a treapNode \<Rightarrow> 'a list" where
  "tr_inorder TNil = []"
| "tr_inorder (TNode l v p r) = tr_inorder l @ v # tr_inorder r"

fun tr_prios :: "'a treapNode \<Rightarrow> int set" where
  "tr_prios TNil = {}"
| "tr_prios (TNode l v p r) = {p} \<union> tr_prios l \<union> tr_prios r"

fun prio_heap :: "'a treapNode \<Rightarrow> bool" where
  "prio_heap TNil = True"
| "prio_heap (TNode l v p r) \<longleftrightarrow>
     prio_heap l \<and> prio_heap r \<and> (\<forall>q \<in> tr_prios l \<union> tr_prios r. p \<le> q)"

definition clean_node :: "'a \<Rightarrow> 'a treapNode \<Rightarrow> bool" where
  "clean_node zero u \<longleftrightarrow> (\<exists>p. u = TNode TNil zero p TNil)"

definition Treap_inv :: "('a \<Rightarrow> go_time) \<Rightarrow> 'a \<Rightarrow> 'a Treap \<Rightarrow> bool" where
  "Treap_inv dated zero t \<longleftrightarrow>
     sorted (map dated (tr_inorder (root t))) \<and> prio_heap (root t)
     \<and> tr_size t = int (length (tr_inorder (root t)))
     \<and> list_all (clean_node zero) (tr_pool t)"

subsection \<open>Split and merge\<close>

lemma split_inorder:
  "Treap_split dated t k = (a, b) \<Longrightarrow> tr_inorder a @ tr_inorder b = tr_inorder t"
  by (induction dated t k arbitrary: a b rule: Treap_split.induct) (fastforce split: if_splits prod.splits)+

lemma split_prios:
  "Treap_split dated t k = (a, b) \<Longrightarrow> tr_prios a \<union> tr_prios b = tr_prios t"
  by (induction dated t k arbitrary: a b rule: Treap_split.induct) (fastforce split: if_splits prod.splits)+

lemma split_heap:
  "Treap_split dated t k = (a, b) \<Longrightarrow> prio_heap t \<Longrightarrow> prio_heap a \<and> prio_heap b"
proof (induction dated t k arbitrary: a b rule: Treap_split.induct)
  case (2 dated l v p r k)
  show ?case
  proof (cases "time_after (dated v) k")
    case True
    obtain c d where s: "Treap_split dated l k = (c, d)" by fastforce
    with "2.IH"(1) [OF True s] split_prios [OF s, symmetric] True "2.prems" show ?thesis by auto
  next
    case False
    obtain c d where s: "Treap_split dated r k = (c, d)" by fastforce
    with "2.IH"(2) [OF False s] split_prios [OF s, symmetric] False "2.prems" show ?thesis by auto
  qed
qed simp

text \<open>On a sorted tree the split separates the times up to \<open>k\<close> from those after.\<close>

lemma split_filter:
  "Treap_split dated t k = (a, b) \<Longrightarrow> sorted (map dated (tr_inorder t)) \<Longrightarrow>
     tr_inorder a = filter (\<lambda>v. dated v \<le> k) (tr_inorder t)
     \<and> tr_inorder b = filter (\<lambda>v. k < dated v) (tr_inorder t)"
proof (induction dated t k arbitrary: a b rule: Treap_split.induct)
  case (2 dated l v p r k)
  have srt: "sorted (map dated (tr_inorder l))" "sorted (map dated (tr_inorder r))"
    "\<forall>x \<in> set (tr_inorder l). dated x \<le> dated v" "\<forall>x \<in> set (tr_inorder r). dated v \<le> dated x"
    using "2.prems"(2) by (auto simp: sorted_append)
  show ?case
  proof (cases "time_after (dated v) k")
    case True
    obtain c d where s: "Treap_split dated l k = (c, d)" by fastforce
    have "filter (\<lambda>v. dated v \<le> k) (tr_inorder r) = []" "filter (\<lambda>v. k < dated v) (tr_inorder r) = tr_inorder r"
      using srt(4) True by (auto simp: filter_empty_conv filter_id_conv time_after_def)
    with "2.IH"(1) [OF True s srt(1)] s True "2.prems"(1) show ?thesis
      by (auto simp: time_after_def)
  next
    case False
    obtain c d where s: "Treap_split dated r k = (c, d)" by fastforce
    have "filter (\<lambda>v. dated v \<le> k) (tr_inorder l) = tr_inorder l" "filter (\<lambda>v. k < dated v) (tr_inorder l) = []"
      using srt(3) False by (auto simp: filter_empty_conv filter_id_conv time_after_def)
    with "2.IH"(2) [OF False s srt(2)] s False "2.prems"(1) show ?thesis
      by (auto simp: time_after_def)
  qed
qed simp

lemma merge_inorder [simp]: "tr_inorder (Treap_merge a b) = tr_inorder a @ tr_inorder b"
  by (induction a b rule: Treap_merge.induct) simp_all

lemma merge_prios [simp]: "tr_prios (Treap_merge a b) = tr_prios a \<union> tr_prios b"
  by (induction a b rule: Treap_merge.induct) auto

lemma merge_heap: "prio_heap a \<Longrightarrow> prio_heap b \<Longrightarrow> prio_heap (Treap_merge a b)"
proof (induction a b rule: Treap_merge.induct)
  case (3 l1 v1 p1 r1 l2 v2 p2 r2)
  then show ?case by (cases "p1 < p2") (auto simp: ball_Un dest: order_trans [OF less_imp_le, of p1 p2] order_trans [OF leI, of p1 p2])
qed simp_all

subsection \<open>The remaining operations\<close>

lemma removeTree_spec:
  "list_all (clean_node zero) ps \<Longrightarrow> Treap_removeTree zero t (ps, n) = (ps', n') \<Longrightarrow>
     list_all (clean_node zero) ps' \<and> n' = n - int (length (tr_inorder t))"
proof (induction zero t "(ps, n)" arbitrary: ps n ps' n' rule: Treap_removeTree.induct)
  case (2 zero l v p r ps n)
  obtain ps1 n1 where 1: "Treap_removeTree zero l (ps, n) = (ps1, n1)" by fastforce
  obtain ps2 n2 where 2: "Treap_removeTree zero r (ps1, n1) = (ps2, n2)" by fastforce
  from "2.hyps"(1) [OF "2.prems"(1) 1] "2.hyps"(2) [OF 1 [symmetric] refl _ 2] 1 2 "2.prems"(2)
  show ?case by (auto simp: clean_node_def)
qed simp

lemma Treap_Get_spec:
  assumes "list_all (clean_node zero) ps"
  obtains p ps' where "Treap_Get zero pick ps = (TNode TNil zero p TNil, ps')"
    "list_all (clean_node zero) ps'"
proof (cases pick)
  case None
  with assms that show ?thesis by (simp add: Treap_Get_def)
next
  case (Some i)
  show ?thesis
  proof (cases "i < length ps")
    case True
    then obtain p where "ps ! i = TNode TNil zero p TNil"
      using assms by (auto simp: list_all_length clean_node_def)
    moreover have "list_all (clean_node zero) (take i ps @ drop (Suc i) ps)"
      using assms by (auto simp: list_all_iff dest: in_set_takeD in_set_dropD)
    ultimately show ?thesis using True Some that by (simp add: Treap_Get_def)
  next
    case False
    with Some assms that show ?thesis by (simp add: Treap_Get_def)
  qed
qed

lemma popLeftmost_spec:
  "Treap_popLeftmost l v p r = (x, q, t') \<Longrightarrow>
     tr_inorder (TNode l v p r) = x # tr_inorder t' \<and> tr_prios t' \<subseteq> tr_prios (TNode l v p r)
     \<and> (prio_heap (TNode l v p r) \<longrightarrow> prio_heap t')"
proof (induction l v p r arbitrary: x q t' rule: Treap_popLeftmost.induct)
  case (2 ll lv lp lr v p r)
  obtain y s l' where "Treap_popLeftmost ll lv lp lr = (y, s, l')" by (metis prod_cases3)
  with "2.IH" [OF this] "2.prems" show ?case by fastforce
qed auto

text \<open>\<open>Add\<close> keeps the order and places the element after those with the same time.\<close>

lemma Treap_Add_spec:
  assumes "Treap_inv dated zero t"
  obtains t' where "Treap_Add dated zero draw w t = Some t'" "Treap_inv dated zero t'"
    "tr_inorder (root t') = filter (\<lambda>v. dated v \<le> dated w) (tr_inorder (root t)) @ w #
       filter (\<lambda>v. dated w < dated v) (tr_inorder (root t))"
proof -
  obtain pick prio where draw: "draw = (pick, prio)" by fastforce
  have pool: "list_all (clean_node zero) (tr_pool t)" using assms by (simp add: Treap_inv_def)
  obtain p ps where g: "Treap_Get zero pick (tr_pool t) = (TNode TNil zero p TNil, ps)"
    "list_all (clean_node zero) ps" using Treap_Get_spec [OF pool] by metis
  obtain a b where s: "Treap_split dated (root t) (dated w) = (a, b)" by fastforce
  let ?xs = "tr_inorder (root t)"
  have srt: "sorted (map dated ?xs)" and hp: "prio_heap (root t)"
    using assms by (simp_all add: Treap_inv_def)
  note f = split_filter [OF s srt] and h = split_heap [OF s hp]
  let ?t = "t\<lparr>root := Treap_merge a (Treap_merge (TNode TNil w prio TNil) b),
              tr_size := tr_size t + 1, tr_pool := ps\<rparr>"
  have "length ?xs = length (tr_inorder a) + length (tr_inorder b)"
    using split_inorder [OF s] by (metis length_append)
  moreover have "sorted (map dated (filter (\<lambda>v. dated v \<le> dated w) ?xs @ w # filter (\<lambda>v. dated w < dated v) ?xs))"
    using srt by (auto simp: sorted_append intro: sorted_filter)
  moreover have "prio_heap (root ?t)"
    using h by (auto intro!: merge_heap)
  ultimately have "Treap_inv dated zero ?t"
    using assms f g(2) by (simp add: Treap_inv_def)
  moreover have "Treap_Add dated zero draw w t = Some ?t"
    using g s by (simp add: Treap_Add_def draw Treap_keyOf_def)
  ultimately show ?thesis using that f by simp
qed

lemma Treap_Pop_spec:
  assumes "Treap_inv dated zero t" "root t \<noteq> TNil"
  obtains x t' where "Treap_Pop zero t = (x, t')" "Treap_inv dated zero t'"
    "tr_inorder (root t) = x # tr_inorder (root t')"
proof -
  obtain l v p r where n: "root t = TNode l v p r" using assms(2) by (cases "root t") auto
  obtain x q u where pl: "Treap_popLeftmost l v p r = (x, q, u)" by (metis prod_cases3)
  let ?t = "t\<lparr>root := u, tr_pool := TNode TNil zero q TNil # tr_pool t, tr_size := tr_size t - 1\<rparr>"
  have i: "tr_inorder (root t) = x # tr_inorder u" using popLeftmost_spec [OF pl] n by simp
  have "prio_heap u" using popLeftmost_spec [OF pl] n assms(1) by (simp add: Treap_inv_def)
  with i assms(1) have "Treap_inv dated zero ?t" by (simp add: Treap_inv_def clean_node_def)
  moreover have "Treap_Pop zero t = (x, ?t)" using n pl by (simp add: Treap_Pop_def)
  ultimately show ?thesis using that i by simp
qed

lemma Treap_RemoveExpired_spec:
  assumes "Treap_inv dated zero t" "dur_ok expiry"
  obtains n t' where "Treap_RemoveExpired dated zero now expiry t = (n, t')" "Treap_inv dated zero t'"
    "tr_inorder (root t') = filter (alive dated now expiry) (tr_inorder (root t))"
    "n = int (length (tr_inorder (root t))) - int (length (tr_inorder (root t')))"
proof -
  let ?k = "time_add now (dur_neg expiry)"
  obtain a b where s: "Treap_split dated (root t) ?k = (a, b)" by fastforce
  obtain ps n where r: "Treap_removeTree zero a (tr_pool t, tr_size t) = (ps, n)" by fastforce
  have inv: "sorted (map dated (tr_inorder (root t)))" "prio_heap (root t)"
    "tr_size t = int (length (tr_inorder (root t)))" "list_all (clean_node zero) (tr_pool t)"
    using assms(1) by (simp_all add: Treap_inv_def)
  have "(\<lambda>v. ?k < dated v) = alive dated now expiry"
    using alive_cutoff [OF assms(2), of dated _ now] by (auto simp: time_after_def)
  with split_filter [OF s inv(1)] have b: "tr_inorder b = filter (alive dated now expiry) (tr_inorder (root t))"
    by simp
  have len: "length (tr_inorder (root t)) = length (tr_inorder a) + length (tr_inorder b)"
    using split_inorder [OF s] by (metis length_append)
  note rm = removeTree_spec [OF inv(4) r]
  let ?t = "t\<lparr>root := b, tr_pool := ps, tr_size := n\<rparr>"
  have "Treap_inv dated zero ?t"
    using inv rm len split_heap [OF s inv(2)] b
    by (simp add: Treap_inv_def sorted_filter)
  moreover have "Treap_RemoveExpired dated zero now expiry t = (tr_size t - n, ?t)"
    using s r by (simp add: Treap_RemoveExpired_def Let_def)
  ultimately show ?thesis using that [of _ ?t] rm len inv(3) b by simp
qed

lemma tr_inorder_Nil_iff [simp]: "tr_inorder t = [] \<longleftrightarrow> t = TNil"
  by (cases t) simp_all

interpretation treap: lru_container dated zero "Treap_inv dated zero" "\<lambda>t. mset (tr_inorder (root t))" NewTreap
  "Treap_Add dated zero" "\<lambda>t. Some (Treap_Pop zero t)"
  "\<lambda>now expiry t. Some (Treap_RemoveExpired dated zero now expiry t)" Treap_Len
  for dated :: "'a \<Rightarrow> go_time" and zero :: 'a
proof (unfold_locales, goal_cases)
  case (3 c r w)
  have *: "mset (filter (\<lambda>v. dated v \<le> dated w) xs @ w # filter (\<lambda>v. dated w < dated v) xs)
      = add_mset w (mset xs)" for xs
    by (induction xs) auto
  obtain c' where c': "Treap_Add dated zero r w c = Some c'" "Treap_inv dated zero c'"
    "tr_inorder (root c') = filter (\<lambda>v. dated v \<le> dated w) (tr_inorder (root c)) @ w #
       filter (\<lambda>v. dated w < dated v) (tr_inorder (root c))"
    using Treap_Add_spec [OF 3] by metis
  then show ?case using * by metis
next
  case (5 c)
  then have "root c \<noteq> TNil" by auto
  from Treap_Pop_spec [OF 5(1) this] show ?case by (metis mset.simps(2))
next
  case (6 c expiry now)
  from Treap_RemoveExpired_spec [OF this, of now] show ?case by (metis mset_filter size_mset)
next
  case (8 c w c' v)
  then have "root c \<noteq> TNil" by auto
  then obtain x t' where "Treap_Pop zero c = (x, t')" "tr_inorder (root c) = x # tr_inorder (root t')"
    using Treap_Pop_spec [OF 8(1)] by metis
  with 8 show ?case by (auto simp: Treap_inv_def)
qed (auto simp: NewTreap_def Treap_inv_def Treap_Pop_def Treap_Len_def)

section \<open>The property\<close>

text \<open>
  C14.  Treap: for every choice of node priorities and every reuse of recycled nodes, whatever
  sequence of \<open>Add\<close>, \<open>Pop\<close> and \<open>RemoveExpired\<close> is called on a new container, every call returns,
  \<open>Pop\<close> returns an element with the smallest last-active time of those present (the zero value if
  there is none) and removes just it, and \<open>RemoveExpired\<close> removes and counts exactly the elements
  that are not alive.
\<close>

theorem Treap_lru:
  assumes "list_all op_ok ops"
  shows "\<exists>rs t. idle_run (Treap_Add dated zero) (\<lambda>t. Some (Treap_Pop zero t))
             (\<lambda>now expiry t. Some (Treap_RemoveExpired dated zero now expiry t)) ops NewTreap = Some (rs, t)
           \<and> Treap_inv dated zero t \<and> lru_trace dated zero ops rs {#} (mset (tr_inorder (root t)))"
  by (rule treap.lru_run_New [OF assms])

theorem Treap_lru_witness:
  "list_all op_ok (sample_calls (None :: nat option, 7 :: int))
   \<and> (\<exists>rs t. idle_run (Treap_Add id 0) (\<lambda>t. Some (Treap_Pop 0 t))
             (\<lambda>now expiry t. Some (Treap_RemoveExpired id 0 now expiry t)) (sample_calls (None :: nat option, 7 :: int)) NewTreap = Some (rs, t)
           \<and> Treap_inv id 0 t \<and> lru_trace id 0 (sample_calls (None :: nat option, 7 :: int)) rs {#} (mset (tr_inorder (root t))))"
  using Treap_lru [OF sample_calls_ok, of id 0] by simp

end
