(* ===== verification/Idle_Works.thy ===== *)
theory Idle_Works
  imports Idle_Slice Idle_RingQueue Idle_LinkedList Idle_MinHeap Idle_Treap
begin

text \<open>
  The idle container as the pool holds it: the interface value \<open>idleWorks idle.IdleContainer[*worker]\<close>,
  one of the five implementations chosen in \<open>NewPool\<close>, over worker pointers (\<open>None\<close> is nil).  A method
  call on the interface is the call of the implementation behind it.
\<close>

record worker =
  wid :: nat
  lastActiveAt :: go_time
  cursor :: "64 word"

text \<open>\<open>DatedTime\<close>; the pool never stores a nil worker, so the value at \<open>None\<close> plays no role.\<close>

fun DatedTime :: "worker option \<Rightarrow> go_time" where
  "DatedTime (Some w) = lastActiveAt w"
| "DatedTime None = time_zero"

datatype IdleWorks =
    AsLinkedList "worker option LinkedList"
  | AsMinHeap "worker option MinHeap"
  | AsSlice "worker option Slice"
  | AsRingQueue "worker option RingQueue"
  | AsTreap "worker option Treap"

fun newIdleWorks :: "IdleContainerType \<Rightarrow> IdleWorks" where
  "newIdleWorks MinHeapType = AsMinHeap (NewMinHeap DatedTime)"
| "newIdleWorks SliceType = AsSlice NewSlice"
| "newIdleWorks RingQueueType = AsRingQueue (NewRingQueue None)"
| "newIdleWorks TreapType = AsTreap NewTreap"
| "newIdleWorks LinkedListType = AsLinkedList NewLinkedList"

fun Idle_Add :: "nat option \<times> int \<Rightarrow> worker option \<Rightarrow> IdleWorks \<Rightarrow> IdleWorks option" where
  "Idle_Add r w (AsLinkedList c) = map_option AsLinkedList (LinkedList_Add w c)"
| "Idle_Add r w (AsMinHeap c) = Some (AsMinHeap (MinHeap_Add DatedTime w c))"
| "Idle_Add r w (AsSlice c) = Some (AsSlice (Slice_Add w c))"
| "Idle_Add r w (AsRingQueue c) = map_option AsRingQueue (RingQueue_Add None w c)"
| "Idle_Add r w (AsTreap c) = map_option AsTreap (Treap_Add DatedTime None r w c)"

fun Idle_Pop :: "IdleWorks \<Rightarrow> (worker option \<times> IdleWorks) option" where
  "Idle_Pop (AsLinkedList c) = map_option (map_prod id AsLinkedList) (LinkedList_Pop None c)"
| "Idle_Pop (AsMinHeap c) = Some (map_prod id AsMinHeap (MinHeap_Pop DatedTime None c))"
| "Idle_Pop (AsSlice c) = map_option (map_prod id AsSlice) (Slice_Pop None c)"
| "Idle_Pop (AsRingQueue c) = map_option (map_prod id AsRingQueue) (RingQueue_Pop None c)"
| "Idle_Pop (AsTreap c) = Some (map_prod id AsTreap (Treap_Pop None c))"

fun Idle_RemoveExpired :: "go_time \<Rightarrow> duration \<Rightarrow> IdleWorks \<Rightarrow> (int \<times> IdleWorks) option" where
  "Idle_RemoveExpired now d (AsLinkedList c) = map_option (map_prod id AsLinkedList) (LinkedList_RemoveExpired DatedTime now d c)"
| "Idle_RemoveExpired now d (AsMinHeap c) = Some (map_prod id AsMinHeap (MinHeap_RemoveExpired DatedTime None now d c 0))"
| "Idle_RemoveExpired now d (AsSlice c) = Some (map_prod id AsSlice (Slice_RemoveExpired DatedTime None now d c))"
| "Idle_RemoveExpired now d (AsRingQueue c) = map_option (map_prod id AsRingQueue) (RingQueue_RemoveExpired DatedTime None now d c)"
| "Idle_RemoveExpired now d (AsTreap c) = Some (map_prod id AsTreap (Treap_RemoveExpired DatedTime None now d c))"

fun Idle_Len :: "IdleWorks \<Rightarrow> int" where
  "Idle_Len (AsLinkedList c) = LinkedList_Len c"
| "Idle_Len (AsMinHeap c) = MinHeap_Len c"
| "Idle_Len (AsSlice c) = Slice_Len c"
| "Idle_Len (AsRingQueue c) = RingQueue_Len c"
| "Idle_Len (AsTreap c) = Treap_Len c"

section \<open>Contract\<close>

fun Idle_inv :: "IdleWorks \<Rightarrow> bool" where
  "Idle_inv (AsLinkedList c) = LinkedList_inv c"
| "Idle_inv (AsMinHeap c) = MinHeap_inv DatedTime c"
| "Idle_inv (AsSlice c) = Slice_inv c"
| "Idle_inv (AsRingQueue c) = RingQueue_inv c"
| "Idle_inv (AsTreap c) = Treap_inv DatedTime None c"

fun Idle_elems :: "IdleWorks \<Rightarrow> worker option multiset" where
  "Idle_elems (AsLinkedList c) = mset (LinkedList_contents c)"
| "Idle_elems (AsMinHeap c) = mset (inner c)"
| "Idle_elems (AsSlice c) = mset (workers c)"
| "Idle_elems (AsRingQueue c) = mset (RingQueue_contents c)"
| "Idle_elems (AsTreap c) = mset (tr_inorder (root c))"

interpretation idle_works: idle_container DatedTime None Idle_inv Idle_elems "newIdleWorks ty"
  Idle_Add Idle_Pop Idle_RemoveExpired Idle_Len
  for ty :: IdleContainerType
proof (unfold_locales, goal_cases)
  case 1
  show ?case
    by (cases ty) (simp_all add: linkedlist.new_inv minheap.new_inv slice.new_inv ring.new_inv treap.new_inv)
next
  case 2
  show ?case
    by (cases ty) (simp_all only: newIdleWorks.simps Idle_elems.simps linkedlist.new_elems minheap.new_elems
        slice.new_elems ring.new_elems treap.new_elems)
next
  case (3 c r w)
  show ?case
  proof (cases c)
    case (AsLinkedList x) with 3 linkedlist.add_law [of x w] show ?thesis by auto
  next
    case (AsMinHeap x) with 3 minheap.add_law [of DatedTime x w] show ?thesis by auto
  next
    case (AsSlice x) with 3 slice.add_law [of x w] show ?thesis by auto
  next
    case (AsRingQueue x) with 3 ring.add_law [of x None w] show ?thesis by auto
  next
    case (AsTreap x) with 3 treap.add_law [of DatedTime None x r w] show ?thesis by auto
  qed
next
  case (4 c)
  show ?case
  proof (cases c)
    case (AsLinkedList x) with 4 linkedlist.pop_empty [of x None] show ?thesis by simp
  next
    case (AsMinHeap x) with 4 minheap.pop_empty [of DatedTime x None] show ?thesis by simp
  next
    case (AsSlice x) with 4 slice.pop_empty [of x None] show ?thesis by simp
  next
    case (AsRingQueue x) with 4 ring.pop_empty [of x None] show ?thesis by simp
  next
    case (AsTreap x) with 4 treap.pop_empty [of DatedTime None x] show ?thesis by simp
  qed
next
  case (5 c)
  show ?case
  proof (cases c)
    case (AsLinkedList x) with 5 linkedlist.pop_law [of x None] show ?thesis by force
  next
    case (AsMinHeap x) with 5 minheap.pop_law [of DatedTime x None] show ?thesis by force
  next
    case (AsSlice x) with 5 slice.pop_law [of x None] show ?thesis by force
  next
    case (AsRingQueue x) with 5 ring.pop_law [of x None] show ?thesis by force
  next
    case (AsTreap x) with 5 treap.pop_law [of DatedTime None x] show ?thesis by force
  qed
next
  case (6 c expiry now)
  show ?case
  proof (cases c)
    case (AsLinkedList x) with 6 linkedlist.expire_law [of x expiry DatedTime now] show ?thesis by (auto simp flip: size_mset)
  next
    case (AsMinHeap x) with 6 minheap.expire_law [of DatedTime x expiry None now] show ?thesis by (auto simp flip: size_mset)
  next
    case (AsSlice x) with 6 slice.expire_law [of x expiry DatedTime None now] show ?thesis by (auto simp flip: size_mset)
  next
    case (AsRingQueue x) with 6 ring.expire_law [of x expiry DatedTime None now] show ?thesis by (auto simp flip: size_mset)
  next
    case (AsTreap x) with 6 treap.expire_law [of DatedTime None x expiry now] show ?thesis by (auto simp flip: size_mset)
  qed
next
  case (7 c)
  then show ?case
    by (cases c) (simp_all add: linkedlist.len_law minheap.len_law slice.len_law ring.len_law treap.len_law)
qed

end
