(* ===== verification/Task_Buffer.thy ===== *)
theory Task_Buffer
  imports Go_Prelude
begin

text \<open>
  \<open>task_buffer.go\<close>: the overflow buffer of fixed-size linked chunks.  Chunks live in an explicit
  store, because the head and tail pointers may name the same chunk and consumed chunks are recycled
  through a \<open>sync.Pool\<close> while other pointers still exist.  A slot holds \<open>None\<close> for the nil
  interface value.  Every method runs under \<open>taskMu\<close>, so a call is one atomic operation.
\<close>

section \<open>Model\<close>

definition taskChunkSize :: nat where
  "taskChunkSize = 4096"

definition maxChunkLen :: int where
  "maxChunkLen = 100000"

datatype taskBufferPushResult = taskBufferAccepted | taskBufferClosed | taskBufferFull

record 'a taskChunk =
  ch_tasks :: "nat \<Rightarrow> 'a option"
  ch_next :: "nat option"

record 'a chunkedTaskBuffer =
  headChunk :: "nat option"
  tailChunk :: "nat option"
  headIdx :: nat
  tailIdx :: nat
  chunkLen :: int
  overflowClosed :: bool
  chunkPool :: "nat list"
  cb_store :: "nat \<rightharpoonup> 'a taskChunk"
  cb_fresh :: nat

definition zero_chunk :: "'a taskChunk" where
  "zero_chunk = \<lparr>ch_tasks = (\<lambda>_. None), ch_next = None\<rparr>"

definition newChunkedTaskBuffer :: "'a chunkedTaskBuffer" where
  "newChunkedTaskBuffer =
     \<lparr>headChunk = None, tailChunk = None, headIdx = 0, tailIdx = 0, chunkLen = 0,
      overflowClosed = False, chunkPool = [], cb_store = Map.empty, cb_fresh = 0\<rparr>"

definition Buffer_Len :: "'a chunkedTaskBuffer \<Rightarrow> int" where
  "Buffer_Len b = chunkLen b"

definition Buffer_Close :: "'a chunkedTaskBuffer \<Rightarrow> 'a chunkedTaskBuffer" where
  "Buffer_Close b = b\<lparr>overflowClosed := True\<rparr>"

text \<open>
  \<open>chunkPool.Get\<close>: \<open>pick\<close> is the run-time system's choice of a recycled chunk; otherwise a new zero
  chunk is allocated.
\<close>

definition chunk_Get :: "nat option \<Rightarrow> 'a chunkedTaskBuffer \<Rightarrow> nat \<times> 'a chunkedTaskBuffer" where
  "chunk_Get pick b =
     (let alloc = (cb_fresh b, b\<lparr>cb_store := (cb_store b)(cb_fresh b \<mapsto> zero_chunk),
                                cb_fresh := Suc (cb_fresh b)\<rparr>)
      in case pick of
           None \<Rightarrow> alloc
         | Some i \<Rightarrow>
             if i < length (chunkPool b)
             then (chunkPool b ! i,
                   b\<lparr>chunkPool := take i (chunkPool b) @ drop (Suc i) (chunkPool b)\<rparr>)
             else alloc)"

definition pushTail :: "nat option \<Rightarrow> 'a \<Rightarrow> 'a chunkedTaskBuffer \<Rightarrow> 'a chunkedTaskBuffer option" where
  "pushTail pick task b = do {
     b1 \<leftarrow> (case tailChunk b of
              None \<Rightarrow>
                (let (c, b') = chunk_Get pick b
                 in Some (b'\<lparr>tailChunk := Some c, headChunk := Some c, tailIdx := 0, headIdx := 0\<rparr>))
            | Some t \<Rightarrow>
                if tailIdx b \<ge> taskChunkSize
                then (let (c, b') = chunk_Get pick b
                      in do {
                        ch \<leftarrow> cb_store b' t;
                        Some (b'\<lparr>cb_store := (cb_store b')(t \<mapsto> ch\<lparr>ch_next := Some c\<rparr>),
                                 tailChunk := Some c, tailIdx := 0\<rparr>) })
                else Some b);
     t \<leftarrow> tailChunk b1;
     ch \<leftarrow> cb_store b1 t;
     if tailIdx b1 < taskChunkSize
     then Some (b1\<lparr>cb_store := (cb_store b1)(t \<mapsto> ch\<lparr>ch_tasks := (ch_tasks ch)(tailIdx b1 := Some task)\<rparr>),
                   tailIdx := tailIdx b1 + 1, chunkLen := chunkLen b1 + 1\<rparr>)
     else None }"

text \<open>The two recycling branches of \<open>peekHead\<close>.\<close>

definition advanceHead :: "nat \<Rightarrow> 'a chunkedTaskBuffer \<Rightarrow> 'a chunkedTaskBuffer option" where
  "advanceHead h b = do {
     ch \<leftarrow> cb_store b h;
     let next = ch_next ch;
     let b1 = b\<lparr>cb_store := (cb_store b)(h \<mapsto> ch\<lparr>ch_next := None\<rparr>), chunkPool := h # chunkPool b,
                headChunk := next, headIdx := 0\<rparr>;
     Some (if next = None then b1\<lparr>tailChunk := None, tailIdx := 0\<rparr> else b1) }"

definition resetDrained :: "nat \<Rightarrow> 'a chunkedTaskBuffer \<Rightarrow> 'a chunkedTaskBuffer option" where
  "resetDrained h b = do {
     ch \<leftarrow> cb_store b h;
     Some (b\<lparr>cb_store := (cb_store b)(h \<mapsto> ch\<lparr>ch_next := None\<rparr>), chunkPool := h # chunkPool b,
             headChunk := None, tailChunk := None, headIdx := 0, tailIdx := 0\<rparr>) }"

definition peekHead :: "'a chunkedTaskBuffer \<Rightarrow> (('a option \<times> bool) \<times> 'a chunkedTaskBuffer) option" where
  "peekHead b =
     (case headChunk b of
        None \<Rightarrow> Some ((None, False), b)
      | Some h \<Rightarrow> do {
          b1 \<leftarrow> (if headIdx b \<ge> taskChunkSize then advanceHead h b else Some b);
          (case headChunk b1 of
             None \<Rightarrow> Some ((None, False), b1)
           | Some h1 \<Rightarrow>
               if headChunk b1 = tailChunk b1 \<and> headIdx b1 \<ge> tailIdx b1
               then do { b2 \<leftarrow> resetDrained h1 b1; Some ((None, False), b2) }
               else do {
                 ch \<leftarrow> cb_store b1 h1;
                 if headIdx b1 < taskChunkSize then Some ((ch_tasks ch (headIdx b1), True), b1)
                 else None }) })"

definition popHead :: "'a chunkedTaskBuffer \<Rightarrow> (('a option \<times> bool) \<times> 'a chunkedTaskBuffer) option" where
  "popHead b = do {
     ((task, ok), b1) \<leftarrow> peekHead b;
     if \<not> ok then Some ((None, False), b1)
     else do {
       h \<leftarrow> headChunk b1;
       ch \<leftarrow> cb_store b1 h;
       Some ((task, True),
             b1\<lparr>cb_store := (cb_store b1)(h \<mapsto> ch\<lparr>ch_tasks := (ch_tasks ch)(headIdx b1 := None)\<rparr>),
                headIdx := headIdx b1 + 1, chunkLen := chunkLen b1 - 1\<rparr>) } }"

text \<open>
  \<open>PushAndForward\<close>: the callback \<open>tryForward\<close> may change the state \<open>'s\<close> of its owner (the pool's
  handoff channels) and reports whether it took the task.
\<close>

definition PushAndForward ::
  "nat option \<Rightarrow> 'a \<Rightarrow> ('a option \<Rightarrow> 's \<Rightarrow> bool \<times> 's) \<Rightarrow> 's \<Rightarrow> 'a chunkedTaskBuffer
    \<Rightarrow> (taskBufferPushResult \<times> 's \<times> 'a chunkedTaskBuffer) option" where
  "PushAndForward pick task tryForward s b =
     (if overflowClosed b then Some (taskBufferClosed, s, b)
      else if chunkLen b \<ge> maxChunkLen then Some (taskBufferFull, s, b)
      else do {
        b1 \<leftarrow> pushTail pick task b;
        ((t, ok), b2) \<leftarrow> peekHead b1;
        if ok then
          (let (taken, s') = tryForward t s in
           if taken then do { (_, b3) \<leftarrow> popHead b2; Some (taskBufferAccepted, s', b3) }
           else Some (taskBufferAccepted, s', b2))
        else Some (taskBufferAccepted, s, b2) })"

text \<open>\<open>PopBatch\<close> with \<open>len(dst) = k\<close>: the tasks written to \<open>dst\<close>, in order.\<close>

fun PopBatch :: "nat \<Rightarrow> 'a chunkedTaskBuffer \<Rightarrow> ('a option list \<times> 'a chunkedTaskBuffer) option" where
  "PopBatch 0 b = Some ([], b)"
| "PopBatch (Suc k) b = do {
     ((t, ok), b1) \<leftarrow> popHead b;
     if \<not> ok then Some ([], b1)
     else do { (ts, b2) \<leftarrow> PopBatch k b1; Some (t # ts, b2) } }"

section \<open>Representation\<close>

text \<open>A chunk whose live slots are \<open>ys\<close>, starting at index \<open>hi\<close>; every other slot is nil.\<close>

definition window :: "nat \<Rightarrow> 'a list \<Rightarrow> nat \<Rightarrow> 'a option" where
  "window hi ys = (\<lambda>i. if hi \<le> i \<and> i < hi + length ys then Some (ys ! (i - hi)) else None)"

lemma window_Nil [simp]: "window hi [] = (\<lambda>_. None)"
  by (auto simp: window_def)

lemma window_hd [simp]: "window hi (y # ys) hi = Some y"
  by (simp add: window_def)

lemma window_push: "hi + length ys = i \<Longrightarrow> (window hi ys)(i := Some t) = window hi (ys @ [t])"
  by (auto simp: window_def fun_eq_iff nth_append)

lemma window_pop [simp]: "(window hi (y # ys))(hi := None) = window (Suc hi) ys"
  by (auto simp: window_def fun_eq_iff nth_Cons')

text \<open>Chunks filled to the last slot, each linked to the next one and the last to \<open>nx\<close>.\<close>

fun full_chunks :: "(nat \<rightharpoonup> 'a taskChunk) \<Rightarrow> nat list \<Rightarrow> nat \<Rightarrow> nat option \<Rightarrow> 'a list list \<Rightarrow> bool" where
  "full_chunks st [] hi nx zs \<longleftrightarrow> zs = []"
| "full_chunks st (c # cs) hi nx [] \<longleftrightarrow> False"
| "full_chunks st (c # cs) hi nx (ys # zs) \<longleftrightarrow>
     st c = Some \<lparr>ch_tasks = window hi ys, ch_next = first_or cs nx\<rparr>
     \<and> hi + length ys = taskChunkSize \<and> full_chunks st cs 0 nx zs"

lemma full_chunks_frame [simp]:
  "a \<notin> set cs \<Longrightarrow> full_chunks (st(a \<mapsto> ch)) cs hi nx zs = full_chunks st cs hi nx zs"
  by (induction st cs hi nx zs rule: full_chunks.induct) auto

lemma full_chunks_snoc:
  "full_chunks st cs hi (Some c) zs \<Longrightarrow>
     st c = Some \<lparr>ch_tasks = window (if cs = [] then hi else 0) ys, ch_next = nx\<rparr> \<Longrightarrow>
     (if cs = [] then hi else 0) + length ys = taskChunkSize \<Longrightarrow>
     full_chunks st (cs @ [c]) hi nx (zs @ [ys])"
proof (induction st cs hi "Some c" zs rule: full_chunks.induct)
  case (3 st d cs hi ys' zs)
  then show ?case by (cases cs) auto
qed auto

definition live :: "'a chunkedTaskBuffer \<Rightarrow> nat list \<Rightarrow> nat \<Rightarrow> 'a list list \<Rightarrow> 'a list \<Rightarrow> bool" where
  "live b fs c zs ys \<longleftrightarrow>
     headChunk b = first_or fs (Some c) \<and> tailChunk b = Some c
     \<and> full_chunks (cb_store b) fs (headIdx b) (Some c) zs
     \<and> cb_store b c = Some \<lparr>ch_tasks = window (if fs = [] then headIdx b else 0) ys, ch_next = None\<rparr>
     \<and> (if fs = [] then headIdx b else 0) + length ys = tailIdx b \<and> tailIdx b \<le> taskChunkSize"

definition pool_ok :: "'a chunkedTaskBuffer \<Rightarrow> nat list \<Rightarrow> bool" where
  "pool_ok b cs \<longleftrightarrow> distinct (cs @ chunkPool b) \<and> (\<forall>a \<in> set (cs @ chunkPool b). a < cb_fresh b)
     \<and> (\<forall>a \<in> set (chunkPool b). cb_store b a = Some zero_chunk)"

text \<open>The buffer \<open>b\<close> holds the tasks \<open>xs\<close> in queue order.\<close>

definition holds :: "'a chunkedTaskBuffer \<Rightarrow> 'a list \<Rightarrow> bool" where
  "holds b xs \<longleftrightarrow> chunkLen b = int (length xs) \<and>
     (headChunk b = None \<and> tailChunk b = None \<and> xs = [] \<and> pool_ok b []
      \<or> (\<exists>fs c zs ys. live b fs c zs ys \<and> xs = concat zs @ ys \<and> pool_ok b (fs @ [c])))"

lemma holds_len: "holds b xs \<Longrightarrow> chunkLen b = int (length xs)"
  by (simp add: holds_def)

lemma holds_new: "holds newChunkedTaskBuffer []"
  by (simp add: holds_def newChunkedTaskBuffer_def pool_ok_def)

lemma close_frame [simp]:
  "live (Buffer_Close b) fs c zs ys = live b fs c zs ys" "pool_ok (Buffer_Close b) cs = pool_ok b cs"
  by (simp_all add: Buffer_Close_def live_def pool_ok_def)

lemma holds_close: "holds (Buffer_Close b) xs = holds b xs"
  by (simp add: holds_def) (simp add: Buffer_Close_def)

section \<open>Pushing\<close>

text \<open>A chunk from the pool is clean and unused, wherever it comes from.\<close>

lemma chunk_Get_spec:
  assumes "pool_ok b cs"
  obtains c b' where "chunk_Get pick b = (c, b')" "c \<notin> set cs" "cb_store b' c = Some zero_chunk"
    "pool_ok b' (cs @ [c])" "\<And>a. a \<in> set cs \<Longrightarrow> cb_store b' a = cb_store b a"
    "headChunk b' = headChunk b" "tailChunk b' = tailChunk b" "headIdx b' = headIdx b"
    "tailIdx b' = tailIdx b" "chunkLen b' = chunkLen b" "overflowClosed b' = overflowClosed b"
proof (cases "\<exists>i. pick = Some i \<and> i < length (chunkPool b)")
  case True
  then obtain i where i: "pick = Some i" "i < length (chunkPool b)" by blast
  let ?ps = "chunkPool b"
  have split: "?ps = take i ?ps @ ?ps ! i # drop (Suc i) ?ps" using i(2) by (rule id_take_nth_drop)
  then have s: "set ?ps = insert (?ps ! i) (set (take i ?ps) \<union> set (drop (Suc i) ?ps))"
    by (metis Un_insert_right list.simps(15) set_append)
  have "distinct (take i ?ps @ ?ps ! i # drop (Suc i) ?ps)"
    using assms split by (simp add: pool_ok_def)
  with assms s show ?thesis
    by (intro that [of "?ps ! i" "b\<lparr>chunkPool := take i ?ps @ drop (Suc i) ?ps\<rparr>"])
      (auto simp: chunk_Get_def i pool_ok_def)
next
  case False
  let ?b = "b\<lparr>cb_store := (cb_store b)(cb_fresh b \<mapsto> zero_chunk), cb_fresh := Suc (cb_fresh b)\<rparr>"
  have "chunk_Get pick b = (cb_fresh b, ?b)"
    using False by (auto simp: chunk_Get_def Let_def split: option.splits)
  with assms show ?thesis
    by (intro that [of "cb_fresh b" ?b]) (auto simp: pool_ok_def less_Suc_eq)
qed

lemma full_chunks_cong:
  "(\<And>a. a \<in> set cs \<Longrightarrow> st a = st' a) \<Longrightarrow> full_chunks st cs hi nx zs = full_chunks st' cs hi nx zs"
  by (induction st cs hi nx zs rule: full_chunks.induct) auto

lemma pushTail_spec:
  assumes "holds b xs"
  shows "\<exists>b'. pushTail pick t b = Some b' \<and> holds b' (xs @ [t]) \<and> overflowClosed b' = overflowClosed b"
proof -
  from assms consider (empty) "tailChunk b = None" "xs = []" "pool_ok b []" "chunkLen b = 0"
    | (live) fs c zs ys where "live b fs c zs ys" "xs = concat zs @ ys" "pool_ok b (fs @ [c])"
        "chunkLen b = int (length xs)"
    by (auto simp: holds_def)
  then show ?thesis
  proof cases
    case empty
    obtain c b' where
      g: "chunk_Get pick b = (c, b')" "cb_store b' c = Some zero_chunk" "pool_ok b' [c]"
         "chunkLen b' = chunkLen b" "overflowClosed b' = overflowClosed b"
      using chunk_Get_spec [OF empty(3), of pick] by (metis append_Nil)
    let ?b = "b'\<lparr>tailChunk := Some c, headChunk := Some c, headIdx := 0, tailIdx := 1,
      chunkLen := 1, cb_store := (cb_store b')(c \<mapsto> \<lparr>ch_tasks = window 0 [t], ch_next = None\<rparr>)\<rparr>"
    have "(window 0 [])(0 := Some t) = window 0 ([] @ [t])" by (rule window_push) simp
    then have "pushTail pick t b = Some ?b"
      using empty g by (simp add: pushTail_def zero_chunk_def taskChunkSize_def)
    moreover have "live ?b [] c [] [t]" by (simp add: live_def taskChunkSize_def)
    moreover have "pool_ok ?b [c]" using g(3) by (auto simp: pool_ok_def)
    ultimately show ?thesis using empty g(5) by (fastforce simp: holds_def)
  next
    case live
    show ?thesis
    proof (cases "tailIdx b \<ge> taskChunkSize")
      case False
      let ?b = "b\<lparr>tailIdx := tailIdx b + 1, chunkLen := chunkLen b + 1, cb_store := (cb_store b)(c \<mapsto>
        \<lparr>ch_tasks = window (if fs = [] then headIdx b else 0) (ys @ [t]), ch_next = None\<rparr>)\<rparr>"
      have "(window (if fs = [] then headIdx b else 0) ys)(tailIdx b := Some t)
          = window (if fs = [] then headIdx b else 0) (ys @ [t])"
        using live(1) by (intro window_push) (simp add: live_def)
      then have "pushTail pick t b = Some ?b"
        using live(1) False by (simp add: pushTail_def live_def)
      moreover have "c \<notin> set fs" using live(3) by (simp add: pool_ok_def)
      then have "live ?b fs c zs (ys @ [t])" using live(1) False by (auto simp: live_def)
      moreover have "pool_ok ?b (fs @ [c])" using live(3) by (auto simp: pool_ok_def)
      ultimately show ?thesis using live by (fastforce simp: holds_def)
    next
      case True
      from chunk_Get_spec [OF live(3), of pick] obtain d b' where
        g: "chunk_Get pick b = (d, b')" "d \<notin> set (fs @ [c])" "cb_store b' d = Some zero_chunk"
           "pool_ok b' ((fs @ [c]) @ [d])" "\<And>a. a \<in> set (fs @ [c]) \<Longrightarrow> cb_store b' a = cb_store b a"
           "headChunk b' = headChunk b" "headIdx b' = headIdx b" "chunkLen b' = chunkLen b"
           "overflowClosed b' = overflowClosed b" by metis
      let ?hi = "if fs = [] then headIdx b else 0"
      let ?st = "(cb_store b')(c \<mapsto> \<lparr>ch_tasks = window ?hi ys, ch_next = Some d\<rparr>)"
      let ?b = "b'\<lparr>tailChunk := Some d, tailIdx := 1, chunkLen := chunkLen b + 1, cb_store :=
        ?st(d \<mapsto> \<lparr>ch_tasks = window 0 [t], ch_next = None\<rparr>)\<rparr>"
      have c: "cb_store b' c = Some \<lparr>ch_tasks = window ?hi ys, ch_next = None\<rparr>"
        using live(1) g(5) by (simp add: live_def)
      have "(window 0 [])(0 := Some t) = window 0 ([] @ [t])" by (rule window_push) simp
      then have "pushTail pick t b = Some ?b"
        using live(1) True g c by (auto simp: pushTail_def live_def zero_chunk_def taskChunkSize_def)
      moreover have "full_chunks ?st (fs @ [c]) (headIdx b) (Some d) (zs @ [ys])"
      proof (rule full_chunks_snoc)
        have "full_chunks (cb_store b') fs (headIdx b) (Some c) zs"
          using live(1) full_chunks_cong [of fs "cb_store b'" "cb_store b"] g(5) by (simp add: live_def)
        then show "full_chunks ?st fs (headIdx b) (Some c) zs"
          using live(3) by (simp add: pool_ok_def)
        show "?hi + length ys = taskChunkSize" using live(1) True by (simp add: live_def)
      qed simp
      then have "live ?b (fs @ [c]) d (zs @ [ys]) [t]"
        using live(1) g by (simp add: live_def taskChunkSize_def)
      moreover have "pool_ok ?b ((fs @ [c]) @ [d])" using g(4) by (auto simp: pool_ok_def)
      ultimately show ?thesis using live g(9)
        by (intro exI [of _ ?b]) (fastforce simp: holds_def)
    qed
  qed
qed

section \<open>Peeking and popping\<close>

text \<open>After a successful \<open>peekHead\<close> the head pointer names the slot of the first task.\<close>

definition head_ready :: "'a chunkedTaskBuffer \<Rightarrow> 'a \<Rightarrow> 'a list \<Rightarrow> bool" where
  "head_ready b x xs \<longleftrightarrow> chunkLen b = int (length xs) + 1 \<and> headIdx b < taskChunkSize \<and>
     (\<exists>fs c zs ys. live b fs c zs ys \<and> pool_ok b (fs @ [c]) \<and>
        (fs = [] \<and> (\<exists>ys'. ys = x # ys' \<and> xs = ys')
         \<or> fs \<noteq> [] \<and> (\<exists>z zs'. zs = (x # z) # zs' \<and> xs = z @ concat zs' @ ys)))"

lemma head_ready_holds: "head_ready b x xs \<Longrightarrow> holds b (x # xs)"
  by (fastforce simp: head_ready_def holds_def live_def)

lemma resetDrained_spec:
  assumes "live b [] c [] []" "pool_ok b [c]" "chunkLen b = 0"
  shows "\<exists>b'. resetDrained c b = Some b' \<and> holds b' [] \<and> overflowClosed b' = overflowClosed b"
  using assms by (auto simp: resetDrained_def live_def holds_def pool_ok_def zero_chunk_def)

lemma advanceHead_last:
  assumes "live b [] c [] []" "pool_ok b [c]" "chunkLen b = 0"
  shows "\<exists>b'. advanceHead c b = Some b' \<and> holds b' [] \<and> headChunk b' = None
    \<and> overflowClosed b' = overflowClosed b"
  using assms by (auto simp: advanceHead_def live_def holds_def pool_ok_def zero_chunk_def)

lemma advanceHead_next:
  assumes "live b (f # fs) c ([] # zs) ys" "pool_ok b ((f # fs) @ [c])"
  shows "\<exists>b'. advanceHead f b = Some b' \<and> live b' fs c zs ys \<and> pool_ok b' (fs @ [c]) \<and> headIdx b' = 0
    \<and> chunkLen b' = chunkLen b \<and> overflowClosed b' = overflowClosed b"
  using assms by (cases fs) (auto simp: advanceHead_def live_def pool_ok_def zero_chunk_def)

text \<open>\<open>peekHead\<close> on a head index inside the first chunk.\<close>

lemma peekHead_inside:
  assumes "live b fs c zs ys" "pool_ok b (fs @ [c])" "headIdx b < taskChunkSize"
    and "chunkLen b = int (length us)" "us = concat zs @ ys"
  shows "case us of
      [] \<Rightarrow> \<exists>b'. peekHead b = Some ((None, False), b') \<and> holds b' [] \<and> overflowClosed b' = overflowClosed b
    | x # xs \<Rightarrow> peekHead b = Some ((Some x, True), b) \<and> head_ready b x xs"
proof (cases fs)
  case Nil
  with assms have z: "zs = []" by (auto simp: live_def)
  show ?thesis
  proof (cases ys)
    case ys: Nil
    with assms Nil z resetDrained_spec [of b c] show ?thesis
      by (auto simp: peekHead_def live_def)
  next
    case (Cons x ys')
    have "head_ready b x ys'"
      using assms Nil z Cons by (auto simp: head_ready_def intro!: exI [of _ "[]"])
    with assms Nil z Cons show ?thesis by (auto simp: peekHead_def live_def)
  qed
next
  case (Cons f fs')
  with assms obtain y zs' where z: "zs = y # zs'" "headIdx b + length y = taskChunkSize"
    by (cases zs) (auto simp: live_def)
  with assms(3) obtain x y' where y: "y = x # y'" by (cases y) auto
  have "head_ready b x (y' @ concat zs' @ ys)"
    using assms Cons z y unfolding head_ready_def by fastforce
  moreover have "f \<noteq> c" using assms(2) Cons by (auto simp: pool_ok_def)
  ultimately show ?thesis using assms Cons z y by (auto simp: peekHead_def live_def)
qed

lemma peekHead_spec:
  assumes "holds b xs"
  shows "xs = [] \<Longrightarrow> \<exists>b'. peekHead b = Some ((None, False), b') \<and> holds b' [] \<and> overflowClosed b' = overflowClosed b"
    and "xs = x # xs' \<Longrightarrow> \<exists>b'. peekHead b = Some ((Some x, True), b') \<and> head_ready b' x xs' \<and> overflowClosed b' = overflowClosed b"
proof -
  have "case xs of
      [] \<Rightarrow> \<exists>b'. peekHead b = Some ((None, False), b') \<and> holds b' [] \<and> overflowClosed b' = overflowClosed b
    | x # xs' \<Rightarrow> \<exists>b'. peekHead b = Some ((Some x, True), b') \<and> head_ready b' x xs' \<and> overflowClosed b' = overflowClosed b"
  proof (cases "headChunk b")
    case None
    then have "xs = []" using assms by (auto simp: holds_def live_def)
    with None assms show ?thesis by (simp add: peekHead_def)
  next
    case (Some h)
    then obtain fs c zs ys where l: "live b fs c zs ys" "xs = concat zs @ ys" "pool_ok b (fs @ [c])"
        "chunkLen b = int (length xs)"
      using assms by (auto simp: holds_def)
    show ?thesis
    proof (cases "headIdx b < taskChunkSize")
      case True
      from peekHead_inside [OF l(1,3) True l(4,2)] show ?thesis by (cases xs) auto
    next
      case False
      show ?thesis
      proof (cases fs)
        case Nil
        have "headIdx b + length ys \<le> taskChunkSize" using l(1) Nil by (simp add: live_def)
        then have "length ys = 0" using False by linarith
        moreover have "zs = []" "h = c" using l(1) Nil Some by (simp_all add: live_def)
        ultimately show ?thesis using advanceHead_last [of b c] l Nil False Some by (auto simp: peekHead_def)
      next
        case (Cons f fs')
        then obtain y zs' where y: "zs = y # zs'" "h = f" "headIdx b + length y = taskChunkSize"
          using l(1) Some by (cases zs) (auto simp: live_def)
        from y(3) have "length y = 0" using False by linarith
        with y have z: "zs = [] # zs'" "h = f" by simp_all
        with advanceHead_next [of b f fs' c zs' ys] l Cons obtain b1 where
          a: "advanceHead f b = Some b1" "live b1 fs' c zs' ys" "pool_ok b1 (fs' @ [c])" "headIdx b1 = 0"
             "chunkLen b1 = chunkLen b" "overflowClosed b1 = overflowClosed b" by auto
        have "peekHead b = peekHead b1"
        proof -
          obtain h1 where "headChunk b1 = Some h1" using a(2) by (cases fs') (auto simp: live_def)
          with Some z(2) False a(1,4) show ?thesis by (simp add: peekHead_def taskChunkSize_def)
        qed
        moreover have i: "headIdx b1 < taskChunkSize" using a(4) by (simp add: taskChunkSize_def)
        moreover have c: "chunkLen b1 = int (length xs)" "xs = concat zs' @ ys"
          using a(5) l(2,4) z(1) by simp_all
        note peekHead_inside [OF a(2,3) i c]
        ultimately show ?thesis using a(6) by (cases xs) simp_all
      qed
    qed
  qed
  then show "xs = [] \<Longrightarrow> \<exists>b'. peekHead b = Some ((None, False), b') \<and> holds b' [] \<and> overflowClosed b' = overflowClosed b"
    and "xs = x # xs' \<Longrightarrow> \<exists>b'. peekHead b = Some ((Some x, True), b') \<and> head_ready b' x xs' \<and> overflowClosed b' = overflowClosed b"
    by auto
qed

lemma pop_ready:
  assumes "head_ready b x xs"
  obtains h ch b' where "headChunk b = Some h" "cb_store b h = Some ch"
    "b' = b\<lparr>cb_store := (cb_store b)(h \<mapsto> ch\<lparr>ch_tasks := (ch_tasks ch)(headIdx b := None)\<rparr>),
           headIdx := headIdx b + 1, chunkLen := chunkLen b - 1\<rparr>"
    "holds b' xs"
proof -
  from assms obtain fs c zs ys where l: "live b fs c zs ys" "pool_ok b (fs @ [c])"
    "fs = [] \<and> (\<exists>ys'. ys = x # ys' \<and> xs = ys')
     \<or> fs \<noteq> [] \<and> (\<exists>z zs'. zs = (x # z) # zs' \<and> xs = z @ concat zs' @ ys)"
    "chunkLen b = int (length xs) + 1" "headIdx b < taskChunkSize"
    by (auto simp: head_ready_def)
  show ?thesis
  proof (cases fs)
    case Nil
    then obtain ys' where y: "ys = x # ys'" "xs = ys'" using l(3) by auto
    let ?b = "b\<lparr>cb_store := (cb_store b)(c \<mapsto> \<lparr>ch_tasks = window (Suc (headIdx b)) ys', ch_next = None\<rparr>),
              headIdx := headIdx b + 1, chunkLen := chunkLen b - 1\<rparr>"
    have "live ?b [] c [] ys'" using l(1) Nil y by (auto simp: live_def)
    moreover have "pool_ok ?b [c]" using l(2) Nil by (auto simp: pool_ok_def)
    ultimately have "holds ?b xs" using y l(4) by (fastforce simp: holds_def)
    with l(1) Nil y show ?thesis by (intro that [of c _ ?b]) (auto simp: live_def)
  next
    case (Cons f fs')
    then obtain z zs' where z: "zs = (x # z) # zs'" "xs = z @ concat zs' @ ys" using l(3) by auto
    let ?b = "b\<lparr>cb_store := (cb_store b)(f \<mapsto> \<lparr>ch_tasks = window (Suc (headIdx b)) z, ch_next = first_or fs' (Some c)\<rparr>),
              headIdx := headIdx b + 1, chunkLen := chunkLen b - 1\<rparr>"
    have "f \<notin> set fs'" "f \<noteq> c" using l(2) Cons by (auto simp: pool_ok_def)
    then have "live ?b fs c (z # zs') ys" using l(1) Cons z by (auto simp: live_def)
    moreover have "pool_ok ?b (fs @ [c])" using l(2) Cons by (auto simp: pool_ok_def)
    ultimately have "holds ?b xs" using z l(4) by (fastforce simp: holds_def)
    with l(1) Cons z show ?thesis by (intro that [of f _ ?b]) (auto simp: live_def)
  qed
qed

lemma popHead_empty:
  "holds b [] \<Longrightarrow> \<exists>b'. popHead b = Some ((None, False), b') \<and> holds b' [] \<and> overflowClosed b' = overflowClosed b"
  using peekHead_spec(1) [of b "[]"] by (auto simp: popHead_def)

lemma popHead_ready:
  assumes "peekHead b = Some ((Some x, True), b1)" "head_ready b1 x xs"
  shows "\<exists>b'. popHead b = Some ((Some x, True), b') \<and> holds b' xs \<and> overflowClosed b' = overflowClosed b1"
proof -
  obtain h ch b' where "headChunk b1 = Some h" "cb_store b1 h = Some ch"
    "b' = b1\<lparr>cb_store := (cb_store b1)(h \<mapsto> ch\<lparr>ch_tasks := (ch_tasks ch)(headIdx b1 := None)\<rparr>),
           headIdx := headIdx b1 + 1, chunkLen := chunkLen b1 - 1\<rparr>" "holds b' xs"
    using pop_ready [OF assms(2)] by blast
  with assms(1) show ?thesis by (simp add: popHead_def)
qed

section \<open>The contract of the buffer\<close>

text \<open>
  What the pool relies on: a bounded first-in first-out queue.  \<open>push\<close> either refuses (closed or
  full) without touching the owner's state, or appends and offers the oldest task to \<open>tryForward\<close>,
  removing it exactly when it was taken.
\<close>

locale overflow_queue =
  fixes rep :: "'b \<Rightarrow> 'a list \<Rightarrow> bool"
    and closed :: "'b \<Rightarrow> bool"
    and cap :: int
    and push :: "'o \<Rightarrow> 'a \<Rightarrow> ('a option \<Rightarrow> 's \<Rightarrow> bool \<times> 's) \<Rightarrow> 's \<Rightarrow> 'b \<Rightarrow> (taskBufferPushResult \<times> 's \<times> 'b) option"
    and pop :: "nat \<Rightarrow> 'b \<Rightarrow> ('a option list \<times> 'b) option"
    and close :: "'b \<Rightarrow> 'b"
    and len :: "'b \<Rightarrow> int"
  assumes push_refuse: "rep b xs \<Longrightarrow> closed b \<or> int (length xs) \<ge> cap \<Longrightarrow>
      push r t f s b = Some (if closed b then taskBufferClosed else taskBufferFull, s, b)"
    and push_accept: "rep b xs \<Longrightarrow> \<not> closed b \<Longrightarrow> int (length xs) < cap \<Longrightarrow>
      f (Some (hd (xs @ [t]))) s = (taken, s') \<Longrightarrow>
      \<exists>b'. push r t f s b = Some (taskBufferAccepted, s', b') \<and> closed b' = closed b
        \<and> rep b' (if taken then tl (xs @ [t]) else xs @ [t])"
    and pop_law: "rep b xs \<Longrightarrow>
      \<exists>b'. pop k b = Some (map Some (take k xs), b') \<and> closed b' = closed b \<and> rep b' (drop k xs)"
    and close_law: "rep b xs \<Longrightarrow> rep (close b) xs \<and> closed (close b)"
    and len_law: "rep b xs \<Longrightarrow> len b = int (length xs)"

text \<open>A client's calls, and the queue of tasks (with its closed flag) they must behave like.\<close>

datatype ('o, 'a) buffer_call = CallPush 'o 'a | CallPop nat | CallClose | CallLen

datatype 'a buffer_reply = ReplyPush taskBufferPushResult | ReplyPop "'a option list" | ReplyUnit | ReplyLen int

fun buffer_step ::
  "('o \<Rightarrow> 'a \<Rightarrow> ('a option \<Rightarrow> 's \<Rightarrow> bool \<times> 's) \<Rightarrow> 's \<Rightarrow> 'b \<Rightarrow> (taskBufferPushResult \<times> 's \<times> 'b) option)
   \<Rightarrow> (nat \<Rightarrow> 'b \<Rightarrow> ('a option list \<times> 'b) option) \<Rightarrow> ('b \<Rightarrow> 'b) \<Rightarrow> ('b \<Rightarrow> int)
   \<Rightarrow> ('a option \<Rightarrow> 's \<Rightarrow> bool \<times> 's) \<Rightarrow> ('o, 'a) buffer_call \<Rightarrow> 's \<times> 'b \<Rightarrow> ('a buffer_reply \<times> 's \<times> 'b) option" where
  "buffer_step push pop close len f (CallPush r t) (s, b) =
     map_option (\<lambda>(res, s', b'). (ReplyPush res, s', b')) (push r t f s b)"
| "buffer_step push pop close len f (CallPop k) (s, b) = map_option (\<lambda>(ts, b'). (ReplyPop ts, s, b')) (pop k b)"
| "buffer_step push pop close len f CallClose (s, b) = Some (ReplyUnit, s, close b)"
| "buffer_step push pop close len f CallLen (s, b) = Some (ReplyLen (len b), s, b)"

fun queue_step ::
  "int \<Rightarrow> ('a option \<Rightarrow> 's \<Rightarrow> bool \<times> 's) \<Rightarrow> ('o, 'a) buffer_call \<Rightarrow> 's \<times> bool \<times> 'a list \<Rightarrow> 'a buffer_reply \<times> 's \<times> bool \<times> 'a list" where
  "queue_step cap f (CallPush r t) (s, c, xs) =
     (if c then (ReplyPush taskBufferClosed, s, c, xs)
      else if int (length xs) \<ge> cap then (ReplyPush taskBufferFull, s, c, xs)
      else let (taken, s') = f (Some (hd (xs @ [t]))) s
           in (ReplyPush taskBufferAccepted, s', c, if taken then tl (xs @ [t]) else xs @ [t]))"
| "queue_step cap f (CallPop k) (s, c, xs) = (ReplyPop (map Some (take k xs)), s, c, drop k xs)"
| "queue_step cap f CallClose (s, c, xs) = (ReplyUnit, s, True, xs)"
| "queue_step cap f CallLen (s, c, xs) = (ReplyLen (int (length xs)), s, c, xs)"

primrec buffer_run where
  "buffer_run push pop close len f [] sb = Some ([], sb)"
| "buffer_run push pop close len f (x # xs) sb = do {
     (r, sb1) \<leftarrow> buffer_step push pop close len f x sb;
     (rs, sb2) \<leftarrow> buffer_run push pop close len f xs sb1;
     Some (r # rs, sb2) }"

primrec queue_run where
  "queue_run cap f [] q = ([], q)"
| "queue_run cap f (x # xs) q =
     (let (r, q1) = queue_step cap f x q; (rs, q2) = queue_run cap f xs q1 in (r # rs, q2))"

context overflow_queue
begin

lemma buffer_step_sim:
  assumes "rep b xs"
  shows "\<exists>b'. buffer_step push pop close len f x (s, b)
      = Some (fst (queue_step cap f x (s, closed b, xs)), fst (snd (queue_step cap f x (s, closed b, xs))), b')
    \<and> snd (snd (queue_step cap f x (s, closed b, xs))) = (closed b', snd (snd (snd (queue_step cap f x (s, closed b, xs)))))
    \<and> rep b' (snd (snd (snd (queue_step cap f x (s, closed b, xs)))))"
proof (cases x)
  case (CallPush r t)
  obtain taken s' where f: "f (Some (hd (xs @ [t]))) s = (taken, s')" by fastforce
  show ?thesis
  proof (cases "closed b \<or> int (length xs) \<ge> cap")
    case True
    with push_refuse [OF assms True, of r t f s] CallPush assms show ?thesis by auto
  next
    case False
    with push_accept [where f = f and t = t and r = r, OF assms _ _ f] CallPush f show ?thesis by (auto simp: Let_def)
  qed
next
  case (CallPop k)
  with pop_law [OF assms, of k] show ?thesis by auto
next
  case CallClose
  with close_law [OF assms] show ?thesis by simp
next
  case CallLen
  with len_law [OF assms] assms show ?thesis by simp
qed

lemma buffer_run_sim:
  "rep b xs \<Longrightarrow> map_option fst (buffer_run push pop close len f calls (s, b))
     = Some (fst (queue_run cap f calls (s, closed b, xs)))"
proof (induction calls arbitrary: s b xs)
  case (Cons x calls)
  from buffer_step_sim [OF Cons.prems, of f x s] obtain b' r s' ys where
    1: "buffer_step push pop close len f x (s, b) = Some (r, s', b')"
       "queue_step cap f x (s, closed b, xs) = (r, s', closed b', ys)" "rep b' ys"
    by (metis prod.collapse)
  with Cons.IH [OF 1(3), of s'] show ?case
    by (auto simp: case_prod_beta)
qed simp

end

section \<open>The chunked buffer keeps the contract\<close>

lemma PopBatch_spec:
  "holds b xs \<Longrightarrow> \<exists>b'. PopBatch k b = Some (map Some (take k xs), b') \<and> overflowClosed b' = overflowClosed b
     \<and> holds b' (drop k xs)"
proof (induction k arbitrary: b xs)
  case (Suc k)
  show ?case
  proof (cases xs)
    case Nil
    with popHead_empty [of b] Suc.prems show ?thesis by auto
  next
    case (Cons x xs')
    from peekHead_spec(2) [OF Suc.prems Cons] obtain b1 where
      "peekHead b = Some ((Some x, True), b1)" "head_ready b1 x xs'" "overflowClosed b1 = overflowClosed b"
      by blast
    with popHead_ready obtain b2 where
      "popHead b = Some ((Some x, True), b2)" "holds b2 xs'" "overflowClosed b2 = overflowClosed b"
      by metis
    with Suc.IH [of b2 xs'] Cons show ?thesis by auto
  qed
qed simp

lemma head_ready_peek: "head_ready b x xs \<Longrightarrow> \<exists>b'. peekHead b = Some ((Some x, True), b') \<and> head_ready b' x xs
    \<and> overflowClosed b' = overflowClosed b"
  by (rule peekHead_spec(2) [OF head_ready_holds refl])

lemma PushAndForward_accept:
  assumes "holds b xs" "\<not> overflowClosed b" "int (length xs) < maxChunkLen"
    and "f (Some (hd (xs @ [t]))) s = (taken, s')"
  shows "\<exists>b'. PushAndForward pick t f s b = Some (taskBufferAccepted, s', b')
    \<and> overflowClosed b' = overflowClosed b \<and> holds b' (if taken then tl (xs @ [t]) else xs @ [t])"
proof -
  obtain x ys where x: "xs @ [t] = x # ys" by (cases "xs @ [t]") auto
  from pushTail_spec [OF assms(1), of pick t] obtain b1 where
    1: "pushTail pick t b = Some b1" "holds b1 (x # ys)" "overflowClosed b1 = overflowClosed b"
    unfolding x by blast
  from peekHead_spec(2) [OF 1(2) refl] obtain b2 where
    2: "peekHead b1 = Some ((Some x, True), b2)" "head_ready b2 x ys" "overflowClosed b2 = overflowClosed b1"
    by blast
  from head_ready_peek [OF 2(2)] popHead_ready obtain b3 where
    3: "popHead b2 = Some ((Some x, True), b3)" "holds b3 ys" "overflowClosed b3 = overflowClosed b2"
    by metis
  have "\<not> chunkLen b \<ge> maxChunkLen" using assms(1,3) by (simp add: holds_len)
  with assms(2,4) 1 2 3 x head_ready_holds [OF 2(2)] show ?thesis
    by (simp add: PushAndForward_def)
qed

interpretation chunked: overflow_queue holds overflowClosed maxChunkLen PushAndForward PopBatch
  Buffer_Close Buffer_Len
proof (unfold_locales, goal_cases)
  case (1 b xs r t f s)
  then show ?case by (auto simp: PushAndForward_def holds_len)
next
  case (2 b xs f t s taken s' r)
  then show ?case by (rule PushAndForward_accept)
next
  case (3 b xs k)
  then show ?case by (rule PopBatch_spec)
qed (auto simp: holds_close Buffer_Len_def holds_len, simp add: Buffer_Close_def)

lemma newChunkedTaskBuffer_open: "overflowClosed newChunkedTaskBuffer = False"
  by (simp add: newChunkedTaskBuffer_def)

section \<open>The property\<close>

text \<open>
  C10.  The overflow buffer, from its creation on and for every sequence of \<open>PushAndForward\<close>,
  \<open>PopBatch\<close>, \<open>Close\<close> and \<open>Len\<close> calls, every forwarding callback and every reuse of recycled chunks:
  no call panics, and each returns what one FIFO list with a capacity of 100000 and a closed flag
  would return, so no task is lost, duplicated or reordered.
\<close>

theorem taskBuf_refines_queue:
  "map_option fst (buffer_run PushAndForward PopBatch Buffer_Close Buffer_Len f calls (s, newChunkedTaskBuffer))
     = Some (fst (queue_run maxChunkLen f calls (s, False, [])))"
  by (simp only: chunked.buffer_run_sim [OF holds_new] newChunkedTaskBuffer_open)

end
