(* ===== verification/Go_Float64.thy ===== *)
theory Go_Float64
  imports Complex_Main "HOL-Library.Log_Nat" Go_Prelude
begin

text \<open>
  Go's \<open>float64\<close>: IEEE binary64 with rounding to nearest, ties to even.  Finite values are the
  rationals they denote (the two zeros are one value: no code of the pool divides by zero or
  inspects the sign of zero), next to the infinities and NaN.  A conversion to \<open>int64\<close> of a value
  out of range is implementation-dependent in Go; it is the parameter \<open>oor\<close> of the functions that
  convert.
\<close>

section \<open>Rounding\<close>

datatype float64 = Fin rat | PosInf | NegInf | NaN

definition round_even :: "rat \<Rightarrow> int" where
  "round_even x =
     (let f = \<lfloor>x\<rfloor>; d = x - of_int f
      in if d < 1 / 2 then f else if d > 1 / 2 then f + 1 else if even f then f else f + 1)"

text \<open>The binary exponent of a positive rational, from the bit lengths of its parts.\<close>

definition ilog2 :: "rat \<Rightarrow> int" where
  "ilog2 q =
     (let (n, d) = quotient_of q; e = bitlen n - bitlen d in if 2 powi e \<le> q then e else e - 1)"

definition round64 :: "rat \<Rightarrow> float64" where
  "round64 q =
     (if q = 0 then Fin 0
      else
        let e = max (- 1074) (ilog2 \<bar>q\<bar> - 52);
            r = of_int (round_even (q / 2 powi e)) * 2 powi e
        in if r \<ge> 2 ^ 1024 then PosInf else if r \<le> - (2 ^ 1024) then NegInf else Fin r)"

lemma round_even_int [simp]: "round_even (of_int m) = m"
  by (simp add: round_even_def)

lemma ilog2_lower:
  assumes "0 < q"
  shows "2 powi ilog2 q \<le> q"
proof -
  obtain n d where nd: "quotient_of q = (n, d)" by fastforce
  have d: "0 < d" using quotient_of_denom_pos [OF nd] .
  have q: "q = of_int n / of_int d" using quotient_of_div [OF nd] .
  have n: "0 < n" using assms q d by (simp add: zero_less_divide_iff)
  have bn: "2 ^ nat (bitlen n - 1) \<le> n" using bitlen_bounds [OF n] by simp
  have bd: "d < 2 ^ nat (bitlen d)" using bitlen_bounds [OF d] by simp
  have b1: "1 \<le> bitlen n" using n by (simp add: bitlen_alt_def)
  have "(2 :: rat) powi (bitlen n - bitlen d - 1) = 2 powi ((bitlen n - 1) - bitlen d)"
    by (simp add: algebra_simps)
  also have "\<dots> = 2 ^ nat (bitlen n - 1) / 2 ^ nat (bitlen d)"
    using b1 by (simp add: power_int_diff power_int_nonneg_exp bitlen_nonneg del: power_int_add_numeral)
  also have "\<dots> \<le> of_int n / of_int d"
  proof (rule frac_le)
    have "(of_int (2 ^ nat (bitlen n - 1)) :: rat) \<le> of_int n" using bn by (simp only: of_int_le_iff)
    then show "(2 :: rat) ^ nat (bitlen n - 1) \<le> of_int n" by simp
    have "(of_int d :: rat) \<le> of_int (2 ^ nat (bitlen d))" using bd by (simp only: of_int_le_iff)
    then show "(of_int d :: rat) \<le> 2 ^ nat (bitlen d)" by simp
  qed (use n d in simp_all)
  finally have "(2 :: rat) powi (bitlen n - bitlen d - 1) \<le> q" by (simp add: q)
  then show ?thesis by (simp add: ilog2_def nd Let_def)
qed

text \<open>Values with at most 53 significant bits are represented exactly.\<close>

lemma round64_exact:
  assumes "\<bar>m\<bar> < 2 ^ 53" "- 1074 \<le> e" "\<bar>of_int m * 2 powi e\<bar> < (2 ^ 1024 :: rat)"
  shows "round64 (of_int m * 2 powi e) = Fin (of_int m * 2 powi e)"
proof (cases "m = 0")
  case True
  then show ?thesis by (simp add: round64_def)
next
  case False
  let ?q = "of_int m * 2 powi e :: rat"
  define e' where "e' = max (- 1074) (ilog2 \<bar>?q\<bar> - 52)"
  have q: "?q \<noteq> 0" "0 < \<bar>?q\<bar>" using False by simp_all
  have "\<bar>?q\<bar> < 2 ^ 53 * 2 powi e"
  proof -
    have "(of_int \<bar>m\<bar> :: rat) < of_int (2 ^ 53)" using assms(1) by (simp only: of_int_less_iff)
    then show ?thesis by (simp add: abs_mult)
  qed
  also have "\<dots> = 2 powi (53 + e)" by (simp add: power_int_add)
  finally have "2 powi ilog2 \<bar>?q\<bar> < (2 powi (53 + e) :: rat)"
    using ilog2_lower [OF q(2)] by linarith
  then have "ilog2 \<bar>?q\<bar> < 53 + e"
    using power_int_increasing [of "53 + e" "ilog2 \<bar>?q\<bar>" "2 :: rat"] by (cases "ilog2 \<bar>?q\<bar> < 53 + e") simp_all
  then have e: "e' \<le> e" using assms(2) by (simp add: e'_def)
  then have "?q / 2 powi e' = of_int (m * 2 ^ nat (e - e'))"
    by (simp add: power_int_diff flip: power_int_nonneg_exp)
  then have "round_even (?q / 2 powi e') = m * 2 ^ nat (e - e')"
    by (simp only: round_even_int)
  then have "of_int (round_even (?q / 2 powi e')) * 2 powi e' = ?q"
    using e by (simp add: power_int_diff flip: power_int_nonneg_exp)
  then have "round64 ?q = (if ?q \<ge> 2 ^ 1024 then PosInf else if ?q \<le> - (2 ^ 1024) then NegInf else Fin ?q)"
    using q(1) unfolding round64_def Let_def e'_def [symmetric] by simp
  then show ?thesis using assms(3) by (simp add: abs_less_iff)
qed

lemma round64_int:
  assumes "\<bar>m\<bar> < 2 ^ 53"
  shows "round64 (of_int m) = Fin (of_int m)"
proof -
  have "\<bar>of_int m :: rat\<bar> < of_int (2 ^ 53)"
    using assms by (simp only: of_int_abs [symmetric] of_int_less_iff)
  also have "\<dots> \<le> 2 ^ 1024" by simp
  finally show ?thesis using round64_exact [OF assms, of 0] by simp
qed

section \<open>Operations\<close>

definition f_of_int :: "int \<Rightarrow> float64" where
  "f_of_int i = round64 (of_int i)"

fun fadd :: "float64 \<Rightarrow> float64 \<Rightarrow> float64" where
  "fadd (Fin a) (Fin b) = round64 (a + b)"
| "fadd NaN _ = NaN"
| "fadd _ NaN = NaN"
| "fadd PosInf NegInf = NaN"
| "fadd NegInf PosInf = NaN"
| "fadd PosInf _ = PosInf"
| "fadd _ PosInf = PosInf"
| "fadd NegInf _ = NegInf"
| "fadd _ NegInf = NegInf"

fun fneg :: "float64 \<Rightarrow> float64" where
  "fneg (Fin a) = Fin (- a)"
| "fneg PosInf = NegInf"
| "fneg NegInf = PosInf"
| "fneg NaN = NaN"

definition fsub :: "float64 \<Rightarrow> float64 \<Rightarrow> float64" where
  "fsub a b = fadd a (fneg b)"

text \<open>An infinity with the sign of \<open>a\<close>; the product of an infinity and zero is NaN.\<close>

definition inf_sgn :: "rat \<Rightarrow> float64" where
  "inf_sgn a = (if a > 0 then PosInf else if a < 0 then NegInf else NaN)"

fun fmul :: "float64 \<Rightarrow> float64 \<Rightarrow> float64" where
  "fmul (Fin a) (Fin b) = round64 (a * b)"
| "fmul NaN _ = NaN"
| "fmul _ NaN = NaN"
| "fmul PosInf (Fin b) = inf_sgn b"
| "fmul (Fin a) PosInf = inf_sgn a"
| "fmul NegInf (Fin b) = inf_sgn (- b)"
| "fmul (Fin a) NegInf = inf_sgn (- a)"
| "fmul PosInf PosInf = PosInf"
| "fmul NegInf NegInf = PosInf"
| "fmul PosInf NegInf = NegInf"
| "fmul NegInf PosInf = NegInf"

fun fdiv :: "float64 \<Rightarrow> float64 \<Rightarrow> float64" where
  "fdiv (Fin a) (Fin b) = (if b = 0 then inf_sgn a else round64 (a / b))"
| "fdiv NaN _ = NaN"
| "fdiv _ NaN = NaN"
| "fdiv (Fin a) _ = Fin 0"
| "fdiv PosInf (Fin b) = (if b \<ge> 0 then PosInf else NegInf)"
| "fdiv NegInf (Fin b) = (if b \<ge> 0 then NegInf else PosInf)"
| "fdiv _ _ = NaN"

text \<open>Comparisons with NaN are false.\<close>

fun fless :: "float64 \<Rightarrow> float64 \<Rightarrow> bool" where
  "fless (Fin a) (Fin b) = (a < b)"
| "fless NaN _ = False"
| "fless _ NaN = False"
| "fless NegInf b = (b \<noteq> NegInf)"
| "fless a PosInf = (a \<noteq> PosInf)"
| "fless _ _ = False"

definition feq :: "float64 \<Rightarrow> float64 \<Rightarrow> bool" where
  "feq a b \<longleftrightarrow> a = b \<and> a \<noteq> NaN"

definition fle :: "float64 \<Rightarrow> float64 \<Rightarrow> bool" where
  "fle a b \<longleftrightarrow> fless a b \<or> feq a b"

text \<open>The built-in \<open>min\<close> is NaN when an operand is.\<close>

definition fmin :: "float64 \<Rightarrow> float64 \<Rightarrow> float64" where
  "fmin a b = (if a = NaN \<or> b = NaN then NaN else if fless b a then b else a)"

definition trunc_rat :: "rat \<Rightarrow> int" where
  "trunc_rat q = (if q \<ge> 0 then \<lfloor>q\<rfloor> else \<lceil>q\<rceil>)"

fun f_to_int64 :: "(float64 \<Rightarrow> int) \<Rightarrow> float64 \<Rightarrow> int" where
  "f_to_int64 oor (Fin q) = (let t = trunc_rat q in if in_int64 t then t else oor (Fin q))"
| "f_to_int64 oor x = oor x"

lemma trunc_rat_int [simp]: "trunc_rat (of_int i) = i"
  by (simp add: trunc_rat_def)

lemma f_of_int_exact: "\<bar>m\<bar> < 2 ^ 53 \<Longrightarrow> f_of_int m = Fin (of_int m)"
  by (simp add: f_of_int_def round64_int)

lemma f_to_int64_int: "in_int64 i \<Longrightarrow> f_to_int64 oor (Fin (of_int i)) = i"
  by (simp add: Let_def)

end
