(* ===== verification/Histogram.thy ===== *)
theory Histogram
  imports Go_Float64 "HOL-Library.Sublist"
begin

text \<open>
  \<open>histogram.go\<close>: a fixed-bucket histogram over the last \<open>windowSize\<close> samples, kept incrementally in
  a ring of bucket indices, and its approximate median.  The reference is the plain list of the last
  samples: the counts are its frequencies and the median is the bucket of the middle element of the
  sorted list.
\<close>

section \<open>Model\<close>

record bucketDef =
  low :: int
  high :: int

record histogram =
  buckets :: "bucketDef list"
  counts :: "int list"
  total :: int
  samples :: "nat list"
  pos :: nat
  filled :: bool

abbreviation bucket :: "int \<Rightarrow> int \<Rightarrow> bucketDef" where
  "bucket l h \<equiv> \<lparr>low = l, high = h\<rparr>"

definition submitBuckets :: "bucketDef list" where
  "submitBuckets =
     [bucket 0 0, bucket 1 5, bucket 6 20, bucket 21 100, bucket 101 500, bucket 501 2000,
      bucket 2001 10000, bucket 10001 (- 1)]"

definition consumeBuckets :: "bucketDef list" where
  "consumeBuckets =
     [bucket 0 0, bucket 1 5, bucket 6 20, bucket 21 100, bucket 101 500, bucket 501 2000,
      bucket 2001 10000, bucket 10001 (- 1)]"

definition exitBuckets :: "bucketDef list" where
  "exitBuckets =
     [bucket 0 0, bucket 1 2, bucket 3 5, bucket 6 10, bucket 11 20, bucket 21 50, bucket 51 100,
      bucket 101 (- 1)]"

definition newHistogram :: "bucketDef list \<Rightarrow> nat \<Rightarrow> histogram" where
  "newHistogram bs windowSize =
     \<lparr>buckets = bs, counts = replicate (length bs) 0, total = 0, samples = replicate windowSize 0,
      pos = 0, filled = False\<rparr>"

definition bucket_matches :: "int \<Rightarrow> bucketDef \<Rightarrow> bool" where
  "bucket_matches value b \<longleftrightarrow> value \<ge> low b \<and> (high b = - 1 \<or> value \<le> high b)"

fun bucketIndexFrom :: "int \<Rightarrow> nat \<Rightarrow> bucketDef list \<Rightarrow> nat option" where
  "bucketIndexFrom value i [] = None"
| "bucketIndexFrom value i (b # bs) =
     (if bucket_matches value b then Some i else bucketIndexFrom value (Suc i) bs)"

definition bucketIndex :: "bucketDef list \<Rightarrow> int \<Rightarrow> nat" where
  "bucketIndex bs value =
     (case bucketIndexFrom value 0 bs of Some i \<Rightarrow> i | None \<Rightarrow> length bs - 1)"

text \<open>\<open>h.counts[i] += d\<close>\<close>

definition bump :: "int list \<Rightarrow> nat \<Rightarrow> int \<Rightarrow> int list option" where
  "bump cs i d = do { c \<leftarrow> go_get cs i; go_set cs i (c + d) }"

definition hist_add :: "int \<Rightarrow> histogram \<Rightarrow> histogram option" where
  "hist_add value h = do {
     let idx = bucketIndex (buckets h) value;
     h1 \<leftarrow> (if filled h then do {
              oldIdx \<leftarrow> go_get (samples h) (pos h);
              cs \<leftarrow> bump (counts h) oldIdx (- 1);
              Some (h\<lparr>counts := cs, total := total h - 1\<rparr>) }
            else Some h);
     ss \<leftarrow> go_set (samples h1) (pos h1) idx;
     cs \<leftarrow> bump (counts h1) idx 1;
     let h2 = h1\<lparr>samples := ss, counts := cs, total := total h1 + 1, pos := pos h1 + 1\<rparr>;
     Some (if pos h2 \<ge> length (samples h2) then h2\<lparr>pos := 0, filled := True\<rparr> else h2) }"

definition bucket_mid :: "bucketDef \<Rightarrow> float64" where
  "bucket_mid b = (if high b = - 1 then f_of_int (low b) else fdiv (f_of_int (low b + high b)) (Fin 2))"

fun median_loop :: "bucketDef list \<Rightarrow> int \<Rightarrow> nat \<Rightarrow> int \<Rightarrow> int list \<Rightarrow> float64 option" where
  "median_loop bs mid i cum [] = Some (Fin 0)"
| "median_loop bs mid i cum (cnt # cs) =
     (let cum' = cum + cnt in
      if cum' > mid then map_option bucket_mid (go_get bs i) else median_loop bs mid (Suc i) cum' cs)"

definition median :: "histogram \<Rightarrow> float64 option" where
  "median h =
     (if total h = 0 then Some (Fin 0)
      else median_loop (buckets h) (go_div (total h) 2) 0 0 (counts h))"

section \<open>The window a histogram stands for\<close>

definition hist_window :: "histogram \<Rightarrow> nat list" where
  "hist_window h = (if filled h then drop (pos h) (samples h) @ take (pos h) (samples h)
                    else take (pos h) (samples h))"

definition hist_inv :: "histogram \<Rightarrow> bool" where
  "hist_inv h \<longleftrightarrow> pos h < length (samples h) \<and> buckets h \<noteq> []
     \<and> (\<forall>i \<in> set (hist_window h). i < length (buckets h))
     \<and> counts h = map (\<lambda>i. int (count_list (hist_window h) i)) [0..<length (buckets h)]
     \<and> total h = int (length (hist_window h))"

text \<open>The reference: the last \<open>n\<close> elements of a list.\<close>

definition last_n :: "nat \<Rightarrow> 'a list \<Rightarrow> 'a list" where
  "last_n n xs = drop (length xs - n) xs"

primrec hist_adds :: "int list \<Rightarrow> histogram \<Rightarrow> histogram option" where
  "hist_adds [] h = Some h"
| "hist_adds (v # vs) h = do { h' \<leftarrow> hist_add v h; hist_adds vs h' }"

subsection \<open>Adding a sample\<close>

lemma bucketIndexFrom_bound:
  "bucketIndexFrom v i bs = Some k \<Longrightarrow> k < i + length bs \<and> i \<le> k \<and> bucket_matches v (bs ! (k - i))"
  by (induction v i bs rule: bucketIndexFrom.induct) (force split: if_splits simp: nth_Cons')+

lemma bucketIndex_bound: "bs \<noteq> [] \<Longrightarrow> bucketIndex bs value < length bs"
  by (auto simp: bucketIndex_def split: option.splits dest: bucketIndexFrom_bound)

lemma bump_counts:
  assumes "i < n"
  shows "bump (map (\<lambda>j. int (f j)) [0..<n]) i d = Some (map (\<lambda>j. int (f j) + (if j = i then d else 0)) [0..<n])"
  using assms by (auto simp: bump_def intro!: nth_equalityI simp: nth_list_update)

lemma count_list_tl: "xs \<noteq> [] \<Longrightarrow> int (count_list (tl xs) i) = int (count_list xs i) - (if i = hd xs then 1 else 0)"
  by (cases xs) auto

text \<open>The new window: append, and drop the oldest sample once the ring has wrapped.\<close>

lemma hist_add_window:
  assumes "hist_inv h"
  obtains h' where "hist_add v h = Some h'" "hist_inv h'" "buckets h' = buckets h"
    "length (samples h') = length (samples h)"
    "hist_window h' = (if filled h then tl (hist_window h) else hist_window h) @ [bucketIndex (buckets h) v]"
    "filled h' \<or> length (hist_window h') < length (samples h')"
proof -
  let ?idx = "bucketIndex (buckets h) v" and ?w = "hist_window h" and ?n = "length (buckets h)"
  let ?base = "if filled h then tl ?w else ?w"
  have i: "pos h < length (samples h)" "buckets h \<noteq> []" "\<forall>i \<in> set ?w. i < ?n"
    "counts h = map (\<lambda>i. int (count_list ?w i)) [0..<?n]" "total h = int (length ?w)"
    using assms by (simp_all add: hist_inv_def)
  have idx: "?idx < ?n" using i(2) by (rule bucketIndex_bound)
  have old: "samples h ! pos h = hd ?w" "?w \<noteq> []" if "filled h"
    using that i(1) by (auto simp: hist_window_def hd_append hd_drop_conv_nth)
  define h1 where "h1 = h\<lparr>counts := map (\<lambda>i. int (count_list ?base i)) [0..<?n], total := int (length ?base)\<rparr>"
  have 1: "(if filled h then do {
              oldIdx \<leftarrow> go_get (samples h) (pos h);
              cs \<leftarrow> bump (counts h) oldIdx (- 1);
              Some (h\<lparr>counts := cs, total := total h - 1\<rparr>) }
            else Some h) = Some h1"
  proof (cases "filled h")
    case True
    with old have "hd ?w < ?n" using i(3) by (simp add: hd_in_set)
    with True old i show ?thesis
      by (auto simp: bump_counts h1_def count_list_tl of_nat_diff Suc_leI)
  next
    case False
    with i(4,5) show ?thesis by (simp add: h1_def)
  qed
  let ?cs = "map (\<lambda>i. int (count_list (?base @ [?idx]) i)) [0..<?n]"
  let ?h2 = "h1\<lparr>samples := (samples h)[pos h := ?idx], counts := ?cs, total := int (length ?base) + 1, pos := pos h + 1\<rparr>"
  let ?h' = "if pos h + 1 \<ge> length (samples h) then ?h2\<lparr>pos := 0, filled := True\<rparr> else ?h2"
  have bmp: "bump (counts h1) ?idx 1 = Some ?cs"
    using idx by (auto simp: h1_def bump_counts)
  have h1: "samples h1 = samples h" "pos h1 = pos h" "total h1 = int (length ?base)"
    by (simp_all add: h1_def)
  have add: "hist_add v h = Some ?h'"
    unfolding hist_add_def Let_def 1 using i(1) by (simp add: bmp h1 del: upt_Suc count_list_append)
  have win: "hist_window ?h' = ?base @ [?idx]"
    using i(1)
    by (auto simp: hist_window_def h1_def upd_conv_take_nth_drop tl_append2 tl_drop drop_Suc [symmetric])
  have "hist_inv ?h'"
    unfolding hist_inv_def win using i idx set_mono_suffix [OF suffix_tl, of ?w]
    by (auto simp: h1_def)
  then show ?thesis
    using that [OF add] win i(1) by (auto simp: h1_def hist_window_def)
qed

subsection \<open>Any number of samples\<close>

lemma last_n_snoc: "last_n n (xs @ [x]) = (if length xs < n then last_n n xs @ [x] else tl (last_n n xs @ [x]))"
  if "0 < n"
  using that by (auto simp: last_n_def drop_Suc tl_drop [symmetric] Suc_diff_le tl_append2)

lemma hist_new_inv: "bs \<noteq> [] \<Longrightarrow> 0 < n \<Longrightarrow> hist_inv (newHistogram bs n)"
  by (auto simp: hist_inv_def newHistogram_def hist_window_def intro: nth_equalityI)

text \<open>From any state in which the ring holds the last samples, it keeps holding them.\<close>

lemma hist_adds_window:
  "hist_inv h \<Longrightarrow> buckets h = bs \<Longrightarrow> length (samples h) = n \<Longrightarrow>
   hist_window h = last_n n (map (bucketIndex bs) us) \<Longrightarrow> filled h = (n \<le> length us) \<Longrightarrow>
   \<exists>h'. hist_adds vs h = Some h' \<and> hist_inv h' \<and> buckets h' = bs
      \<and> hist_window h' = last_n n (map (bucketIndex bs) (us @ vs))"
proof (induction vs arbitrary: h us)
  case (Cons v vs)
  obtain h1 where 1: "hist_add v h = Some h1" "hist_inv h1" "buckets h1 = bs" "length (samples h1) = n"
    "hist_window h1 = (if filled h then tl (hist_window h) else hist_window h) @ [bucketIndex bs v]"
    "filled h1 \<or> length (hist_window h1) < n" "filled h1 \<longrightarrow> length (hist_window h1) = n"
    using hist_add_window [OF Cons.prems(1), of v] Cons.prems(2,3) by (metis append_take_drop_id hist_window_def length_append add.commute)
  have n: "0 < n" using Cons.prems(1,3) by (auto simp: hist_inv_def)
  have len: "length (hist_window h) = min n (length us)"
    using Cons.prems(4) by (simp add: last_n_def)
  have w: "hist_window h1 = last_n n (map (bucketIndex bs) (us @ [v]))"
  proof (cases "filled h")
    case True
    then have "hist_window h \<noteq> []" using len n Cons.prems(5) by auto
    with True 1(5) Cons.prems(4,5) show ?thesis
      by (simp add: last_n_snoc [OF n] tl_append2)
  next
    case False
    with 1(5) Cons.prems(4,5) show ?thesis by (simp add: last_n_snoc [OF n])
  qed
  have "filled h1 = (n \<le> length (us @ [v]))"
    using 1(6,7) w by (auto simp: last_n_def)
  from Cons.IH [OF 1(2-4) w this] 1(1) show ?case by simp
qed simp

subsection \<open>The median\<close>

lemma sorted_nth_le_iff:
  "sorted ys \<Longrightarrow> k < length ys \<Longrightarrow> ys ! k \<le> (i :: nat) \<longleftrightarrow> k < length (filter (\<lambda>y. y \<le> i) ys)"
proof (induction ys arbitrary: k)
  case (Cons y ys)
  show ?case
  proof (cases "y \<le> i")
    case True
    with Cons show ?thesis by (cases k) auto
  next
    case False
    with Cons.prems have "filter (\<lambda>y. y \<le> i) ys = []" "\<not> (y # ys) ! k \<le> i"
      by (auto simp: filter_empty_conv nth_Cons' dest: order_trans [OF _ le_trans] bspec [OF _ nth_mem])
    with False show ?thesis by simp
  qed
qed simp

lemma count_below_Suc:
  "length (filter (\<lambda>y. y < Suc i) xs) = length (filter (\<lambda>y. y < i) xs) + count_list xs i"
  by (induction xs) (auto simp: less_Suc_eq)

lemma median_loop_spec:
  assumes "\<And>i. i < length cs \<Longrightarrow> cs ! i = int (count_list w (j + i))"
    and "cum = int (length (filter (\<lambda>y. y < j) w))"
    and "mid < length w" "j \<le> sort w ! mid" "sort w ! mid < j + length cs"
  shows "median_loop bs (int mid) j cum cs = map_option bucket_mid (go_get bs (sort w ! mid))"
  using assms
proof (induction cs arbitrary: j cum)
  case (Cons c cs)
  let ?m = "sort w ! mid"
  have c: "c = int (count_list w j)" using Cons.prems(1) [of 0] by simp
  have cum: "cum + c = int (length (filter (\<lambda>y. y < Suc j) w))"
    using Cons.prems(2) c by (simp add: count_below_Suc)
  have "?m \<le> j \<longleftrightarrow> mid < length (filter (\<lambda>y. y \<le> j) (sort w))"
    using Cons.prems(3) by (intro sorted_nth_le_iff) simp_all
  then have iff: "?m \<le> j \<longleftrightarrow> mid < length (filter (\<lambda>y. y < Suc j) w)"
    by (simp add: less_Suc_eq_le filter_sort)
  show ?case
  proof (cases "?m \<le> j")
    case True
    with iff cum Cons.prems(4) show ?thesis by (simp add: Let_def)
  next
    case False
    have "median_loop bs (int mid) (Suc j) (cum + c) cs = map_option bucket_mid (go_get bs ?m)"
      using Cons.prems False cum by (intro Cons.IH) (force simp: nth_Cons' split: if_splits)+
    with False iff cum show ?thesis by (simp add: Let_def)
  qed
qed simp

lemma median_window:
  assumes "hist_inv h" "hist_window h \<noteq> []"
  shows "median h = Some (bucket_mid (buckets h ! (sort (hist_window h) ! (length (hist_window h) div 2))))"
proof -
  let ?w = "hist_window h" and ?n = "length (buckets h)"
  let ?mid = "length ?w div 2"
  have mid: "?mid < length ?w" using assms(2) by (cases ?w) auto
  then have "sort ?w ! ?mid \<in> set ?w" by (metis length_sort nth_mem set_sort)
  then have m: "sort ?w ! ?mid < ?n" using assms(1) by (simp add: hist_inv_def)
  have "median_loop (buckets h) (int ?mid) 0 0 (counts h) = map_option bucket_mid (go_get (buckets h) (sort ?w ! ?mid))"
    using assms(1) mid m by (intro median_loop_spec) (auto simp: hist_inv_def)
  moreover have "total h \<noteq> 0" "go_div (total h) 2 = int ?mid"
    using assms by (auto simp: hist_inv_def zdiv_int)
  ultimately show ?thesis using m by (simp add: median_def)
qed

section \<open>The median of the samples themselves\<close>

lemma sorted_map_mono_on: "sorted xs \<Longrightarrow> mono_on (set xs) f \<Longrightarrow> sorted (map f xs)"
  by (induction xs) (auto simp: mono_on_def)

lemma sort_map_mono:
  assumes "mono_on (set xs) f"
  shows "sort (map f xs) = map f (sort (xs :: 'a :: linorder list))"
proof (rule properties_for_sort)
  show "sorted (map f (sort xs))"
    using sorted_sort [of xs] by (rule sorted_map_mono_on) (use assms in simp)
qed simp

lemmas bucket_tables = submitBuckets_def consumeBuckets_def exitBuckets_def

lemma bucketIndex_mono:
  assumes "bs \<in> {submitBuckets, consumeBuckets, exitBuckets}" "0 \<le> u" "u \<le> v"
  shows "bucketIndex bs u \<le> bucketIndex bs v"
  using assms by (auto simp: bucketIndex_def bucket_tables bucket_matches_def)

lemma bucketIndex_submit:
  "0 \<le> v \<Longrightarrow> bucketIndex submitBuckets v =
     (if v = 0 then 0 else if v \<le> 5 then 1 else if v \<le> 20 then 2 else if v \<le> 100 then 3
      else if v \<le> 500 then 4 else if v \<le> 2000 then 5 else if v \<le> 10000 then 6 else 7)"
  by (simp add: bucketIndex_def submitBuckets_def bucket_matches_def)

lemma bucketIndex_exit:
  "0 \<le> v \<Longrightarrow> bucketIndex exitBuckets v =
     (if v = 0 then 0 else if v \<le> 2 then 1 else if v \<le> 5 then 2 else if v \<le> 10 then 3
      else if v \<le> 20 then 4 else if v \<le> 50 then 5 else if v \<le> 100 then 6 else 7)"
  by (simp add: bucketIndex_def exitBuckets_def bucket_matches_def)

lemma consume_submit: "consumeBuckets = submitBuckets"
  by (simp add: bucket_tables)

lemma bucketIndex_matches:
  assumes "bs \<in> {submitBuckets, consumeBuckets, exitBuckets}" "0 \<le> v"
  shows "bucket_matches v (bs ! bucketIndex bs v)"
  using assms
  by (auto simp: consume_submit bucketIndex_submit bucketIndex_exit)
    (auto simp: bucket_tables bucket_matches_def)

lemma last_n_map: "last_n n (map f xs) = map f (last_n n xs)"
  by (simp add: last_n_def drop_map)

text \<open>The middle element of the last samples, in sorted order (the upper one of two).\<close>

definition sample_median :: "nat \<Rightarrow> int list \<Rightarrow> int" where
  "sample_median n vs = sort (last_n n vs) ! (length (last_n n vs) div 2)"

lemma sample_median_bucket:
  assumes "mono_on (set vs) f" "vs \<noteq> []" "0 < n"
  shows "sort (last_n n (map f vs)) ! (length (last_n n (map f vs)) div 2) = f (sample_median n vs)"
proof -
  have "set (last_n n vs) \<subseteq> set vs" by (simp add: last_n_def set_drop_subset)
  then have "sort (last_n n (map f vs)) = map f (sort (last_n n vs))"
    using assms(1) by (simp add: last_n_map sort_map_mono mono_on_subset)
  moreover have "length (last_n n vs) div 2 < length (last_n n vs)"
    using assms(2,3) by (simp add: last_n_def)
  ultimately show ?thesis by (simp add: sample_median_def last_n_map)
qed

lemma bucket_mid_exact:
  assumes "\<bar>low b\<bar> < 2 ^ 53" "\<bar>low b + high b\<bar> < 2 ^ 53"
  shows "bucket_mid b = Fin (if high b = - 1 then of_int (low b) else (of_int (low b) + of_int (high b)) / 2)"
proof -
  let ?m = "low b + high b"
  have "\<bar>of_int ?m\<bar> < (2 ^ 53 :: rat)" using assms(2) by (metis of_int_abs of_int_less_iff of_int_numeral of_int_power)
  then have "\<bar>of_int ?m * 2 powi (- 1)\<bar> < (2 ^ 1024 :: rat)" by (simp add: abs_mult field_simps)
  from round64_exact [OF assms(2) _ this] have "round64 (of_int ?m / 2) = Fin (of_int ?m / 2)" by (simp add: field_simps)
  with assms show ?thesis by (simp add: bucket_mid_def f_of_int_exact)
qed

lemma table_mids: "bs \<in> {submitBuckets, consumeBuckets, exitBuckets} \<Longrightarrow> b \<in> set bs \<Longrightarrow> \<bar>low b\<bar> < 2 ^ 53 \<and> \<bar>low b + high b\<bar> < 2 ^ 53"
  by (auto simp: bucket_tables)

text \<open>
  C15.  After any sequence of samples, the histogram never panicked and its median is the midpoint of
  the bucket that contains the true median of the last \<open>windowSize\<close> samples: half the sum of its ends, without rounding error,
  and the lower end for the bucket that is open above.
\<close>

theorem median_of_last_samples:
  assumes "bs \<in> {submitBuckets, consumeBuckets, exitBuckets}" "0 < n" "vs \<noteq> []" "\<forall>v \<in> set vs. 0 \<le> v"
  shows "hist_adds vs (newHistogram bs n) \<bind> median = Some (bucket_mid (bs ! bucketIndex bs (sample_median n vs)))
    \<and> bucket_matches (sample_median n vs) (bs ! bucketIndex bs (sample_median n vs))
    \<and> (let b = bs ! bucketIndex bs (sample_median n vs) in
         bucket_mid b = Fin (if high b = - 1 then of_int (low b) else (of_int (low b) + of_int (high b)) / 2))"
proof -
  let ?f = "bucketIndex bs"
  have bs: "bs \<noteq> []" using assms(1) by (auto simp: bucket_tables)
  obtain h where h: "hist_adds vs (newHistogram bs n) = Some h" "hist_inv h" "buckets h = bs"
    "hist_window h = last_n n (map ?f vs)"
    using hist_adds_window [OF hist_new_inv [OF bs assms(2)], of bs n "[]" vs] assms(2)
    by (auto simp: newHistogram_def hist_window_def last_n_def)
  have "mono_on (set vs) ?f" using assms(1,4) by (auto intro!: mono_onI bucketIndex_mono)
  note m = sample_median_bucket [OF this assms(3,2)]
  have "hist_window h \<noteq> []" using h(4) assms(2,3) by (cases vs) (simp_all add: last_n_def)
  from median_window [OF h(2) this] have "median h = Some (bucket_mid (bs ! ?f (sample_median n vs)))"
    unfolding h(3,4) m .
  moreover have "sample_median n vs \<in> set (last_n n vs)"
    using assms(2,3) nth_mem [of "length (last_n n vs) div 2" "sort (last_n n vs)"]
    by (simp add: sample_median_def last_n_def)
  then have "0 \<le> sample_median n vs" using assms(4) by (auto simp: last_n_def dest: in_set_dropD)
  moreover have "?f (sample_median n vs) < length bs" using bs by (simp add: bucketIndex_bound)
  then have "bs ! ?f (sample_median n vs) \<in> set bs" by (rule nth_mem)
  with bucket_mid_exact table_mids [OF assms(1)]
  have "let b = bs ! ?f (sample_median n vs) in bucket_mid b = Fin (if high b = - 1 then of_int (low b) else (of_int (low b) + of_int (high b)) / 2)"
    unfolding Let_def by blast
  ultimately show ?thesis using h(1) bucketIndex_matches [OF assms(1)] by simp
qed

theorem median_of_last_samples_witness:
  "hist_adds [7, 900, 30, 2, 40] (newHistogram submitBuckets 3) \<bind> median = Some (Fin (121 / 2))"
  using median_of_last_samples [of submitBuckets 3 "[7, 900, 30, 2, 40]"]
  by (simp add: sample_median_def last_n_def bucketIndex_def bucket_matches_def submitBuckets_def Let_def)

end
