(* ===== verification/Task.thy ===== *)
theory Task
  imports Go_Float64
begin

unbundle bit_operations_syntax

text \<open>
  \<open>task.go\<close> and the task wrappers of \<open>pool.go\<close> (\<open>contextTask\<close>, \<open>UpdateTask\<close>, \<open>isNilTask\<close>, the closure of
  \<open>SubmitBefore\<close>).  User code is not under the program's control: a \<open>func() error\<close> is the outcome of
  its successive calls, each of which returns nil, returns an error or panics.  Running a task
  yields the trace of calls and sleeps and the panic that ends it, if any.
\<close>

section \<open>Model\<close>

datatype outcome = RetNil | RetErr string | Panics string

type_synonym user_fn = "nat \<Rightarrow> outcome"

datatype task_event = Call nat | Sleep duration

record TaskWithRetry =
  MinBackOff :: duration
  MaxBackOff :: duration
  RetryNum :: "64 word"
  BackOffStrategy :: "(duration \<Rightarrow> duration \<Rightarrow> 64 word \<Rightarrow> string + duration) option"
  RTask :: "user_fn option"

definition nil_deref :: string where
  "nil_deref = ''nil dereference''"

text \<open>The result of attempt \<open>i\<close>: calling a nil function panics.\<close>

definition task_call :: "user_fn option \<Rightarrow> nat \<Rightarrow> outcome" where
  "task_call f i = (case f of None \<Rightarrow> Panics nil_deref | Some g \<Rightarrow> g i)"

text \<open>
  A \<open>Task\<close> interface value: nil, or one of the types of the package holding a possibly nil value, or
  a foreign implementation.  A \<open>TaskFunc\<close> is a user function or the closure that \<open>SubmitBefore\<close>
  builds over a context and the submitted task.
\<close>

datatype 'c Task =
    NilTask
  | TaskFunc "'c task_fn option"
  | RetryTask "TaskWithRetry option"
  | ContextTask "('c \<times> 'c Task) option"
  | OtherTask user_fn
and 'c task_fn =
    UserFn user_fn
  | DeadlineFn 'c "'c Task"

definition NewTask :: "user_fn option \<Rightarrow> 'c Task" where
  "NewTask fn = TaskFunc (map_option UserFn fn)"

text \<open>\<open>UpdateTask\<close>: a nil context becomes the background context.\<close>

definition UpdateTask :: "'c \<Rightarrow> 'c option \<Rightarrow> 'c Task \<Rightarrow> 'c Task" where
  "UpdateTask background ctx task =
     ContextTask (Some (case ctx of None \<Rightarrow> background | Some c \<Rightarrow> c, task))"

fun isNilTask :: "'c Task \<Rightarrow> bool" where
  "isNilTask NilTask = True"
| "isNilTask (TaskFunc t) = (t = None)"
| "isNilTask (RetryTask t) = (t = None)"
| "isNilTask (ContextTask None) = True"
| "isNilTask (ContextTask (Some (ctx, t))) = isNilTask t"
| "isNilTask (OtherTask f) = False"

subsection \<open>Retry\<close>

text \<open>\<open>math.Pow(2, float64(n))\<close>: exact below the overflow threshold.\<close>

definition pow2 :: "64 word \<Rightarrow> float64" where
  "pow2 n = (if unat n < 1024 then Fin (2 ^ unat n) else PosInf)"

definition defaultBackOffStrategy :: "(float64 \<Rightarrow> int) \<Rightarrow> duration \<Rightarrow> duration \<Rightarrow> 64 word \<Rightarrow> duration" where
  "defaultBackOffStrategy oor mn mx retryNum =
     (let mult = fmul (pow2 retryNum) (f_of_int mn);
          sleep = f_to_int64 oor mult
      in if \<not> feq (f_of_int sleep) mult \<or> sleep > mx then mx else sleep)"

text \<open>A strategy supplied by the user may panic (\<open>Inl\<close>).\<close>

definition getBackOffTime :: "(float64 \<Rightarrow> int) \<Rightarrow> TaskWithRetry \<Rightarrow> 64 word \<Rightarrow> string + duration" where
  "getBackOffTime oor t retryNum =
     (case BackOffStrategy t of
        Some s \<Rightarrow> s (MinBackOff t) (MaxBackOff t) retryNum
      | None \<Rightarrow> Inr (defaultBackOffStrategy oor (MinBackOff t) (MaxBackOff t) retryNum))"

text \<open>The retry loop from attempt \<open>i\<close> with \<open>k\<close> iterations left; \<open>Call i\<close> is the call of that attempt.\<close>

fun retryLoop :: "(float64 \<Rightarrow> int) \<Rightarrow> TaskWithRetry \<Rightarrow> nat \<Rightarrow> nat \<Rightarrow> task_event list \<times> string option" where
  "retryLoop oor t i 0 = ([], None)"
| "retryLoop oor t i (Suc k) =
     (case getBackOffTime oor t (of_nat i) of
        Inl p \<Rightarrow> ([], Some p)
      | Inr d \<Rightarrow>
          (case task_call (RTask t) i of
             RetNil \<Rightarrow> ([Sleep d, Call i], None)
           | Panics p \<Rightarrow> ([Sleep d, Call i], Some p)
           | RetErr _ \<Rightarrow> (let (es, r) = retryLoop oor t (Suc i) k in (Sleep d # Call i # es, r))))"

text \<open>\<open>for i := 1; i <= int(t.RetryNum); i++\<close>: the conversion reads the unsigned field as signed.\<close>

definition runBackOffStrategy :: "(float64 \<Rightarrow> int) \<Rightarrow> TaskWithRetry \<Rightarrow> task_event list \<times> string option" where
  "runBackOffStrategy oor t = retryLoop oor t 1 (nat (sint (RetryNum t)))"

definition TaskWithRetry_process :: "(float64 \<Rightarrow> int) \<Rightarrow> TaskWithRetry \<Rightarrow> task_event list \<times> string option" where
  "TaskWithRetry_process oor t =
     (case task_call (RTask t) 0 of
        RetNil \<Rightarrow> ([Call 0], None)
      | Panics p \<Rightarrow> ([Call 0], Some p)
      | RetErr _ \<Rightarrow> (let (es, r) = runBackOffStrategy oor t in (Call 0 # es, r)))"

subsection \<open>Running any task\<close>

definition run_user :: "user_fn \<Rightarrow> task_event list \<times> string option" where
  "run_user f = ([Call 0], case f 0 of Panics p \<Rightarrow> Some p | _ \<Rightarrow> None)"

text \<open>
  \<open>process\<close>: \<open>cancelled ctx\<close> is whether \<open>ctx.Err()\<close> is non-nil (equivalently \<open>ctx.Done()\<close> is closed)
  when the worker starts the task.
\<close>

fun process :: "(float64 \<Rightarrow> int) \<Rightarrow> ('c \<Rightarrow> bool) \<Rightarrow> 'c Task \<Rightarrow> task_event list \<times> string option" where
  "process oor cancelled NilTask = ([], Some nil_deref)"
| "process oor cancelled (TaskFunc None) = ([], Some nil_deref)"
| "process oor cancelled (TaskFunc (Some (UserFn f))) = run_user f"
| "process oor cancelled (TaskFunc (Some (DeadlineFn ctx t))) =
     (if cancelled ctx then ([], None) else process oor cancelled t)"
| "process oor cancelled (RetryTask None) = ([], Some nil_deref)"
| "process oor cancelled (RetryTask (Some t)) = TaskWithRetry_process oor t"
| "process oor cancelled (ContextTask None) = ([], Some nil_deref)"
| "process oor cancelled (ContextTask (Some (ctx, t))) =
     (if cancelled ctx then ([], None) else process oor cancelled t)"
| "process oor cancelled (OtherTask f) = run_user f"

section \<open>Backoff\<close>

lemma backoff_le_max: "defaultBackOffStrategy oor mn mx n \<le> mx"
  by (simp add: defaultBackOffStrategy_def Let_def)

lemma exact_bound:
  assumes "0 \<le> mn" "mn * 2 ^ k < 2 ^ 63"
  shows "\<bar>of_int mn * 2 powi int k :: rat\<bar> < 2 ^ 1024"
proof -
  have "(of_int (mn * 2 ^ k) :: rat) < of_int (2 ^ 63)" using assms(2) by (simp only: of_int_less_iff)
  also have "\<dots> \<le> 2 ^ 1024" by simp
  finally show ?thesis using assms(1) by simp
qed

lemma round_product:
  assumes "0 \<le> mn" "mn < 2 ^ 53" "mn * 2 ^ k < 2 ^ 63"
  shows "round64 (of_int (mn * 2 ^ k)) = Fin (of_int (mn * 2 ^ k))"
  using round64_exact [of mn "int k", OF _ _ exact_bound [OF assms(1,3)]] assms(1,2) by simp

text \<open>The converted product is converted back to the same float: no precision was lost.\<close>

lemma f_of_int_product:
  assumes "0 \<le> mn" "mn < 2 ^ 53" "mn * 2 ^ k < 2 ^ 63"
  shows "f_of_int (mn * 2 ^ k) = Fin (of_int (mn * 2 ^ k))"
  unfolding f_of_int_def by (rule round_product [OF assms])

lemma pow2_mult_exact:
  assumes "0 \<le> mn" "mn < 2 ^ 53" "mn * 2 ^ unat n < 2 ^ 63" "unat n < 1024"
  shows "fmul (pow2 n) (f_of_int mn) = Fin (of_int (mn * 2 ^ unat n))"
proof -
  define k where "k = unat n"
  have "fmul (pow2 n) (f_of_int mn) = round64 (of_int (mn * 2 ^ k))"
    using assms(1,2,4) by (simp add: pow2_def f_of_int_exact mult.commute flip: k_def)
  then show ?thesis using round_product [OF assms(1,2), of k] assms(3) by (simp only: k_def)
qed

lemma backoff_exact:
  assumes "0 \<le> mn" "mn < 2 ^ 53" "mn * 2 ^ unat n < 2 ^ 63" "unat n < 1024"
  shows "defaultBackOffStrategy oor mn mx n = min (mn * 2 ^ unat n) mx"
proof -
  have "0 \<le> mn * 2 ^ unat n" using assms(1) by simp
  then have "in_int64 (mn * 2 ^ unat n)" using assms(3) by (simp only: in_int64_def) simp
  then have "f_to_int64 oor (fmul (pow2 n) (f_of_int mn)) = mn * 2 ^ unat n"
    by (simp only: pow2_mult_exact [OF assms] f_to_int64_int)
  then show ?thesis
    unfolding defaultBackOffStrategy_def Let_def
    by (simp add: f_of_int_product [OF assms(1-3)] pow2_mult_exact [OF assms] feq_def min_def
        del: of_int_mult of_int_power)
qed

section \<open>Retry\<close>

definition attempt :: "(nat \<Rightarrow> duration) \<Rightarrow> nat \<Rightarrow> task_event list" where
  "attempt d j = [Sleep (d j), Call j]"

lemma retryLoop_run:
  assumes "\<And>j. i \<le> j \<Longrightarrow> j < i + m \<Longrightarrow> \<exists>e. task_call (RTask t) j = RetErr e"
    and "m \<le> k" "m < k \<longrightarrow> (\<nexists>e. task_call (RTask t) (i + m) = RetErr e)"
    and d: "\<And>j. getBackOffTime oor t (of_nat j) = Inr (d j)"
  shows "fst (retryLoop oor t i k) = concat (map (attempt d) [i..<i + m + (if m < k then 1 else 0)])"
  using assms(1-3)
proof (induction k arbitrary: i m)
  case (Suc k)
  show ?case
  proof (cases m)
    case 0
    with Suc.prems(3) show ?thesis by (auto simp: d attempt_def split: outcome.splits)
  next
    case (Suc m')
    then obtain e where e: "task_call (RTask t) i = RetErr e" using Suc.prems(1) [of i] by auto
    have "fst (retryLoop oor t (Suc i) k)
      = concat (map (attempt d) [Suc i..<Suc i + m' + (if m' < k then 1 else 0)])"
      using Suc.prems Suc by (intro Suc.IH) auto
    moreover have "[i..<i + m + (if m < Suc k then 1 else 0)] = i # [Suc i..<Suc i + m' + (if m' < k then 1 else 0)]"
      using Suc by (simp add: upt_conv_Cons)
    ultimately show ?thesis using e by (simp add: case_prod_beta d attempt_def [of d i] del: upt_Suc)
  qed
qed simp

fun is_call :: "task_event \<Rightarrow> bool" where
  "is_call (Call _) = True"
| "is_call (Sleep _) = False"

lemma retryLoop_calls: "length (filter is_call (fst (retryLoop oor t i k))) \<le> k"
  by (induction oor t i k rule: retryLoop.induct)
    (auto split: outcome.splits sum.splits simp: case_prod_beta Let_def)

lemma sint_small:
  assumes "unat (w :: 64 word) < 2 ^ 63"
  shows "nat (sint w) = unat w"
proof -
  have "int (unat w) < int (2 ^ 63)" using assms by (simp only: of_nat_less_iff)
  then have "signed_take_bit 63 (uint w) = uint w"
    by (intro signed_take_bit_int_eq_self) (simp_all add: order_trans [OF _ uint_ge_0])
  then show ?thesis by (simp add: sint_uint)
qed

lemma sint_large:
  assumes "2 ^ 63 \<le> unat (w :: 64 word)"
  shows "sint w < 0"
proof -
  have "int (2 ^ 63) \<le> int (unat w)" using assms by (simp only: of_nat_le_iff)
  then have "2 ^ 63 \<le> uint w" by simp
  moreover have "uint w < 2 * 2 ^ 63" using uint_lt2p [of w] by simp
  ultimately have "uint w div 2 ^ 63 = 1" by (intro int_div_pos_eq [where r = "uint w - 2 ^ 63"]) auto
  then show ?thesis by (simp add: sint_uint signed_take_bit_negative_iff bit_iff_odd)
qed

text \<open>A \<open>RetryNum\<close> of \<open>2^63\<close> or more is read as a negative bound: there are no retries at all.\<close>

lemma huge_RetryNum_no_retry: "2 ^ 63 \<le> unat (RetryNum t) \<Longrightarrow> runBackOffStrategy oor t = ([], None)"
  using sint_large [of "RetryNum t"] by (simp add: runBackOffStrategy_def)

section \<open>Properties\<close>

text \<open>
  C18.  The default backoff never exceeds \<open>MaxBackOff\<close>, and where the product fits a 64-bit duration and
  \<open>MinBackOff\<close> a double's mantissa it is exactly \<open>min (MinBackOff * 2^retryNum) MaxBackOff\<close>.
\<close>

theorem defaultBackOff_schedule:
  "defaultBackOffStrategy oor mn mx n \<le> mx
   \<and> (0 \<le> mn \<and> mn < 2 ^ 53 \<and> mn * 2 ^ unat n < 2 ^ 63 \<and> unat n < 1024
      \<longrightarrow> defaultBackOffStrategy oor mn mx n = min (mn * 2 ^ unat n) mx)"
  using backoff_le_max backoff_exact by blast

theorem defaultBackOff_schedule_witness:
  "defaultBackOffStrategy (\<lambda>_. 0) 1000000 60000000000 10 = 1024000000"
  using defaultBackOff_schedule [of "\<lambda>_. 0" 1000000 60000000000 10] by simp

text \<open>
  C17.  A retried task is called once, then once after each backoff until it first returns nil (or
  panics) or \<open>RetryNum\<close> retries are spent: with \<open>m\<close> the first attempt that does not fail, the trace is
  the initial call followed by \<open>min m RetryNum\<close> sleeps and calls.
\<close>

theorem TaskWithRetry_attempts:
  assumes "\<forall>j < m. \<exists>e. task_call (RTask t) j = RetErr e"
    and "m \<le> unat (RetryNum t) \<longrightarrow> (\<nexists>e. task_call (RTask t) m = RetErr e)"
    and "m \<le> Suc (unat (RetryNum t))" "unat (RetryNum t) < 2 ^ 63"
    and "\<forall>j. getBackOffTime oor t (of_nat j) = Inr (d j)"
  shows "fst (process oor cancelled (RetryTask (Some t)))
           = Call 0 # concat (map (attempt d) [1..<Suc (min m (unat (RetryNum t)))])"
proof (cases m)
  case 0
  then show ?thesis using assms(2) by (auto simp: TaskWithRetry_process_def split: outcome.splits)
next
  case (Suc m')
  let ?R = "unat (RetryNum t)"
  obtain e where e: "task_call (RTask t) 0 = RetErr e" using assms(1) Suc by auto
  have "fst (retryLoop oor t 1 ?R) = concat (map (attempt d) [1..<1 + m' + (if m' < ?R then 1 else 0)])"
    using assms Suc by (intro retryLoop_run) auto
  also have "1 + m' + (if m' < ?R then 1 else 0) = Suc (min m ?R)" using assms(3) Suc by auto
  finally show ?thesis
    using e by (simp add: TaskWithRetry_process_def runBackOffStrategy_def sint_small [OF assms(4)]
        case_prod_beta del: upt_Suc)
qed

theorem TaskWithRetry_attempts_witness:
  "fst (process (\<lambda>_. 0) (\<lambda>_ :: unit. False)
     (RetryTask (Some \<lparr>MinBackOff = 5, MaxBackOff = 9, RetryNum = 3,
        BackOffStrategy = Some (\<lambda>a b n. Inr (a + 2)), RTask = Some (\<lambda>i. if i < 2 then RetErr ''e'' else RetNil)\<rparr>)))
   = [Call 0, Sleep 7, Call 1, Sleep 7, Call 2]"
  using TaskWithRetry_attempts [of 2 "\<lparr>MinBackOff = 5, MaxBackOff = 9, RetryNum = 3,
      BackOffStrategy = Some (\<lambda>a b n. Inr (a + 2)), RTask = Some (\<lambda>i. if i < 2 then RetErr ''e'' else RetNil)\<rparr>"
      "\<lambda>_. 0" "\<lambda>_. 7" "\<lambda>_ :: unit. False"]
  by (simp add: task_call_def getBackOffTime_def attempt_def upt_rec)

end
