(* ===== verification/Config.thy ===== *)
theory Config
  imports Go_Float64 Idle_Spec
begin

text \<open>
  \<open>config.go\<close> and the constants of \<open>pool.go\<close>: the tunable parameters, the defaults and the \<open>With*\<close>
  options.  An option is a function on configurations, as the closures of the source are; durations
  are nanoseconds.  The custom panic handler is of the parameter type \<open>'h\<close>.
\<close>

section \<open>Model\<close>

datatype WorkMode = BLOCK | NONBLOCK
datatype LockType = MutexLock | SpinLock

definition Millisecond :: duration where
  "Millisecond = 1000000"

definition Second :: duration where
  "Second = 1000 * Millisecond"

definition defaultCleanPeriod :: duration where
  "defaultCleanPeriod = 500 * Millisecond"

definition defaultTaskQueueSize :: int where
  "defaultTaskQueueSize = 10000"

definition defaultMaxWorkerNumCapacity :: int where
  "defaultMaxWorkerNumCapacity = 2 ^ 63 - 1"

definition defaultStatsSamplePeriod :: duration where
  "defaultStatsSamplePeriod = 100 * Millisecond"

definition defaultStatsWindowSize :: int where
  "defaultStatsWindowSize = 10"

definition defaultScalerPeriod :: duration where
  "defaultScalerPeriod = 10 * Millisecond"

text \<open>The constant \<open>0.3\<close> as the nearest \<open>float64\<close>.\<close>

definition defaultBacklogDecayFactor :: float64 where
  "defaultBacklogDecayFactor = round64 (3 / 10)"

definition defaultZeroConsumeScaleInterval :: duration where
  "defaultZeroConsumeScaleInterval = 100 * Millisecond"

definition defaultMaxZeroConsumeScaleStep :: int where
  "defaultMaxZeroConsumeScaleStep = 64"

record 'h Config =
  cleanPeriod :: duration
  cfg_taskQueueSize :: int
  taskQueueShards :: int
  workerNumCapacity :: int
  workMode :: WorkMode
  idleContainerType :: IdleContainerType
  lockType :: LockType
  statsSamplePeriod :: duration
  statsWindowSize :: int
  scalerPeriod :: duration
  backlogDecayFactor :: float64
  zeroConsumeScaleInterval :: duration
  maxZeroConsumeScaleStep :: int
  cfg_panicHandler :: "'h option"

type_synonym 'h ConfigOption = "'h Config \<Rightarrow> 'h Config"

definition defaultConfig :: "'h Config" where
  "defaultConfig =
     \<lparr>cleanPeriod = defaultCleanPeriod, cfg_taskQueueSize = defaultTaskQueueSize, taskQueueShards = 0,
      workerNumCapacity = defaultMaxWorkerNumCapacity, workMode = BLOCK,
      idleContainerType = LinkedListType, lockType = MutexLock,
      statsSamplePeriod = defaultStatsSamplePeriod, statsWindowSize = defaultStatsWindowSize,
      scalerPeriod = defaultScalerPeriod, backlogDecayFactor = defaultBacklogDecayFactor,
      zeroConsumeScaleInterval = defaultZeroConsumeScaleInterval,
      maxZeroConsumeScaleStep = defaultMaxZeroConsumeScaleStep, cfg_panicHandler = None\<rparr>"

definition NewConfig :: "'h ConfigOption list \<Rightarrow> 'h Config" where
  "NewConfig opts = fold (\<lambda>opt c. opt c) opts defaultConfig"

definition WithCleanPeriod :: "duration \<Rightarrow> 'h ConfigOption" where
  "WithCleanPeriod d c = (if d > 0 then c\<lparr>cleanPeriod := d\<rparr> else c)"

definition WithTaskQueueSize :: "int \<Rightarrow> 'h ConfigOption" where
  "WithTaskQueueSize n c = (if n > 0 then c\<lparr>cfg_taskQueueSize := n\<rparr> else c)"

definition WithTaskQueueShards :: "int \<Rightarrow> 'h ConfigOption" where
  "WithTaskQueueShards n c = c\<lparr>taskQueueShards := n\<rparr>"

definition WithWorkerNumCapacity :: "int \<Rightarrow> 'h ConfigOption" where
  "WithWorkerNumCapacity n c = (if n > 0 then c\<lparr>workerNumCapacity := n\<rparr> else c)"

definition WithBlockMode :: "WorkMode \<Rightarrow> 'h ConfigOption" where
  "WithBlockMode m c = c\<lparr>workMode := m\<rparr>"

definition WithIdleContainerType :: "IdleContainerType \<Rightarrow> 'h ConfigOption" where
  "WithIdleContainerType t c = c\<lparr>idleContainerType := t\<rparr>"

definition WithStatsSamplePeriod :: "duration \<Rightarrow> 'h ConfigOption" where
  "WithStatsSamplePeriod d c = (if d > 0 then c\<lparr>statsSamplePeriod := d\<rparr> else c)"

definition WithStatsWindowSize :: "int \<Rightarrow> 'h ConfigOption" where
  "WithStatsWindowSize n c = (if n > 0 then c\<lparr>statsWindowSize := n\<rparr> else c)"

definition WithScalerPeriod :: "duration \<Rightarrow> 'h ConfigOption" where
  "WithScalerPeriod d c = (if d > 0 then c\<lparr>scalerPeriod := d\<rparr> else c)"

definition WithLockType :: "LockType \<Rightarrow> 'h ConfigOption" where
  "WithLockType t c = c\<lparr>lockType := t\<rparr>"

definition WithBacklogDecayFactor :: "float64 \<Rightarrow> 'h ConfigOption" where
  "WithBacklogDecayFactor f c =
     (if fle (Fin 0) f \<and> fle f (Fin 1) then c\<lparr>backlogDecayFactor := f\<rparr> else c)"

definition WithZeroConsumeScaleInterval :: "duration \<Rightarrow> 'h ConfigOption" where
  "WithZeroConsumeScaleInterval d c = (if d > 0 then c\<lparr>zeroConsumeScaleInterval := d\<rparr> else c)"

definition WithMaxZeroConsumeScaleStep :: "int \<Rightarrow> 'h ConfigOption" where
  "WithMaxZeroConsumeScaleStep n c = (if n > 0 then c\<lparr>maxZeroConsumeScaleStep := n\<rparr> else c)"

definition WithPanicHandler :: "'h option \<Rightarrow> 'h ConfigOption" where
  "WithPanicHandler h c = c\<lparr>cfg_panicHandler := h\<rparr>"

lemmas config_options =
  WithCleanPeriod_def WithTaskQueueSize_def WithTaskQueueShards_def WithWorkerNumCapacity_def
  WithBlockMode_def WithIdleContainerType_def WithStatsSamplePeriod_def WithStatsWindowSize_def
  WithScalerPeriod_def WithLockType_def WithBacklogDecayFactor_def WithZeroConsumeScaleInterval_def
  WithMaxZeroConsumeScaleStep_def WithPanicHandler_def

section \<open>Options a caller can build\<close>

inductive is_option :: "'h ConfigOption \<Rightarrow> bool" where
  "is_option (WithCleanPeriod d)"
| "in_int64 n \<Longrightarrow> is_option (WithTaskQueueSize n)"
| "is_option (WithTaskQueueShards n)"
| "in_int64 n \<Longrightarrow> is_option (WithWorkerNumCapacity n)"
| "is_option (WithBlockMode m)"
| "is_option (WithIdleContainerType t)"
| "is_option (WithStatsSamplePeriod d)"
| "is_option (WithStatsWindowSize n)"
| "is_option (WithScalerPeriod d)"
| "is_option (WithLockType l)"
| "is_option (WithBacklogDecayFactor f)"
| "is_option (WithZeroConsumeScaleInterval d)"
| "is_option (WithMaxZeroConsumeScaleStep n)"
| "is_option (WithPanicHandler h)"

text \<open>What the pool needs of its configuration.\<close>

definition config_ok :: "'h Config \<Rightarrow> bool" where
  "config_ok c \<longleftrightarrow> 0 < cleanPeriod c \<and> 0 < cfg_taskQueueSize c \<and> in_int64 (cfg_taskQueueSize c)
     \<and> 0 < workerNumCapacity c \<and> in_int64 (workerNumCapacity c)
     \<and> 0 < statsSamplePeriod c \<and> 0 < statsWindowSize c \<and> 0 < scalerPeriod c
     \<and> 0 < zeroConsumeScaleInterval c \<and> 0 < maxZeroConsumeScaleStep c
     \<and> (\<exists>d. backlogDecayFactor c = Fin d \<and> 0 \<le> d \<and> d \<le> 1)"

lemma unit_interval: "fle (Fin 0) f \<Longrightarrow> fle f (Fin 1) \<Longrightarrow> \<exists>d. f = Fin d \<and> 0 \<le> d \<and> d \<le> 1"
  by (cases f) (auto simp: fle_def feq_def)

lemma is_option_ok: "is_option opt \<Longrightarrow> config_ok c \<Longrightarrow> config_ok (opt c)"
  by (induction rule: is_option.induct)
    (auto simp: config_ok_def config_options dest: unit_interval)

lemma default_decay: "defaultBacklogDecayFactor = Fin (5404319552844595 / 18014398509481984)"
proof -
  have "quotient_of (3 / 10) = (3, 10)" "bitlen 3 = 2" "bitlen 10 = 4" by code_simp+
  then have "ilog2 (3 / 10) = - 2" by (simp add: ilog2_def)
  moreover have "\<lfloor>27021597764222976 / 5 :: rat\<rfloor> = 5404319552844595" by (simp add: floor_eq_iff)
  ultimately show ?thesis
    by (simp add: defaultBacklogDecayFactor_def round64_def round_even_def Let_def)
qed

lemma defaultConfig_ok: "config_ok defaultConfig"
  unfolding config_ok_def defaultConfig_def default_decay
  by (simp add: defaultCleanPeriod_def Millisecond_def defaultTaskQueueSize_def
      defaultMaxWorkerNumCapacity_def defaultStatsSamplePeriod_def defaultStatsWindowSize_def
      defaultScalerPeriod_def defaultZeroConsumeScaleInterval_def defaultMaxZeroConsumeScaleStep_def
      in_int64_def)
    (rule exI [of _ "5404319552844595 / 18014398509481984"], simp)

lemma fold_options_ok: "list_all is_option opts \<Longrightarrow> config_ok c \<Longrightarrow> config_ok (fold (\<lambda>opt c. opt c) opts c)"
  by (induction opts arbitrary: c) (auto simp: is_option_ok)

section \<open>The property\<close>

text \<open>
  C16.  Whatever options are applied, in whatever order and with whatever arguments, \<open>NewConfig\<close>
  yields a configuration with positive periods, sizes, capacity and window and a decay factor in
  the unit interval.
\<close>

theorem NewConfig_ok: "list_all is_option opts \<Longrightarrow> config_ok (NewConfig opts)"
  by (simp add: NewConfig_def fold_options_ok defaultConfig_ok)

theorem NewConfig_ok_witness:
  "list_all is_option [WithScalerPeriod (- 1), WithStatsWindowSize 0 :: unit ConfigOption]
   \<and> config_ok (NewConfig [WithScalerPeriod (- 1), WithStatsWindowSize 0 :: unit ConfigOption])"
  using NewConfig_ok [of "[WithScalerPeriod (- 1), WithStatsWindowSize 0 :: unit ConfigOption]"]
  by (simp add: is_option.intros)

end
