(* ===== verification/Shards.thy ===== *)
theory Shards
  imports Config
begin

unbundle bit_operations_syntax

text \<open>
  The sharded handoff queues: \<open>resolveTaskQueueShards\<close>, the part of \<open>NewPool\<close> that makes the channels,
  \<open>nextShard\<close> (\<open>pool.go\<close>) and \<open>nextShardTask\<close> (\<open>worker.go\<close>).  A channel is its buffered values and its
  capacity; the pool sends and receives with \<open>select\<close>, so both operations either succeed at once or
  take the other branch.  The cursors are 64-bit words and wrap.
\<close>

section \<open>Channels\<close>

record 'a chan =
  chan_buf :: "'a list"
  chan_cap :: nat

definition try_send :: "'a \<Rightarrow> 'a chan \<Rightarrow> 'a chan option" where
  "try_send t q = (if length (chan_buf q) < chan_cap q then Some (q\<lparr>chan_buf := chan_buf q @ [t]\<rparr>) else None)"

definition try_recv :: "'a chan \<Rightarrow> ('a \<times> 'a chan) option" where
  "try_recv q = (case chan_buf q of [] \<Rightarrow> None | t # ts \<Rightarrow> Some (t, q\<lparr>chan_buf := ts\<rparr>))"

section \<open>How many shards\<close>

definition minShardableQueueSize :: int where "minShardableQueueSize = 1024"
definition maxAutoShards :: int where "maxAutoShards = 32"

text \<open>\<open>for shards < want { shards <<= 1 }\<close>: the shift drops the bits that leave the 64-bit \<open>int\<close>.\<close>

partial_function (option) shardsUp :: "int \<Rightarrow> int \<Rightarrow> int option" where
  "shardsUp want shards = (if shards < want then shardsUp want (int64 (shards * 2)) else Some shards)"

function shardsDown :: "int \<Rightarrow> int \<Rightarrow> int" where
  "shardsDown qsize shards =
     (if shards > qsize \<and> shards > 1 then shardsDown qsize (shards div 2) else shards)"
  by pat_completeness auto
termination
  by (relation "measure (\<lambda>(qsize, shards). nat shards)") auto

declare shardsDown.simps [simp del]

text \<open>\<open>procs\<close> is what \<open>runtime.GOMAXPROCS(0)\<close> returns.\<close>

definition resolveTaskQueueShards :: "int \<Rightarrow> 'h Config \<Rightarrow> int option" where
  "resolveTaskQueueShards procs c =
     (if taskQueueShards c \<le> 0 \<and> cfg_taskQueueSize c < minShardableQueueSize then Some 1
      else
        let want = (if taskQueueShards c \<le> 0 then (if procs > maxAutoShards then maxAutoShards else procs)
                    else taskQueueShards c);
            want = (if want < 1 then 1 else want)
        in do { shards \<leftarrow> shardsUp want 1; Some (shardsDown (cfg_taskQueueSize c) shards) })"

text \<open>\<open>make\<close> panics above the allocation limit \<open>maxMake\<close> of the run-time system.\<close>

definition newTaskQueues :: "int \<Rightarrow> int \<Rightarrow> 'h Config \<Rightarrow> 'a chan list option" where
  "newTaskQueues maxMake procs c = do {
     shardCount \<leftarrow> resolveTaskQueueShards procs c;
     let perShardCap = go_div (int64 (cfg_taskQueueSize c + shardCount - 1)) shardCount;
     let perShardCap = (if perShardCap < 1 then 1 else perShardCap);
     if shardCount \<le> maxMake \<and> perShardCap \<le> maxMake
     then Some (replicate (nat shardCount) \<lparr>chan_buf = [], chan_cap = nat perShardCap\<rparr>)
     else None }"

section \<open>Cursors\<close>

text \<open>\<open>p.shardMask = uint64(shardCount - 1)\<close>\<close>

definition shardMaskOf :: "int \<Rightarrow> 64 word" where
  "shardMaskOf shardCount = of_int (shardCount - 1)"

definition nextShard :: "64 word \<Rightarrow> 64 word \<Rightarrow> nat \<times> 64 word" where
  "nextShard msk sendSeq = (let seq = sendSeq + 1 in (unat (seq AND msk), seq))"

text \<open>The scan of \<open>nextShardTask\<close> from step \<open>i\<close> with \<open>k\<close> steps left.\<close>

fun scanShards ::
  "('a \<Rightarrow> bool) \<Rightarrow> 64 word \<Rightarrow> 64 word \<Rightarrow> nat \<Rightarrow> nat \<Rightarrow> 'a chan list \<Rightarrow> (('a \<times> 64 word) option \<times> 'a chan list) option" where
  "scanShards isnil msk start i 0 qs = Some (None, qs)"
| "scanShards isnil msk start i (Suc k) qs = do {
     let idx = (start + of_nat i) AND msk;
     q \<leftarrow> go_get qs (unat idx);
     (case try_recv q of
        None \<Rightarrow> scanShards isnil msk start (Suc i) k qs
      | Some (t, q') \<Rightarrow>
          if isnil t then scanShards isnil msk start (Suc i) k (qs[unat idx := q'])
          else Some (Some (t, idx), qs[unat idx := q'])) }"

definition nextShardTask ::
  "('a \<Rightarrow> bool) \<Rightarrow> 64 word \<Rightarrow> 64 word \<Rightarrow> 'a chan list \<Rightarrow> (('a \<times> 64 word) option \<times> 'a chan list) option" where
  "nextShardTask isnil msk cursor qs = scanShards isnil msk cursor 0 (length qs) qs"

definition GetTaskQueueLen :: "'a chan list \<Rightarrow> int" where
  "GetTaskQueueLen qs = fold (\<lambda>q tot. tot + int (length (chan_buf q))) qs 0"

section \<open>The shard count\<close>

lemma shardsUp_step: "shards < want \<Longrightarrow> shardsUp want shards = shardsUp want (int64 (shards * 2))"
  by (subst shardsUp.simps) simp

lemma shardsUp_stop: "want \<le> shards \<Longrightarrow> shardsUp want shards = Some shards"
  by (subst shardsUp.simps) simp

lemma int64_double: "j < 62 \<Longrightarrow> int64 (2 ^ j * 2) = 2 ^ Suc j"
proof -
  assume "j < 62"
  then have p: "(2 :: int) ^ Suc j \<le> 2 ^ 62" by (intro power_increasing) auto
  define x where "x = (2 :: int) ^ Suc j"
  have "x \<le> 2 ^ 62" "0 \<le> x" unfolding x_def by (rule p, rule zero_le_power) simp
  then have "in_int64 x" by (simp add: in_int64_def)
  then have "in_int64 (2 ^ Suc j)" by (simp only: x_def)
  then show ?thesis by (metis int64_id power_Suc2)
qed

text \<open>Up to \<open>2 ^ 62\<close> the loop ends at the smallest power of two that is large enough.\<close>

lemma shardsUp_ok:
  assumes "want \<le> 2 ^ 62" "j \<le> 62" "j = 0 \<or> 2 ^ j < 2 * want"
  shows "\<exists>k \<le> 62. shardsUp want (2 ^ j) = Some (2 ^ k) \<and> want \<le> 2 ^ k \<and> (k = 0 \<or> 2 ^ k < 2 * want)"
  using assms
proof (induction "62 - j" arbitrary: j)
  case 0
  then have "j = 62" by simp
  with 0 show ?case by (intro exI [of _ 62]) (simp add: shardsUp_stop)
next
  case (Suc d)
  show ?case
  proof (cases "(2 :: int) ^ j < want")
    case True
    have "j < 62" using Suc.hyps(2) by simp
    then have "shardsUp want (2 ^ j) = shardsUp want (2 ^ Suc j)"
      using shardsUp_step [OF True] by (simp only: int64_double)
    with True Suc.hyps(1) [of "Suc j"] Suc.hyps(2) Suc.prems show ?thesis by simp
  next
    case False
    with Suc.prems show ?thesis by (intro exI [of _ j]) (simp add: shardsUp_stop)
  qed
qed

text \<open>Above it the shift runs through \<open>- 2 ^ 63\<close> to 0 and the loop never ends.\<close>

lemma shardsUp_zero_diverges: "0 < want \<Longrightarrow> shardsUp want 0 = None"
proof (rule ccontr)
  assume w: "0 < want" and "shardsUp want 0 \<noteq> None"
  then obtain y where "shardsUp want 0 = Some y" by blast
  then have "\<not> (0 = (0 :: int) \<and> 0 < want)"
    by (rule shardsUp.raw_induct [rotated, of want 0 y "\<lambda>w s y. \<not> (s = 0 \<and> 0 < w)"])
      (auto simp: int64_def split: if_splits)
  with w show False by simp
qed

lemma shardsUp_diverges:
  assumes "2 ^ 62 < want" "j \<le> 62"
  shows "shardsUp want (2 ^ j) = None"
  using assms(2)
proof (induction "62 - j" arbitrary: j)
  case 0
  then have j: "j = 62" by simp
  have "shardsUp want (2 ^ j) = shardsUp want (int64 (2 ^ 62 * 2))"
    unfolding j by (rule shardsUp_step [OF assms(1)])
  also have "int64 (2 ^ 62 * 2) = - (2 ^ 63)" by (simp add: int64_def)
  also have "shardsUp want (- (2 ^ 63)) = shardsUp want (int64 (- (2 ^ 63) * 2))"
    using assms(1) by (intro shardsUp_step) simp
  also have "int64 (- (2 ^ 63) * 2) = 0" by (simp add: int64_def)
  also have "shardsUp want 0 = None" using assms(1) by (intro shardsUp_zero_diverges) simp
  finally show ?case .
next
  case (Suc d)
  have j: "j < 62" using Suc.hyps(2) by simp
  then have "(2 :: int) ^ j \<le> 2 ^ 62" by (intro power_increasing) auto
  with assms(1) have "shardsUp want (2 ^ j) = shardsUp want (int64 (2 ^ j * 2))" by (intro shardsUp_step) simp
  also have "\<dots> = None" unfolding int64_double [OF j] using Suc.hyps(1) [of "Suc j"] Suc.hyps(2) j by simp
  finally show ?case .
qed

lemma shardsDown_ok:
  assumes "1 \<le> qsize"
  shows "\<exists>k \<le> j. shardsDown qsize (2 ^ j) = 2 ^ k \<and> 2 ^ k \<le> qsize \<and> (k = j \<or> qsize < 2 * 2 ^ k)"
proof (induction j)
  case 0
  with assms show ?case by (simp add: shardsDown.simps)
next
  case (Suc j)
  show ?case
  proof (cases "(2 :: int) ^ Suc j > qsize")
    case True
    then have "shardsDown qsize (2 ^ Suc j) = shardsDown qsize (2 ^ j)"
      using one_less_power [of "2 :: int" "Suc j"] by (subst shardsDown.simps) simp
    with Suc True show ?thesis by (metis le_Suc_eq power_Suc)
  next
    case False
    then have "shardsDown qsize (2 ^ Suc j) = 2 ^ Suc j" by (subst shardsDown.simps) simp
    with False show ?thesis by (intro exI [of _ "Suc j"]) auto
  qed
qed

section \<open>Cursor arithmetic\<close>

lemma and_mask_mod:
  assumes "k < 64"
  shows "unat (w AND shardMaskOf (2 ^ k)) = unat w mod 2 ^ k"
proof -
  have "shardMaskOf (2 ^ k) = mask k" by (simp add: shardMaskOf_def mask_eq_exp_minus_1)
  then show ?thesis by (simp add: take_bit_eq_mask [symmetric] unsigned_take_bit_eq take_bit_nat_def)
qed

lemma unat_add_mod:
  assumes "k \<le> 64"
  shows "unat (w + of_nat i :: 64 word) mod 2 ^ k = (unat w + i) mod 2 ^ k"
proof -
  have d: "(2 :: nat) ^ k dvd 2 ^ 64" using assms by (rule le_imp_power_dvd)
  have "unat (w + of_nat i) = (unat w + i mod 2 ^ 64) mod 2 ^ 64"
    by (simp add: unat_word_ariths(1) unsigned_of_nat take_bit_nat_def)
  also have "\<dots> = (unat w + i) mod 2 ^ 64" by (simp add: mod_simps)
  finally show ?thesis using d by (simp only: mod_mod_cancel)
qed

section \<open>The scan\<close>

definition queued :: "'a chan list \<Rightarrow> 'a list" where
  "queued qs = concat (map chan_buf qs)"

text \<open>The \<open>i\<close>-th shard a worker with this cursor looks at.\<close>

abbreviation scan_pos :: "64 word \<Rightarrow> nat \<Rightarrow> nat \<Rightarrow> nat" where
  "scan_pos cursor n i \<equiv> (unat cursor + i) mod n"

lemma scanShards_spec:
  assumes n: "length qs = 2 ^ k" "k < 64" and nn: "\<And>t. t \<in> set (queued qs) \<Longrightarrow> \<not> isnil t"
  shows "scanShards isnil (shardMaskOf (2 ^ k)) c i m qs =
    (case find (\<lambda>j. chan_buf (qs ! scan_pos c (2 ^ k) j) \<noteq> []) [i..<i + m] of
       None \<Rightarrow> Some (None, qs)
     | Some j \<Rightarrow> let p = scan_pos c (2 ^ k) j; b = chan_buf (qs ! p) in
         Some (Some (hd b, of_nat p), qs[p := (qs ! p)\<lparr>chan_buf := tl b\<rparr>]))"
proof (induction m arbitrary: i)
  case (Suc m)
  let ?w = "(c + of_nat i) AND shardMaskOf (2 ^ k)" and ?p = "scan_pos c (2 ^ k) i"
  have w: "unat ?w = ?p" using n(2) by (simp add: and_mask_mod unat_add_mod)
  then have w': "?w = of_nat ?p" by (metis of_nat_unat ucast_id)
  have p: "?p < length qs" using n(1) by simp
  have u: "[i..<i + Suc m] = i # [Suc i..<Suc i + m]" by (simp add: upt_conv_Cons)
  show ?case
  proof (cases "chan_buf (qs ! ?p)")
    case Nil
    with Suc.IH [of "Suc i"] p show ?thesis
      unfolding u by (simp add: w try_recv_def Let_def del: upt_Suc)
  next
    case (Cons t ts)
    then have "t \<in> set (queued qs)"
      unfolding queued_def set_concat set_map using nth_mem [OF p] by (intro UN_I imageI) auto
    then have "\<not> isnil t" by (rule nn)
    with Cons p show ?thesis
      unfolding u by (simp add: w try_recv_def Let_def del: upt_Suc) (simp add: w')
  qed
qed simp

text \<open>One full scan looks at every shard.\<close>

lemma scan_covers:
  assumes "0 < n" "p < n"
  shows "\<exists>j < n. scan_pos c n j = p"
proof -
  let ?u = "unat c mod n"
  define j where "j = (if ?u \<le> p then p - ?u else p + n - ?u)"
  have u: "?u < n" using assms(1) by simp
  have "?u + j = p \<or> ?u + j = p + n" using u by (auto simp: j_def)
  then have "(?u + j) mod n = p" using assms(2) by auto
  moreover have "j < n" using assms(2) u by (auto simp: j_def)
  ultimately show ?thesis by (metis mod_add_left_eq)
qed

lemma queued_Nil_iff: "queued qs = [] \<longleftrightarrow> (\<forall>p < length qs. chan_buf (qs ! p) = [])"
  by (simp add: queued_def concat_eq_Nil_conv all_set_conv_all_nth)

lemma mset_queued_upd:
  assumes "p < length qs"
  shows "mset (queued (qs[p := q])) + mset (chan_buf (qs ! p)) = mset (queued qs) + mset (chan_buf q)"
  using assms
proof (induction qs arbitrary: p)
  case (Cons x qs)
  then show ?case by (cases p) (auto simp: queued_def ac_simps)
qed simp

lemma resolve_ok:
  assumes "config_ok c" "taskQueueShards c \<le> 2 ^ 62"
  shows "\<exists>k \<le> 62. resolveTaskQueueShards procs c = Some (2 ^ k) \<and> 2 ^ k \<le> cfg_taskQueueSize c
    \<and> (0 < taskQueueShards c \<longrightarrow> (k = 0 \<or> 2 ^ k < 2 * taskQueueShards c)
         \<and> (taskQueueShards c \<le> 2 ^ k \<or> cfg_taskQueueSize c < 2 * 2 ^ k))"
proof -
  have q: "1 \<le> cfg_taskQueueSize c" using assms(1) by (simp add: config_ok_def)
  have main: "\<exists>k \<le> 62. shardsUp want 1 \<bind> (\<lambda>s. Some (shardsDown (cfg_taskQueueSize c) s)) = Some (2 ^ k)
      \<and> 2 ^ k \<le> cfg_taskQueueSize c \<and> (k = 0 \<or> 2 ^ k < 2 * want) \<and> (want \<le> 2 ^ k \<or> cfg_taskQueueSize c < 2 * 2 ^ k)"
    if w: "1 \<le> want" "want \<le> 2 ^ 62" for want
  proof -
    obtain j where j: "j \<le> 62" "shardsUp want 1 = Some (2 ^ j)" "want \<le> 2 ^ j" "j = 0 \<or> 2 ^ j < 2 * want"
      using shardsUp_ok [OF w(2), of 0] by auto
    obtain k where k: "k \<le> j" "shardsDown (cfg_taskQueueSize c) (2 ^ j) = 2 ^ k" "2 ^ k \<le> cfg_taskQueueSize c"
      "k = j \<or> cfg_taskQueueSize c < 2 * 2 ^ k"
      using shardsDown_ok [OF q] by blast
    have le: "(2 :: int) ^ k \<le> 2 ^ j" using k(1) by (intro power_increasing) auto
    have "k = 0 \<or> 2 ^ k < 2 * want"
      using j(4) k(1) by (cases "j = 0") (auto intro: order.strict_trans1 [OF le])
    with j k show ?thesis by (intro exI [of _ k]) auto
  qed
  consider "taskQueueShards c \<le> 0" "cfg_taskQueueSize c < minShardableQueueSize"
    | "taskQueueShards c \<le> 0" "\<not> cfg_taskQueueSize c < minShardableQueueSize"
    | "0 < taskQueueShards c" by linarith
  then show ?thesis
  proof cases
    case 1
    with q show ?thesis by (intro exI [of _ 0]) (simp add: resolveTaskQueueShards_def)
  next
    case 2
    let ?w = "let w = if procs > maxAutoShards then maxAutoShards else procs in if w < 1 then 1 else w"
    from main [of ?w] 2 show ?thesis by (auto simp: resolveTaskQueueShards_def Let_def maxAutoShards_def)
  next
    case 3
    from main [of "taskQueueShards c"] 3 assms(2) show ?thesis by (auto simp: resolveTaskQueueShards_def Let_def)
  qed
qed

lemma nextShardTask_find:
  assumes n: "length qs = 2 ^ k" "k < 64" and nn: "\<forall>t \<in> set (queued qs). \<not> isnil t"
  obtains (empty) "queued qs = []" "nextShardTask isnil (shardMaskOf (2 ^ k)) c qs = Some (None, qs)"
  | (found) idx where "queued qs \<noteq> []" "unat idx < length qs" "chan_buf (qs ! unat idx) \<noteq> []"
      "nextShardTask isnil (shardMaskOf (2 ^ k)) c qs = Some (Some (hd (chan_buf (qs ! unat idx)), idx),
         qs[unat idx := (qs ! unat idx)\<lparr>chan_buf := tl (chan_buf (qs ! unat idx))\<rparr>])"
      "chan_buf (qs ! (unat c mod 2 ^ k)) \<noteq> [] \<longrightarrow> unat idx = unat c mod 2 ^ k"
proof -
  let ?P = "\<lambda>j. chan_buf (qs ! scan_pos c (2 ^ k) j) \<noteq> []"
  note scan = scanShards_spec [OF n, of isnil c 0 "length qs", folded nextShardTask_def]
  show ?thesis
  proof (cases "find ?P [0..<length qs]")
    case None
    then have no: "\<And>j. j < 2 ^ k \<Longrightarrow> \<not> ?P j" by (auto simp: find_None_iff n(1))
    have "queued qs = []"
      unfolding queued_Nil_iff
    proof (intro allI impI)
      fix p assume "p < length qs"
      with scan_covers [of "2 ^ k" p c] n(1) no show "chan_buf (qs ! p) = []" by auto
    qed
    with None nn scan show ?thesis by (intro empty) auto
  next
    case (Some j)
    define p where "p = scan_pos c (2 ^ k) j"
    from Some have j: "?P j" "\<forall>i < j. \<not> ?P i" by (auto simp: find_Some_iff)
    have p: "p < length qs" using n(1) by (simp add: p_def)
    have "(2 :: nat) ^ k \<le> 2 ^ 64" using n(2) by (intro power_increasing) auto
    with p n(1) have "p < 2 ^ 64" by linarith
    then have u: "unat (of_nat p :: 64 word) = p" by (simp add: unsigned_of_nat take_bit_nat_eq_self)
    have warm: "chan_buf (qs ! (unat c mod 2 ^ k)) \<noteq> [] \<longrightarrow> p = unat c mod 2 ^ k"
      using j(2) by (cases j) (auto simp: p_def)
    have "queued qs \<noteq> []" using j(1) p unfolding queued_Nil_iff p_def by blast
    with Some nn scan j(1) p warm show ?thesis
      by (intro found [of "of_nat p", unfolded u]) (simp_all add: Let_def p_def [symmetric])
  qed
qed

lemma nextShard_mod: "k < 64 \<Longrightarrow> nextShard (shardMaskOf (2 ^ k)) s = ((unat s + 1) mod 2 ^ k, s + 1)"
  using unat_add_mod [of k s 1] by (simp add: nextShard_def Let_def and_mask_mod)

lemma mod_shift_inj: "x \<le> y \<Longrightarrow> y < x + n \<Longrightarrow> (a + x) mod n = (a + y) mod n \<Longrightarrow> x = y" for a n x y :: nat
  using mod_eq_dvd_iff_nat [of "a + x" "a + y" n] by (auto dest: dvd_imp_le)

lemma config_ok_shards: "config_ok (c\<lparr>taskQueueShards := n\<rparr>) = config_ok c"
  by (simp add: config_ok_def)

text \<open>Two shards over the default queue size.\<close>

lemma newTaskQueues_two:
  "newTaskQueues 1000000 8 (defaultConfig\<lparr>taskQueueShards := 2\<rparr> :: unit Config)
     = Some (replicate 2 \<lparr>chan_buf = [], chan_cap = 5000\<rparr>)"
proof -
  have "shardsUp 2 1 = Some 2" using shardsUp_step [of 1 2] shardsUp_stop [of 2 2] by (simp add: int64_def)
  moreover have "shardsDown 10000 2 = 2" by (subst shardsDown.simps) simp
  ultimately show ?thesis
    by (simp add: newTaskQueues_def resolveTaskQueueShards_def Let_def defaultConfig_def defaultTaskQueueSize_def int64_def)
qed

text \<open>The rounding sum overflows for the largest queue sizes: every shard then gets a single slot.\<close>

lemma newTaskQueues_overflow:
  "newTaskQueues 1000000 8 (defaultConfig\<lparr>taskQueueShards := 2, cfg_taskQueueSize := 2 ^ 63 - 1\<rparr> :: unit Config)
     = Some (replicate 2 \<lparr>chan_buf = [] :: nat list, chan_cap = 1\<rparr>)"
proof -
  have "shardsUp 2 1 = Some 2" using shardsUp_step [of 1 2] shardsUp_stop [of 2 2] by (simp add: int64_def)
  moreover have "shardsDown (2 ^ 63 - 1) 2 = 2" by (subst shardsDown.simps) simp
  ultimately show ?thesis
    by (simp add: newTaskQueues_def resolveTaskQueueShards_def Let_def int64_def go_div_def)
qed

section \<open>Properties\<close>

lemma resolveTaskQueueShards_diverges:
  assumes "2 ^ 62 < taskQueueShards c"
  shows "resolveTaskQueueShards procs c = None"
  using assms shardsUp_diverges [OF assms, of 0] by (simp add: resolveTaskQueueShards_def Let_def)

text \<open>
  C26.  \<open>resolveTaskQueueShards\<close> returns, for every configuration \<open>NewConfig\<close> can produce with at most
  \<open>2 ^ 62\<close> requested shards, a power of two that does not exceed the queue size, and the smallest power
  of two that serves the request unless the queue size is the tighter limit.  With more requested shards the doubling
  overflows and the loop runs forever, so \<open>NewPool\<close> does not return.
\<close>

theorem resolveTaskQueueShards_power_of_two:
  assumes "config_ok c"
  shows "if taskQueueShards c \<le> 2 ^ 62
    then \<exists>k \<le> 62. resolveTaskQueueShards procs c = Some (2 ^ k) \<and> 2 ^ k \<le> cfg_taskQueueSize c
      \<and> (0 < taskQueueShards c \<longrightarrow> (k = 0 \<or> 2 ^ k < 2 * taskQueueShards c)
           \<and> (taskQueueShards c \<le> 2 ^ k \<or> cfg_taskQueueSize c < 2 * 2 ^ k))
    else resolveTaskQueueShards procs c = None"
  using resolve_ok [OF assms, of procs] resolveTaskQueueShards_diverges [of c procs] by (cases "taskQueueShards c \<le> 2 ^ 62") simp_all

theorem resolveTaskQueueShards_power_of_two_witness:
  "\<exists>k \<le> 62. resolveTaskQueueShards 8 (defaultConfig\<lparr>taskQueueShards := 6\<rparr> :: unit Config) = Some (2 ^ k)"
  using resolveTaskQueueShards_power_of_two [of "defaultConfig\<lparr>taskQueueShards := 6\<rparr> :: unit Config" 8]
  by (auto simp: config_ok_shards defaultConfig_ok)

text \<open>
  C27.  The handoff channels made by \<open>NewPool\<close> hold at least the configured number of tasks, unless the
  rounding sum overflows.
\<close>

theorem newTaskQueues_capacity:
  assumes "newTaskQueues maxMake procs c = Some (qs :: 'a chan list)" "config_ok c" "taskQueueShards c \<le> 2 ^ 62"
    and "cfg_taskQueueSize c + int (length qs) \<le> 2 ^ 63"
  shows "cfg_taskQueueSize c \<le> sum_list (map (\<lambda>q. int (chan_cap q)) qs)
    \<and> (\<forall>q \<in> set qs. chan_buf q = [] \<and> 0 < chan_cap q)"
proof -
  obtain k where k: "resolveTaskQueueShards procs c = Some (2 ^ k)"
    using resolve_ok [OF assms(2,3)] by blast
  define n s where "n = (2 ^ k :: int)" and "s = cfg_taskQueueSize c"
  let ?per = "go_div (int64 (s + n - 1)) n"
  have qs: "qs = replicate (nat n) \<lparr>chan_buf = [], chan_cap = nat (if ?per < 1 then 1 else ?per)\<rparr>"
    using assms(1) k by (simp add: newTaskQueues_def Let_def n_def s_def split: if_splits)
  have n: "0 < n" and s: "1 \<le> s" using assms(2) by (simp_all add: n_def s_def config_ok_def)
  have "s + n \<le> 2 ^ 63" using assms(4) qs n by (simp add: s_def)
  then have "in_int64 (s + n - 1)" using s n by (simp add: in_int64_def)
  then have per: "?per = (s + n - 1) div n" using s n by simp
  have "n * ((s + n - 1) div n) = (s + n - 1) - (s + n - 1) mod n" by (simp add: minus_mod_eq_mult_div)
  moreover have "(s + n - 1) mod n < n" using n by simp
  ultimately have cap: "s \<le> n * ((s + n - 1) div n)" by linarith
  have "1 \<le> ?per" unfolding per using s n pos_imp_zdiv_pos_iff [of n "s + n - 1"] by simp
  with qs per cap n show ?thesis by (simp add: sum_list_replicate s_def [symmetric])
qed

theorem newTaskQueues_capacity_witness:
  "10000 \<le> sum_list (map (\<lambda>q. int (chan_cap q)) (replicate 2 \<lparr>chan_buf = [] :: nat list, chan_cap = 5000\<rparr>))"
  using newTaskQueues_capacity [OF newTaskQueues_two] by (simp add: config_ok_shards defaultConfig_ok) (simp add: defaultConfig_def defaultTaskQueueSize_def)

text \<open>
  C28.  A worker's scan finds a task exactly when some shard holds one, whatever its cursor: it takes the
  oldest task of the shard it reports, leaves every other task in place, and stays on the shard of
  its cursor as long as that shard has work.
\<close>

theorem nextShardTask_complete:
  assumes "length qs = 2 ^ k" "k < 64" "\<forall>t \<in> set (queued qs). \<not> isnil t"
  shows "if queued qs = [] then nextShardTask isnil (shardMaskOf (2 ^ k)) c qs = Some (None, qs)
    else \<exists>t idx. unat idx < length qs
      \<and> chan_buf (qs ! unat idx) \<noteq> [] \<and> t = hd (chan_buf (qs ! unat idx))
      \<and> nextShardTask isnil (shardMaskOf (2 ^ k)) c qs
          = Some (Some (t, idx), qs[unat idx := (qs ! unat idx)\<lparr>chan_buf := tl (chan_buf (qs ! unat idx))\<rparr>])
      \<and> (chan_buf (qs ! (unat c mod 2 ^ k)) \<noteq> [] \<longrightarrow> unat idx = unat c mod 2 ^ k)"
  by (rule nextShardTask_find [OF assms, of c]) auto

theorem nextShardTask_complete_witness:
  "\<exists>t idx. unat idx < 2 \<and> t = hd (chan_buf ([\<lparr>chan_buf = [], chan_cap = 4\<rparr>, \<lparr>chan_buf = [7, 8 :: nat], chan_cap = 4\<rparr>] ! unat idx))
     \<and> nextShardTask (\<lambda>_. False) (shardMaskOf (2 ^ 1)) 0 [\<lparr>chan_buf = [], chan_cap = 4\<rparr>, \<lparr>chan_buf = [7, 8], chan_cap = 4\<rparr>]
       = Some (Some (t, idx), [\<lparr>chan_buf = [], chan_cap = 4\<rparr>, \<lparr>chan_buf = [7, 8], chan_cap = 4\<rparr>]
           [unat idx := ([\<lparr>chan_buf = [], chan_cap = 4\<rparr>, \<lparr>chan_buf = [7, 8], chan_cap = 4\<rparr>] ! unat idx)
              \<lparr>chan_buf := tl (chan_buf ([\<lparr>chan_buf = [], chan_cap = 4\<rparr>, \<lparr>chan_buf = [7, 8], chan_cap = 4\<rparr>] ! unat idx))\<rparr>])"
  using nextShardTask_complete [of "[\<lparr>chan_buf = [], chan_cap = 4\<rparr>, \<lparr>chan_buf = [7, 8 :: nat], chan_cap = 4\<rparr>]" 1 "\<lambda>_. False" 0]
  by (fastforce simp: queued_def)

end
