(* ===== verification/Hooks.thy ===== *)
theory Hooks
  imports Go_Prelude
begin

text \<open>
  Lifecycle callbacks: the interface of \<open>hook.go\<close> as the locale \<open>hook_dispatcher\<close>, and its two bundled
  implementations, \<open>hook/hook.go\<close> (mutable callback slices) and \<open>hook/dynamic/dynamic.go\<close> (immutable
  snapshots).  A callback is user code: \<open>call f a\<close> is what running the callback \<open>f\<close> on the argument
  \<open>a\<close> does, namely the registrations it makes on the dispatcher while it runs and the panic that ends
  it, if any.
\<close>

section \<open>Events\<close>

datatype hook_kind = OnTaskSubmitted | OnTaskEnqueued | OnTaskStarted | OnTaskCompleted | OnPoolClosed

text \<open>The argument of a callback; \<open>ArgPool False\<close> is the nil pool pointer.\<close>

datatype 'c hook_arg = ArgCtx 'c | ArgDone 'c "string option" | ArgPool bool

type_synonym ('f, 'c) hook_call = "'f \<Rightarrow> 'c hook_arg \<Rightarrow> (hook_kind \<times> 'f) list \<times> string option"

datatype hook_log = CallbackPanicked hook_kind string | NilPool

section \<open>The static dispatcher\<close>

record 'f Hooks =
  taskSubmitted :: "'f list"
  taskEnqueued :: "'f list"
  taskStarted :: "'f list"
  taskCompleted :: "'f list"
  poolClosed :: "'f list"
  hooks_log :: "hook_log list"

definition NewHooks :: "'f Hooks" where
  "NewHooks = \<lparr>taskSubmitted = [], taskEnqueued = [], taskStarted = [], taskCompleted = [],
               poolClosed = [], hooks_log = []\<rparr>"

definition AddTaskSubmitted :: "'f \<Rightarrow> 'f Hooks \<Rightarrow> 'f Hooks" where
  "AddTaskSubmitted fn h = h\<lparr>taskSubmitted := taskSubmitted h @ [fn]\<rparr>"

definition AddTaskEnqueued :: "'f \<Rightarrow> 'f Hooks \<Rightarrow> 'f Hooks" where
  "AddTaskEnqueued fn h = h\<lparr>taskEnqueued := taskEnqueued h @ [fn]\<rparr>"

definition AddTaskStarted :: "'f \<Rightarrow> 'f Hooks \<Rightarrow> 'f Hooks" where
  "AddTaskStarted fn h = h\<lparr>taskStarted := taskStarted h @ [fn]\<rparr>"

definition AddTaskCompleted :: "'f \<Rightarrow> 'f Hooks \<Rightarrow> 'f Hooks" where
  "AddTaskCompleted fn h = h\<lparr>taskCompleted := taskCompleted h @ [fn]\<rparr>"

definition AddPoolClosed :: "'f \<Rightarrow> 'f Hooks \<Rightarrow> 'f Hooks" where
  "AddPoolClosed fn h = h\<lparr>poolClosed := poolClosed h @ [fn]\<rparr>"

text \<open>The registration a running callback makes, by the method it calls.\<close>

fun Hooks_Add :: "hook_kind \<Rightarrow> 'f \<Rightarrow> 'f Hooks \<Rightarrow> 'f Hooks" where
  "Hooks_Add OnTaskSubmitted fn h = AddTaskSubmitted fn h"
| "Hooks_Add OnTaskEnqueued fn h = AddTaskEnqueued fn h"
| "Hooks_Add OnTaskStarted fn h = AddTaskStarted fn h"
| "Hooks_Add OnTaskCompleted fn h = AddTaskCompleted fn h"
| "Hooks_Add OnPoolClosed fn h = AddPoolClosed fn h"

text \<open>
  \<open>invoke\<close>: the callback runs under a deferred \<open>recover\<close>, so its panic becomes a log entry.  The
  second component of a dispatch is the list of callbacks that were called.
\<close>

definition Hooks_invoke :: "('f, 'c) hook_call \<Rightarrow> hook_kind \<Rightarrow> 'c hook_arg \<Rightarrow> 'f \<Rightarrow> 'f Hooks \<Rightarrow> 'f Hooks" where
  "Hooks_invoke call name a fn h =
     (let (regs, panic) = call fn a;
          h1 = fold (\<lambda>(k, f). Hooks_Add k f) regs h
      in case panic of
           None \<Rightarrow> h1
         | Some r \<Rightarrow> h1\<lparr>hooks_log := hooks_log h1 @ [CallbackPanicked name r]\<rparr>)"

fun Hooks_each :: "('f, 'c) hook_call \<Rightarrow> hook_kind \<Rightarrow> 'c hook_arg \<Rightarrow> 'f list \<Rightarrow> 'f Hooks \<Rightarrow> 'f Hooks \<times> 'f list" where
  "Hooks_each call name a [] h = (h, [])"
| "Hooks_each call name a (fn # fns) h =
     (let (h', called) = Hooks_each call name a fns (Hooks_invoke call name a fn h) in (h', fn # called))"

definition DispatchTaskSubmitted :: "('f, 'c) hook_call \<Rightarrow> 'c \<Rightarrow> 'f Hooks \<Rightarrow> 'f Hooks \<times> 'f list" where
  "DispatchTaskSubmitted call ctx h = Hooks_each call OnTaskSubmitted (ArgCtx ctx) (taskSubmitted h) h"

definition DispatchTaskEnqueued :: "('f, 'c) hook_call \<Rightarrow> 'c \<Rightarrow> 'f Hooks \<Rightarrow> 'f Hooks \<times> 'f list" where
  "DispatchTaskEnqueued call ctx h = Hooks_each call OnTaskEnqueued (ArgCtx ctx) (taskEnqueued h) h"

definition DispatchTaskStarted :: "('f, 'c) hook_call \<Rightarrow> 'c \<Rightarrow> 'f Hooks \<Rightarrow> 'f Hooks \<times> 'f list" where
  "DispatchTaskStarted call ctx h = Hooks_each call OnTaskStarted (ArgCtx ctx) (taskStarted h) h"

definition DispatchTaskCompleted :: "('f, 'c) hook_call \<Rightarrow> 'c \<Rightarrow> string option \<Rightarrow> 'f Hooks \<Rightarrow> 'f Hooks \<times> 'f list" where
  "DispatchTaskCompleted call ctx recovered h =
     Hooks_each call OnTaskCompleted (ArgDone ctx recovered) (taskCompleted h) h"

definition DispatchPoolClosed :: "('f, 'c) hook_call \<Rightarrow> bool \<Rightarrow> 'f Hooks \<Rightarrow> 'f Hooks \<times> 'f list" where
  "DispatchPoolClosed call pool h =
     (if \<not> pool then (h\<lparr>hooks_log := hooks_log h @ [NilPool]\<rparr>, [])
      else Hooks_each call OnPoolClosed (ArgPool pool) (poolClosed h) h)"

section \<open>The dynamic dispatcher\<close>

record 'f callbackSnapshot =
  sn_taskSubmitted :: "'f list"
  sn_taskEnqueued :: "'f list"
  sn_taskStarted :: "'f list"
  sn_taskCompleted :: "'f list"
  sn_poolClosed :: "'f list"

text \<open>\<open>None\<close> is the nil snapshot pointer of a zero \<open>Hooks\<close> value.\<close>

record 'f DynHooks =
  snapshots :: "'f callbackSnapshot option"
  dyn_log :: "hook_log list"

definition empty_snapshot :: "'f callbackSnapshot" where
  "empty_snapshot = \<lparr>sn_taskSubmitted = [], sn_taskEnqueued = [], sn_taskStarted = [],
                     sn_taskCompleted = [], sn_poolClosed = []\<rparr>"

definition Dyn_NewHooks :: "'f DynHooks" where
  "Dyn_NewHooks = \<lparr>snapshots = Some empty_snapshot, dyn_log = []\<rparr>"

definition snapshot :: "'f DynHooks \<Rightarrow> 'f callbackSnapshot" where
  "snapshot h = (case snapshots h of Some s \<Rightarrow> s | None \<Rightarrow> empty_snapshot)"

text \<open>\<open>make\<close>, \<open>copy\<close>, then one write at the end: a fresh slice of zero values is filled.\<close>

definition appendCallback :: "'f \<Rightarrow> 'f list \<Rightarrow> 'f \<Rightarrow> 'f list" where
  "appendCallback zero callbacks callback =
     (let next = replicate (length callbacks + 1) zero;
          next = callbacks @ drop (length callbacks) next
      in next[length callbacks := callback])"

definition Dyn_AddTaskSubmitted :: "'f \<Rightarrow> 'f \<Rightarrow> 'f DynHooks \<Rightarrow> 'f DynHooks" where
  "Dyn_AddTaskSubmitted zero fn h = (let current = snapshot h in
     h\<lparr>snapshots := Some (current\<lparr>sn_taskSubmitted := appendCallback zero (sn_taskSubmitted current) fn\<rparr>)\<rparr>)"

definition Dyn_AddTaskEnqueued :: "'f \<Rightarrow> 'f \<Rightarrow> 'f DynHooks \<Rightarrow> 'f DynHooks" where
  "Dyn_AddTaskEnqueued zero fn h = (let current = snapshot h in
     h\<lparr>snapshots := Some (current\<lparr>sn_taskEnqueued := appendCallback zero (sn_taskEnqueued current) fn\<rparr>)\<rparr>)"

definition Dyn_AddTaskStarted :: "'f \<Rightarrow> 'f \<Rightarrow> 'f DynHooks \<Rightarrow> 'f DynHooks" where
  "Dyn_AddTaskStarted zero fn h = (let current = snapshot h in
     h\<lparr>snapshots := Some (current\<lparr>sn_taskStarted := appendCallback zero (sn_taskStarted current) fn\<rparr>)\<rparr>)"

definition Dyn_AddTaskCompleted :: "'f \<Rightarrow> 'f \<Rightarrow> 'f DynHooks \<Rightarrow> 'f DynHooks" where
  "Dyn_AddTaskCompleted zero fn h = (let current = snapshot h in
     h\<lparr>snapshots := Some (current\<lparr>sn_taskCompleted := appendCallback zero (sn_taskCompleted current) fn\<rparr>)\<rparr>)"

definition Dyn_AddPoolClosed :: "'f \<Rightarrow> 'f \<Rightarrow> 'f DynHooks \<Rightarrow> 'f DynHooks" where
  "Dyn_AddPoolClosed zero fn h = (let current = snapshot h in
     h\<lparr>snapshots := Some (current\<lparr>sn_poolClosed := appendCallback zero (sn_poolClosed current) fn\<rparr>)\<rparr>)"

fun Dyn_Add :: "'f \<Rightarrow> hook_kind \<Rightarrow> 'f \<Rightarrow> 'f DynHooks \<Rightarrow> 'f DynHooks" where
  "Dyn_Add zero OnTaskSubmitted fn h = Dyn_AddTaskSubmitted zero fn h"
| "Dyn_Add zero OnTaskEnqueued fn h = Dyn_AddTaskEnqueued zero fn h"
| "Dyn_Add zero OnTaskStarted fn h = Dyn_AddTaskStarted zero fn h"
| "Dyn_Add zero OnTaskCompleted fn h = Dyn_AddTaskCompleted zero fn h"
| "Dyn_Add zero OnPoolClosed fn h = Dyn_AddPoolClosed zero fn h"

definition Dyn_invoke :: "'f \<Rightarrow> ('f, 'c) hook_call \<Rightarrow> hook_kind \<Rightarrow> 'c hook_arg \<Rightarrow> 'f \<Rightarrow> 'f DynHooks \<Rightarrow> 'f DynHooks" where
  "Dyn_invoke zero call name a fn h =
     (let (regs, panic) = call fn a;
          h1 = fold (\<lambda>(k, f). Dyn_Add zero k f) regs h
      in case panic of
           None \<Rightarrow> h1
         | Some r \<Rightarrow> h1\<lparr>dyn_log := dyn_log h1 @ [CallbackPanicked name r]\<rparr>)"

fun Dyn_each :: "'f \<Rightarrow> ('f, 'c) hook_call \<Rightarrow> hook_kind \<Rightarrow> 'c hook_arg \<Rightarrow> 'f list \<Rightarrow> 'f DynHooks \<Rightarrow> 'f DynHooks \<times> 'f list" where
  "Dyn_each zero call name a [] h = (h, [])"
| "Dyn_each zero call name a (fn # fns) h =
     (let (h', called) = Dyn_each zero call name a fns (Dyn_invoke zero call name a fn h) in (h', fn # called))"

definition Dyn_DispatchTaskSubmitted :: "'f \<Rightarrow> ('f, 'c) hook_call \<Rightarrow> 'c \<Rightarrow> 'f DynHooks \<Rightarrow> 'f DynHooks \<times> 'f list" where
  "Dyn_DispatchTaskSubmitted zero call ctx h =
     Dyn_each zero call OnTaskSubmitted (ArgCtx ctx) (sn_taskSubmitted (snapshot h)) h"

definition Dyn_DispatchTaskEnqueued :: "'f \<Rightarrow> ('f, 'c) hook_call \<Rightarrow> 'c \<Rightarrow> 'f DynHooks \<Rightarrow> 'f DynHooks \<times> 'f list" where
  "Dyn_DispatchTaskEnqueued zero call ctx h =
     Dyn_each zero call OnTaskEnqueued (ArgCtx ctx) (sn_taskEnqueued (snapshot h)) h"

definition Dyn_DispatchTaskStarted :: "'f \<Rightarrow> ('f, 'c) hook_call \<Rightarrow> 'c \<Rightarrow> 'f DynHooks \<Rightarrow> 'f DynHooks \<times> 'f list" where
  "Dyn_DispatchTaskStarted zero call ctx h =
     Dyn_each zero call OnTaskStarted (ArgCtx ctx) (sn_taskStarted (snapshot h)) h"

definition Dyn_DispatchTaskCompleted :: "'f \<Rightarrow> ('f, 'c) hook_call \<Rightarrow> 'c \<Rightarrow> string option \<Rightarrow> 'f DynHooks \<Rightarrow> 'f DynHooks \<times> 'f list" where
  "Dyn_DispatchTaskCompleted zero call ctx recovered h =
     Dyn_each zero call OnTaskCompleted (ArgDone ctx recovered) (sn_taskCompleted (snapshot h)) h"

definition Dyn_DispatchPoolClosed :: "'f \<Rightarrow> ('f, 'c) hook_call \<Rightarrow> bool \<Rightarrow> 'f DynHooks \<Rightarrow> 'f DynHooks \<times> 'f list" where
  "Dyn_DispatchPoolClosed zero call pool h =
     (if \<not> pool then (h\<lparr>dyn_log := dyn_log h @ [NilPool]\<rparr>, [])
      else Dyn_each zero call OnPoolClosed (ArgPool pool) (sn_poolClosed (snapshot h)) h)"

section \<open>Events as the pool raises them\<close>

datatype 'c pool_event =
  EvSubmitted 'c | EvEnqueued 'c | EvStarted 'c | EvCompleted 'c "string option" | EvClosed

fun kind_of :: "'c pool_event \<Rightarrow> hook_kind" where
  "kind_of (EvSubmitted _) = OnTaskSubmitted"
| "kind_of (EvEnqueued _) = OnTaskEnqueued"
| "kind_of (EvStarted _) = OnTaskStarted"
| "kind_of (EvCompleted _ _) = OnTaskCompleted"
| "kind_of EvClosed = OnPoolClosed"

fun arg_of :: "'c pool_event \<Rightarrow> 'c hook_arg" where
  "arg_of (EvSubmitted c) = ArgCtx c"
| "arg_of (EvEnqueued c) = ArgCtx c"
| "arg_of (EvStarted c) = ArgCtx c"
| "arg_of (EvCompleted c r) = ArgDone c r"
| "arg_of EvClosed = ArgPool True"

fun Hooks_dispatch :: "('f, 'c) hook_call \<Rightarrow> 'c pool_event \<Rightarrow> 'f Hooks \<Rightarrow> 'f Hooks \<times> 'f list" where
  "Hooks_dispatch call (EvSubmitted c) h = DispatchTaskSubmitted call c h"
| "Hooks_dispatch call (EvEnqueued c) h = DispatchTaskEnqueued call c h"
| "Hooks_dispatch call (EvStarted c) h = DispatchTaskStarted call c h"
| "Hooks_dispatch call (EvCompleted c r) h = DispatchTaskCompleted call c r h"
| "Hooks_dispatch call EvClosed h = DispatchPoolClosed call True h"

fun Dyn_dispatch :: "'f \<Rightarrow> ('f, 'c) hook_call \<Rightarrow> 'c pool_event \<Rightarrow> 'f DynHooks \<Rightarrow> 'f DynHooks \<times> 'f list" where
  "Dyn_dispatch zero call (EvSubmitted c) h = Dyn_DispatchTaskSubmitted zero call c h"
| "Dyn_dispatch zero call (EvEnqueued c) h = Dyn_DispatchTaskEnqueued zero call c h"
| "Dyn_dispatch zero call (EvStarted c) h = Dyn_DispatchTaskStarted zero call c h"
| "Dyn_dispatch zero call (EvCompleted c r) h = Dyn_DispatchTaskCompleted zero call c r h"
| "Dyn_dispatch zero call EvClosed h = Dyn_DispatchPoolClosed zero call True h"

section \<open>The contract\<close>

text \<open>What the callbacks \<open>fs\<close>, called on \<open>a\<close>, register for \<open>k\<close>, and the log entries of their panics.\<close>

definition new_regs :: "('f, 'c) hook_call \<Rightarrow> hook_kind \<Rightarrow> 'c hook_arg \<Rightarrow> 'f list \<Rightarrow> 'f list" where
  "new_regs call k a fs = concat (map (\<lambda>f. map snd (filter (\<lambda>(k', _). k' = k) (fst (call f a)))) fs)"

definition panics_of :: "('f, 'c) hook_call \<Rightarrow> hook_kind \<Rightarrow> 'c hook_arg \<Rightarrow> 'f list \<Rightarrow> hook_log list" where
  "panics_of call k a fs =
     concat (map (\<lambda>f. case snd (call f a) of None \<Rightarrow> [] | Some p \<Rightarrow> [CallbackPanicked k p]) fs)"

text \<open>A client registers callbacks and raises events; the reference keeps a list per kind.\<close>

datatype ('f, 'c) hook_action = Register hook_kind 'f | Raise "'c pool_event"

fun hooks_run :: "(hook_kind \<Rightarrow> 'f \<Rightarrow> 'h \<Rightarrow> 'h) \<Rightarrow> ('c pool_event \<Rightarrow> 'h \<Rightarrow> 'h \<times> 'f list)
    \<Rightarrow> ('f, 'c) hook_action list \<Rightarrow> 'h \<Rightarrow> 'f list list \<times> 'h" where
  "hooks_run add dispatch [] h = ([], h)"
| "hooks_run add dispatch (Register k f # as) h = hooks_run add dispatch as (add k f h)"
| "hooks_run add dispatch (Raise e # as) h =
     (let (h1, called) = dispatch e h; (cs, h2) = hooks_run add dispatch as h1 in (called # cs, h2))"

fun ref_hooks_run :: "('f, 'c) hook_call \<Rightarrow> ('f, 'c) hook_action list \<Rightarrow> (hook_kind \<Rightarrow> 'f list) \<Rightarrow> hook_log list
    \<Rightarrow> 'f list list \<times> (hook_kind \<Rightarrow> 'f list) \<times> hook_log list" where
  "ref_hooks_run call [] R L = ([], R, L)"
| "ref_hooks_run call (Register k f # as) R L = ref_hooks_run call as (R(k := R k @ [f])) L"
| "ref_hooks_run call (Raise e # as) R L =
     (let fs = R (kind_of e);
          (cs, R', L') = ref_hooks_run call as (\<lambda>k. R k @ new_regs call k (arg_of e) fs)
                           (L @ panics_of call (kind_of e) (arg_of e) fs)
      in (fs # cs, R', L'))"

locale hook_dispatcher =
  fixes call :: "('f, 'c) hook_call"
    and New :: 'h
    and add :: "hook_kind \<Rightarrow> 'f \<Rightarrow> 'h \<Rightarrow> 'h"
    and dispatch :: "'c pool_event \<Rightarrow> 'h \<Rightarrow> 'h \<times> 'f list"
    and regs :: "'h \<Rightarrow> hook_kind \<Rightarrow> 'f list"
    and logged :: "'h \<Rightarrow> hook_log list"
  assumes new_empty: "regs New k = []" "logged New = []"
    and add_regs: "regs (add k f h) = (regs h)(k := regs h k @ [f])"
    and add_logged: "logged (add k f h) = logged h"
    and dispatch_called: "snd (dispatch e h) = regs h (kind_of e)"
    and dispatch_regs: "regs (fst (dispatch e h)) k = regs h k @ new_regs call k (arg_of e) (regs h (kind_of e))"
    and dispatch_logged: "logged (fst (dispatch e h)) = logged h @ panics_of call (kind_of e) (arg_of e) (regs h (kind_of e))"
begin

lemma run_sim:
  "fst (hooks_run add dispatch as h) = fst (ref_hooks_run call as (regs h) (logged h))
   \<and> regs (snd (hooks_run add dispatch as h)) = fst (snd (ref_hooks_run call as (regs h) (logged h)))
   \<and> logged (snd (hooks_run add dispatch as h)) = snd (snd (ref_hooks_run call as (regs h) (logged h)))"
proof (induction as arbitrary: h)
  case (Cons a as)
  show ?case
  proof (cases a)
    case (Register k f)
    with Cons [of "add k f h"] show ?thesis by (simp add: add_regs add_logged del: fun_upd_apply)
  next
    case (Raise e)
    have "regs (fst (dispatch e h)) = (\<lambda>k. regs h k @ new_regs call k (arg_of e) (regs h (kind_of e)))"
      by (rule ext) (rule dispatch_regs)
    with Raise Cons [of "fst (dispatch e h)"] show ?thesis
      by (auto simp: case_prod_beta Let_def dispatch_called dispatch_logged)
  qed
qed simp

lemma run_New:
  "fst (hooks_run add dispatch as New) = fst (ref_hooks_run call as (\<lambda>_. []) [])
   \<and> logged (snd (hooks_run add dispatch as New)) = snd (snd (ref_hooks_run call as (\<lambda>_. []) []))"
proof -
  have "regs New = (\<lambda>_. [])" by (rule ext) (rule new_empty)
  with run_sim [of as New] show ?thesis by (simp add: new_empty)
qed

end

section \<open>Both dispatchers keep it\<close>

fun Hooks_regs :: "'f Hooks \<Rightarrow> hook_kind \<Rightarrow> 'f list" where
  "Hooks_regs h OnTaskSubmitted = taskSubmitted h"
| "Hooks_regs h OnTaskEnqueued = taskEnqueued h"
| "Hooks_regs h OnTaskStarted = taskStarted h"
| "Hooks_regs h OnTaskCompleted = taskCompleted h"
| "Hooks_regs h OnPoolClosed = poolClosed h"

lemmas Hooks_adds = AddTaskSubmitted_def AddTaskEnqueued_def AddTaskStarted_def AddTaskCompleted_def AddPoolClosed_def

lemma Hooks_Add_regs: "Hooks_regs (Hooks_Add k f h) k' = Hooks_regs h k' @ (if k' = k then [f] else [])"
  by (cases k; cases k') (simp_all add: Hooks_adds)

lemma Hooks_Add_log [simp]: "hooks_log (Hooks_Add k f h) = hooks_log h"
  by (cases k) (simp_all add: Hooks_adds)

lemma Hooks_log_regs [simp]: "Hooks_regs (h\<lparr>hooks_log := l\<rparr>) k = Hooks_regs h k"
  by (cases k) simp_all

lemma Hooks_fold_regs:
  "Hooks_regs (fold (\<lambda>(k, f). Hooks_Add k f) rs h) k = Hooks_regs h k @ map snd (filter (\<lambda>(k', _). k' = k) rs)
   \<and> hooks_log (fold (\<lambda>(k, f). Hooks_Add k f) rs h) = hooks_log h"
  by (induction rs arbitrary: h) (auto simp: Hooks_Add_regs)

lemma Hooks_invoke_spec:
  "Hooks_regs (Hooks_invoke call name a f h) k = Hooks_regs h k @ new_regs call k a [f]"
  "hooks_log (Hooks_invoke call name a f h) = hooks_log h @ panics_of call name a [f]"
  by (auto simp: Hooks_invoke_def new_regs_def panics_of_def Hooks_fold_regs case_prod_beta Let_def split: option.splits)

lemma regs_panics_Cons:
  "new_regs call k a (f # fs) = new_regs call k a [f] @ new_regs call k a fs"
  "panics_of call k a (f # fs) = panics_of call k a [f] @ panics_of call k a fs"
  by (simp_all add: new_regs_def panics_of_def)

lemma Hooks_each_spec:
  "snd (Hooks_each call name a fs h) = fs"
  "Hooks_regs (fst (Hooks_each call name a fs h)) k = Hooks_regs h k @ new_regs call k a fs"
  "hooks_log (fst (Hooks_each call name a fs h)) = hooks_log h @ panics_of call name a fs"
proof (induction fs arbitrary: h)
  case (Cons f fs)
  { case 1 show ?case using Cons(1) by (simp add: case_prod_beta Let_def) }
  { case 2 show ?case using Cons(2) by (simp add: case_prod_beta Let_def Hooks_invoke_spec regs_panics_Cons(1) [of _ _ _ f fs]) }
  { case 3 show ?case using Cons(3) by (simp add: case_prod_beta Let_def Hooks_invoke_spec regs_panics_Cons(2) [of _ _ _ f fs]) }
qed (simp_all add: new_regs_def panics_of_def)

lemma Hooks_dispatch_each: "Hooks_dispatch call e h = Hooks_each call (kind_of e) (arg_of e) (Hooks_regs h (kind_of e)) h"
  by (cases e) (simp_all add: DispatchTaskSubmitted_def DispatchTaskEnqueued_def DispatchTaskStarted_def
      DispatchTaskCompleted_def DispatchPoolClosed_def)

interpretation static_hooks: hook_dispatcher call NewHooks Hooks_Add "Hooks_dispatch call" Hooks_regs hooks_log
  for call :: "('f, 'c) hook_call"
proof (unfold_locales, goal_cases)
  case (1 k)
  show ?case by (cases k) (simp_all add: NewHooks_def)
next
  case (3 k f h)
  show ?case by (rule ext) (simp add: Hooks_Add_regs)
qed (simp_all add: NewHooks_def Hooks_dispatch_each Hooks_each_spec)

fun Dyn_regs :: "'f DynHooks \<Rightarrow> hook_kind \<Rightarrow> 'f list" where
  "Dyn_regs h OnTaskSubmitted = sn_taskSubmitted (snapshot h)"
| "Dyn_regs h OnTaskEnqueued = sn_taskEnqueued (snapshot h)"
| "Dyn_regs h OnTaskStarted = sn_taskStarted (snapshot h)"
| "Dyn_regs h OnTaskCompleted = sn_taskCompleted (snapshot h)"
| "Dyn_regs h OnPoolClosed = sn_poolClosed (snapshot h)"

lemma appendCallback_append [simp]: "appendCallback zero fs f = fs @ [f]"
proof -
  have "drop (length fs) (replicate (length fs + 1) zero) = [zero]" by (simp only: drop_replicate) simp
  then show ?thesis by (simp only: appendCallback_def Let_def) simp
qed

lemmas Dyn_adds = Dyn_AddTaskSubmitted_def Dyn_AddTaskEnqueued_def Dyn_AddTaskStarted_def
  Dyn_AddTaskCompleted_def Dyn_AddPoolClosed_def

lemma Dyn_Add_regs: "Dyn_regs (Dyn_Add zero k f h) k' = Dyn_regs h k' @ (if k' = k then [f] else [])"
  by (cases k; cases k') (simp_all add: Dyn_adds Let_def snapshot_def)

lemma Dyn_Add_log [simp]: "dyn_log (Dyn_Add zero k f h) = dyn_log h"
  by (cases k) (simp_all add: Dyn_adds Let_def)

lemma Dyn_log_regs [simp]: "Dyn_regs (h\<lparr>dyn_log := l\<rparr>) k = Dyn_regs h k"
  by (cases k) (simp_all add: snapshot_def)

lemma Dyn_fold_regs:
  "Dyn_regs (fold (\<lambda>(k, f). Dyn_Add zero k f) rs h) k = Dyn_regs h k @ map snd (filter (\<lambda>(k', _). k' = k) rs)
   \<and> dyn_log (fold (\<lambda>(k, f). Dyn_Add zero k f) rs h) = dyn_log h"
  by (induction rs arbitrary: h) (auto simp: Dyn_Add_regs)

lemma Dyn_invoke_spec:
  "Dyn_regs (Dyn_invoke zero call name a f h) k = Dyn_regs h k @ new_regs call k a [f]"
  "dyn_log (Dyn_invoke zero call name a f h) = dyn_log h @ panics_of call name a [f]"
  by (auto simp: Dyn_invoke_def new_regs_def panics_of_def Dyn_fold_regs case_prod_beta Let_def split: option.splits)

lemma Dyn_each_spec:
  "snd (Dyn_each zero call name a fs h) = fs"
  "Dyn_regs (fst (Dyn_each zero call name a fs h)) k = Dyn_regs h k @ new_regs call k a fs"
  "dyn_log (fst (Dyn_each zero call name a fs h)) = dyn_log h @ panics_of call name a fs"
proof (induction fs arbitrary: h)
  case (Cons f fs)
  { case 1 show ?case using Cons(1) by (simp add: case_prod_beta Let_def) }
  { case 2 show ?case using Cons(2) by (simp add: case_prod_beta Let_def Dyn_invoke_spec regs_panics_Cons(1) [of _ _ _ f fs]) }
  { case 3 show ?case using Cons(3) by (simp add: case_prod_beta Let_def Dyn_invoke_spec regs_panics_Cons(2) [of _ _ _ f fs]) }
qed (simp_all add: new_regs_def panics_of_def)

lemma Dyn_dispatch_each: "Dyn_dispatch zero call e h = Dyn_each zero call (kind_of e) (arg_of e) (Dyn_regs h (kind_of e)) h"
  by (cases e) (simp_all add: Dyn_DispatchTaskSubmitted_def Dyn_DispatchTaskEnqueued_def Dyn_DispatchTaskStarted_def
      Dyn_DispatchTaskCompleted_def Dyn_DispatchPoolClosed_def)

interpretation dynamic_hooks: hook_dispatcher call Dyn_NewHooks "Dyn_Add zero" "Dyn_dispatch zero call" Dyn_regs dyn_log
  for call :: "('f, 'c) hook_call" and zero :: 'f
proof (unfold_locales, goal_cases)
  case (1 k)
  show ?case by (cases k) (simp_all add: Dyn_NewHooks_def snapshot_def empty_snapshot_def)
next
  case (3 k f h)
  show ?case by (rule ext) (simp add: Dyn_Add_regs)
qed (simp_all add: Dyn_NewHooks_def Dyn_dispatch_each Dyn_each_spec)

section \<open>Properties\<close>

text \<open>
  C30.  The static dispatcher: for any sequence of registrations and events and any callbacks, even ones
  that panic or register further callbacks while they run, every event calls exactly the callbacks
  registered for it before the event, each once and in registration order, and logs each panic.
\<close>

theorem Hooks_dispatch_order:
  "fst (hooks_run Hooks_Add (Hooks_dispatch call) as NewHooks) = fst (ref_hooks_run call as (\<lambda>_. []) [])
   \<and> hooks_log (snd (hooks_run Hooks_Add (Hooks_dispatch call) as NewHooks)) = snd (snd (ref_hooks_run call as (\<lambda>_. []) []))"
  by (rule static_hooks.run_New)

text \<open>
  C31.  The dynamic dispatcher keeps the same contract: a callback registered during a dispatch applies to
  later events and never to the one in progress.
\<close>

theorem Dyn_dispatch_order:
  "fst (hooks_run (Dyn_Add zero) (Dyn_dispatch zero call) as Dyn_NewHooks) = fst (ref_hooks_run call as (\<lambda>_. []) [])
   \<and> dyn_log (snd (hooks_run (Dyn_Add zero) (Dyn_dispatch zero call) as Dyn_NewHooks)) = snd (snd (ref_hooks_run call as (\<lambda>_. []) []))"
  by (rule dynamic_hooks.run_New)

end
