(* ===== verification/Scaler.thy ===== *)
theory Scaler
  imports Config
begin

text \<open>
  The decision of \<open>scaleIfNeeded\<close> (\<open>pool.go\<close>): how many workers the scaler starts, as a function of what
  it reads.  The reads happen at different moments while the pool runs, so they are the fields of a
  record and nothing relates them; only the second read of the worker count, under \<open>p.lock\<close>, is a
  separate argument.  Rates are \<open>float64\<close>, counts are \<open>int64\<close>; the one sum that can overflow wraps.
\<close>

section \<open>Model\<close>

record scale_view =
  sv_submitMed :: float64
  sv_consumeMed :: float64
  sv_exitMed :: float64
  sv_running :: int
  sv_bufDepth :: int
  sv_totalBacklog :: int
  sv_queued :: int
  sv_now :: go_time

definition rateTarget :: "(float64 \<Rightarrow> int) \<Rightarrow> scale_view \<Rightarrow> int" where
  "rateTarget oor v =
     (if sv_running v > 0 \<and> fless (Fin 0) (sv_consumeMed v) \<and> fless (Fin 0) (sv_submitMed v)
      then f_to_int64 oor (fdiv (fmul (sv_submitMed v) (f_of_int (sv_running v))) (sv_consumeMed v))
      else 0)"

definition backlogTarget :: "(float64 \<Rightarrow> int) \<Rightarrow> 'h Config \<Rightarrow> scale_view \<Rightarrow> int" where
  "backlogTarget oor c v =
     (let bufCycles = fdiv (f_of_int (sv_bufDepth v)) (sv_consumeMed v);
          bufPressure = fmin (Fin 1) (fmul bufCycles (round64 (15 / 100)));
          dynamicDecay = fadd (backlogDecayFactor c) (fmul (fsub (Fin 1) (backlogDecayFactor c)) bufPressure);
          effectiveSubmit = fadd (sv_submitMed v) (fmul (f_of_int (sv_totalBacklog v)) dynamicDecay)
      in f_to_int64 oor (fdiv (fmul effectiveSubmit (f_of_int (sv_running v))) (sv_consumeMed v)))"

text \<open>The target before the caps, and the new value of \<open>lastZeroConsumeScale\<close>.\<close>

definition wantedWorkers :: "(float64 \<Rightarrow> int) \<Rightarrow> 'h Config \<Rightarrow> int \<Rightarrow> scale_view \<Rightarrow> go_time \<Rightarrow> int \<times> go_time" where
  "wantedWorkers oor c cap v lastZ =
     (let target = rateTarget oor v; running = sv_running v in
      if sv_totalBacklog v > 0 then
        if running = 0 then (sv_totalBacklog v, lastZ)
        else if fless (Fin 0) (sv_consumeMed v) then
          (let qTarget = backlogTarget oor c v in (if qTarget > target then qTarget else target, lastZ))
        else
          (let queued = sv_queued v; room = cap - running; now = sv_now v in
           if queued > 0 \<and> room > 0 \<and> time_sub now lastZ \<ge> zeroConsumeScaleInterval c then
             (let growth = min queued (min (max 1 running) (min (maxZeroConsumeScaleStep c) room))
              in (running + growth, now))
           else (target, lastZ))
      else (target, lastZ))"

definition scaleTarget :: "(float64 \<Rightarrow> int) \<Rightarrow> 'h Config \<Rightarrow> int \<Rightarrow> scale_view \<Rightarrow> go_time \<Rightarrow> int \<times> go_time" where
  "scaleTarget oor c cap v lastZ =
     (let (target, lastZ') = wantedWorkers oor c cap v lastZ;
          target = (if target > sv_totalBacklog v then sv_totalBacklog v else target)
      in (if target > cap then cap else target, lastZ'))"

definition exitPerTick :: "(float64 \<Rightarrow> int) \<Rightarrow> 'h Config \<Rightarrow> scale_view \<Rightarrow> int" where
  "exitPerTick oor c v =
     f_to_int64 oor (fdiv (fmul (sv_exitMed v) (f_of_int (scalerPeriod c))) (f_of_int (statsSamplePeriod c)))"

text \<open>\<open>toSpawn\<close> as it stands when the lock is taken; 0 for the early returns.\<close>

definition plannedSpawn :: "(float64 \<Rightarrow> int) \<Rightarrow> 'h Config \<Rightarrow> int \<Rightarrow> scale_view \<Rightarrow> int \<Rightarrow> int" where
  "plannedSpawn oor c cap v target =
     (let running = sv_running v in
      if target \<le> running then 0
      else
        let toSpawn = target - running;
            ept = exitPerTick oor c v;
            toSpawn = (if ept > 0 then int64 (toSpawn + ept) else toSpawn);
            maxSpawn = cap - running;
            toSpawn = (if toSpawn > maxSpawn then maxSpawn else toSpawn)
        in if toSpawn \<le> 0 then 0 else toSpawn)"

text \<open>The re-check under \<open>p.lock\<close> against the worker count read there.\<close>

definition actualSpawn :: "int \<Rightarrow> int \<Rightarrow> int \<Rightarrow> int" where
  "actualSpawn cap toSpawn currentRunning =
     (if toSpawn \<le> 0 then 0
      else
        let actual = cap - currentRunning;
            actual = (if toSpawn < actual then toSpawn else actual)
        in if actual \<le> 0 then 0 else actual)"

definition scaleDecision :: "(float64 \<Rightarrow> int) \<Rightarrow> 'h Config \<Rightarrow> int \<Rightarrow> scale_view \<Rightarrow> go_time \<Rightarrow> int \<Rightarrow> int \<times> go_time" where
  "scaleDecision oor c cap v lastZ currentRunning =
     (let (target, lastZ') = scaleTarget oor c cap v lastZ
      in (actualSpawn cap (plannedSpawn oor c cap v target) currentRunning, lastZ'))"

section \<open>Bounds\<close>

lemma actualSpawn_bounds:
  "0 \<le> actualSpawn cap n r" "actualSpawn cap n r \<le> max 0 n" "0 < actualSpawn cap n r \<Longrightarrow> r + actualSpawn cap n r \<le> cap"
  by (auto simp: actualSpawn_def Let_def split: if_splits)

lemma actualSpawn_id: "1 \<le> n \<Longrightarrow> n \<le> cap - r \<Longrightarrow> actualSpawn cap n r = n"
  by (simp add: actualSpawn_def Let_def)

lemma scaleTarget_caps: "fst (scaleTarget oor c cap v lastZ) \<le> sv_totalBacklog v" "fst (scaleTarget oor c cap v lastZ) \<le> cap"
  by (auto simp: scaleTarget_def Let_def split: prod.splits)

lemma plannedSpawn_bounds: "0 \<le> plannedSpawn oor c cap v t"
  "0 < plannedSpawn oor c cap v t \<Longrightarrow> plannedSpawn oor c cap v t \<le> cap - sv_running v"
  by (auto simp: plannedSpawn_def Let_def split: if_splits)

lemma plannedSpawn_exact:
  assumes "sv_running v < t" "t \<le> cap" "in_int64 (t - sv_running v + max 0 (exitPerTick oor c v))"
  shows "plannedSpawn oor c cap v t = min (t - sv_running v + max 0 (exitPerTick oor c v)) (cap - sv_running v)"
  using assms by (auto simp: plannedSpawn_def Let_def)

lemma scaleDecision_capacity:
  "scaleDecision oor c cap v lastZ current = (n, z) \<Longrightarrow> 0 < n \<Longrightarrow> current + n \<le> cap"
  using actualSpawn_bounds(3) [of cap "plannedSpawn oor c cap v (fst (scaleTarget oor c cap v lastZ))" current]
  by (auto simp: scaleDecision_def case_prod_beta Let_def)

lemma scaleDecision_restart:
  assumes "sv_running v = 0" "0 < sv_totalBacklog v" "0 < cap"
    and "sv_totalBacklog v + max 0 (exitPerTick oor c v) < 2 ^ 63"
  shows "min (sv_totalBacklog v) cap \<le> fst (scaleDecision oor c cap v lastZ 0)
    \<and> 1 \<le> fst (scaleDecision oor c cap v lastZ 0)"
proof -
  let ?t = "fst (scaleTarget oor c cap v lastZ)"
  have t: "?t = min (sv_totalBacklog v) cap"
    using assms by (simp add: scaleTarget_def wantedWorkers_def Let_def)
  have "in_int64 (?t - sv_running v + max 0 (exitPerTick oor c v))"
    using assms t by (auto simp: in_int64_def min_def max_def)
  with plannedSpawn_exact [of v ?t cap oor c] assms t
  have p: "plannedSpawn oor c cap v ?t = min (?t + max 0 (exitPerTick oor c v)) cap" by simp
  have "1 \<le> plannedSpawn oor c cap v ?t" "plannedSpawn oor c cap v ?t \<le> cap - 0"
    using p assms(2,3) unfolding t by auto
  from actualSpawn_id [OF this] have "fst (scaleDecision oor c cap v lastZ 0) = plannedSpawn oor c cap v ?t"
    by (simp add: scaleDecision_def case_prod_beta Let_def)
  then show ?thesis using p assms(2,3) unfolding t by auto
qed





section \<open>A concrete view\<close>

definition sample_view :: "int \<Rightarrow> scale_view" where
  "sample_view running = \<lparr>sv_submitMed = Fin 0, sv_consumeMed = Fin 0, sv_exitMed = Fin 0, sv_running = running,
     sv_bufDepth = 0, sv_totalBacklog = 9, sv_queued = 7, sv_now = 5000000000\<rparr>"

lemma exitPerTick_zero:
  assumes "sv_exitMed v = Fin 0" "0 < statsSamplePeriod c" "statsSamplePeriod c < 2 ^ 53" "0 < scalerPeriod c" "scalerPeriod c < 2 ^ 53"
  shows "exitPerTick oor c v = 0"
proof -
  have "f_of_int (scalerPeriod c) = Fin (of_int (scalerPeriod c))" "f_of_int (statsSamplePeriod c) = Fin (of_int (statsSamplePeriod c))"
    using assms(2-) by (simp_all add: f_of_int_exact)
  then show ?thesis
    using f_to_int64_int [of 0 oor] assms(1,2) by (simp add: exitPerTick_def round64_def in_int64_def)
qed

lemma exitPerTick_none: "sv_exitMed v = Fin 0 \<Longrightarrow> exitPerTick oor defaultConfig v = 0"
  by (rule exitPerTick_zero)
    (simp_all add: defaultConfig_def defaultScalerPeriod_def defaultStatsSamplePeriod_def Millisecond_def)

lemma sample_exit: "exitPerTick oor defaultConfig (sample_view r) = 0"
  by (rule exitPerTick_none) (simp add: sample_view_def)


section \<open>Properties\<close>

text \<open>
  C23.  The brake: apart from the compensation for exiting workers, a scaling step never raises the worker
  count above the number of pending tasks.
\<close>

theorem scale_braked_by_pending:
  assumes "0 \<le> sv_totalBacklog v" "0 \<le> sv_running v" "sv_totalBacklog v + max 0 (exitPerTick oor c v) < 2 ^ 63"
  shows "sv_running v + fst (scaleDecision oor c cap v lastZ current)
           \<le> max (sv_running v) (sv_totalBacklog v + max 0 (exitPerTick oor c v))"
proof -
  let ?t = "fst (scaleTarget oor c cap v lastZ)"
  have "plannedSpawn oor c cap v ?t \<le> max 0 (sv_totalBacklog v - sv_running v + max 0 (exitPerTick oor c v))"
  proof (cases "sv_running v < ?t")
    case True
    have "in_int64 (?t - sv_running v + max 0 (exitPerTick oor c v))"
      using True scaleTarget_caps(1) [of oor c cap v lastZ] assms by (simp add: in_int64_def)
    from plannedSpawn_exact [OF True scaleTarget_caps(2) this] scaleTarget_caps(1) [of oor c cap v lastZ]
    show ?thesis by linarith
  qed (simp add: plannedSpawn_def)
  with actualSpawn_bounds(2) [of cap "plannedSpawn oor c cap v ?t" current] show ?thesis
    by (simp add: scaleDecision_def case_prod_beta Let_def)
qed

theorem scale_braked_by_pending_witness:
  "2 + fst (scaleDecision (\<lambda>_. 0) (defaultConfig :: unit Config) 100 (sample_view 2) 0 2) \<le> 9"
  using scale_braked_by_pending [of "sample_view 2" "\<lambda>_. 0" "defaultConfig :: unit Config" 100 0 2]
  by (simp add: sample_exit) (simp add: sample_view_def)

text \<open>
  C24.  No stranded backlog: when the scaler finds no running worker and pending tasks, it starts at least
  one worker, and as many as there are pending tasks or as the capacity allows.
\<close>

theorem scale_restarts_stalled_pool:
  assumes "sv_running v = 0" "0 < sv_totalBacklog v" "0 < cap"
    and "sv_totalBacklog v + max 0 (exitPerTick oor c v) < 2 ^ 63"
  shows "min (sv_totalBacklog v) cap \<le> fst (scaleDecision oor c cap v lastZ 0)
    \<and> 1 \<le> fst (scaleDecision oor c cap v lastZ 0)"
  by (rule scaleDecision_restart [OF assms])

theorem scale_restarts_stalled_pool_witness:
  "9 \<le> fst (scaleDecision (\<lambda>_. 0) (defaultConfig :: unit Config) 100 (sample_view 0) 0 0)"
  using scale_restarts_stalled_pool [of "sample_view 0" 100 "\<lambda>_. 0" "defaultConfig :: unit Config" 0]
  by (simp add: sample_exit) (simp add: sample_view_def)



end
