(* ===== verification/Pool.thy ===== *)
theory Pool
  imports Idle_Works Task_Buffer Histogram Task Shards Hooks Scaler
begin

unbundle bit_operations_syntax

text \<open>
  \<open>pool.go\<close> and \<open>worker.go\<close>: the pool's state and every operation on it, each run to completion by one
  goroutine.  \<open>None\<close> is a panic (or, for the worker's loop, not returning).  What the pool starts, runs,
  logs and raises is recorded in the last fields of the state.  The interleaving of several goroutines
  is the subject of the theory \<open>Pool_Concurrent\<close>.
\<close>

section \<open>State\<close>

datatype pool_log = HookPanicked string | HandlerPanicked string | TaskPanicked string

text \<open>The goroutines that \<open>NewPool\<close> starts.\<close>

datatype pool_loop = CleanerLoop | SamplerLoop | ScalerLoop

record ('c, 'k, 'h) Pool =
  taskQueues :: "'c Task chan list"
  shardMask :: "64 word"
  sendSeq :: "64 word"
  workerSeq :: "64 word"
  taskQueueSize :: int
  closePoolCn :: bool
  capacity :: int
  runningWorkersNum :: int
  closed :: bool
  muIdle :: LockType
  idleWorks :: IdleWorks
  config :: "'h Config"
  wg :: int
  logger :: "nat option"
  workerCreateCount :: int
  taskBuf :: "'c Task chunkedTaskBuffer"
  pendingTasks :: int
  submitCount :: int
  consumeCount :: int
  exitCount :: int
  submitHist :: histogram
  consumeHist :: histogram
  exitHist :: histogram
  lastZeroConsumeScale :: go_time
  hooks :: "'k option"
  panicHandler :: "'h option"
  loops :: "pool_loop list"
  ticks :: nat
  launched :: "worker list"
  ran :: "('c Task \<times> task_event list \<times> string option) list"
  raised :: "'c pool_event list"
  plog :: "(nat \<times> pool_log) list"

text \<open>
  What is not the pool's own code: contexts, the clock (one reading per index), user hooks and panic
  handlers (each may panic), and the conversion of out-of-range floats.
\<close>

record ('c, 'k, 'h) env =
  background :: 'c
  ctx_done :: "'c \<Rightarrow> bool"
  clock :: "nat \<Rightarrow> go_time"
  hook_dispatch :: "'c pool_event \<Rightarrow> 'k \<Rightarrow> string option \<times> 'k"
  handler_call :: "'h \<Rightarrow> 'c Task \<Rightarrow> string \<Rightarrow> string option"
  float_oor :: "float64 \<Rightarrow> int"

text \<open>The standard-library logger is number 0.\<close>

definition stdLogger :: nat where "stdLogger = 0"

definition getLogger :: "('c, 'k, 'h) Pool \<Rightarrow> nat" where
  "getLogger p = (case logger p of Some l \<Rightarrow> l | None \<Rightarrow> stdLogger)"

definition SetLogger :: "nat option \<Rightarrow> ('c, 'k, 'h) Pool \<Rightarrow> ('c, 'k, 'h) Pool" where
  "SetLogger l p = p\<lparr>logger := l\<rparr>"

definition SetHook :: "'k option \<Rightarrow> ('c, 'k, 'h) Pool \<Rightarrow> ('c, 'k, 'h) Pool" where
  "SetHook h p = p\<lparr>hooks := h\<rparr>"

definition log_line :: "pool_log \<Rightarrow> ('c, 'k, 'h) Pool \<Rightarrow> ('c, 'k, 'h) Pool" where
  "log_line m p = p\<lparr>plog := plog p @ [(getLogger p, m)]\<rparr>"

section \<open>Construction\<close>

definition newPoolState ::
  "nat \<Rightarrow> 'c Task chan list \<Rightarrow> 'h Config \<Rightarrow> ('c, 'k, 'h) Pool" where
  "newPoolState windowSize qs c =
     \<lparr>taskQueues = qs, shardMask = shardMaskOf (int (length qs)), sendSeq = 0, workerSeq = 0,
      taskQueueSize = cfg_taskQueueSize c, closePoolCn = False, capacity = workerNumCapacity c,
      runningWorkersNum = 0, closed = False,
      muIdle = (if lockType c = SpinLock then SpinLock else MutexLock), idleWorks = newIdleWorks (idleContainerType c), config = c,
      wg = 0, logger = Some stdLogger, workerCreateCount = 0, taskBuf = newChunkedTaskBuffer,
      pendingTasks = 0, submitCount = 0, consumeCount = 0, exitCount = 0,
      submitHist = newHistogram submitBuckets windowSize,
      consumeHist = newHistogram consumeBuckets windowSize,
      exitHist = newHistogram exitBuckets windowSize,
      lastZeroConsumeScale = time_zero, hooks = None, panicHandler = cfg_panicHandler c,
      loops = [CleanerLoop, SamplerLoop, ScalerLoop], ticks = 0, launched = [], ran = [], raised = [], plog = []\<rparr>"

text \<open>\<open>NewPool\<close>; a nil configuration is \<open>None\<close>.\<close>

definition NewPool :: "int \<Rightarrow> int \<Rightarrow> 'h Config option \<Rightarrow> ('c, 'k, 'h) Pool option" where
  "NewPool maxMake procs c = do {
     let c = (case c of None \<Rightarrow> NewConfig [] | Some c \<Rightarrow> c);
     qs \<leftarrow> newTaskQueues maxMake procs c;
     if 0 \<le> statsWindowSize c \<and> statsWindowSize c \<le> maxMake
     then Some (newPoolState (nat (statsWindowSize c)) qs c) else None }"

section \<open>Hooks, panics, counters\<close>

definition dispatchHook :: "('c, 'k, 'h) env \<Rightarrow> 'c pool_event \<Rightarrow> ('c, 'k, 'h) Pool \<Rightarrow> ('c, 'k, 'h) Pool" where
  "dispatchHook env e p =
     (case hooks p of
        None \<Rightarrow> p
      | Some k \<Rightarrow>
          let (r, k') = hook_dispatch env e k;
              p1 = p\<lparr>hooks := Some k', raised := raised p @ [e]\<rparr>
          in case r of None \<Rightarrow> p1 | Some v \<Rightarrow> log_line (HookPanicked v) p1)"

definition handlePanic :: "('c, 'k, 'h) env \<Rightarrow> 'c Task \<Rightarrow> string \<Rightarrow> ('c, 'k, 'h) Pool \<Rightarrow> ('c, 'k, 'h) Pool" where
  "handlePanic env task recovered p =
     (case panicHandler p of
        None \<Rightarrow> log_line (TaskPanicked recovered) p
      | Some handler \<Rightarrow>
          (case handler_call env handler task recovered of
             None \<Rightarrow> p
           | Some r \<Rightarrow> log_line (HandlerPanicked r) p))"

text \<open>A negative wait-group counter panics.\<close>

definition pool_done :: "('c, 'k, 'h) Pool \<Rightarrow> ('c, 'k, 'h) Pool option" where
  "pool_done p = (let p1 = p\<lparr>pendingTasks := pendingTasks p - 1\<rparr> in
     if wg p1 \<le> 0 then None else Some (p1\<lparr>wg := wg p1 - 1\<rparr>))"

text \<open>The context hooks see: that of the wrapping \<open>contextTask\<close>; a nil wrapper is dereferenced.\<close>

definition hookCtx :: "('c, 'k, 'h) env \<Rightarrow> 'c Task \<Rightarrow> 'c option" where
  "hookCtx env task =
     (case task of
        ContextTask None \<Rightarrow> None
      | ContextTask (Some (ctx, _)) \<Rightarrow> Some ctx
      | _ \<Rightarrow> Some (background env))"

definition dispatchTaskEnqueuedFor :: "('c, 'k, 'h) env \<Rightarrow> 'c Task \<Rightarrow> ('c, 'k, 'h) Pool \<Rightarrow> ('c, 'k, 'h) Pool option" where
  "dispatchTaskEnqueuedFor env task p = do {
     ctx \<leftarrow> hookCtx env task;
     Some (dispatchHook env (EvEnqueued ctx) p) }"

section \<open>Workers\<close>

text \<open>\<open>workerPool.Get\<close>: nothing is ever put into this \<open>sync.Pool\<close>, so it always calls \<open>New\<close>.\<close>

definition workerPool_Get :: "('c, 'k, 'h) Pool \<Rightarrow> worker \<times> ('c, 'k, 'h) Pool" where
  "workerPool_Get p =
     (\<lparr>wid = nat (workerCreateCount p), lastActiveAt = time_zero, cursor = 0\<rparr>,
      p\<lparr>workerCreateCount := workerCreateCount p + 1\<rparr>)"

definition startWorker :: "worker \<Rightarrow> ('c, 'k, 'h) Pool \<Rightarrow> ('c, 'k, 'h) Pool" where
  "startWorker w p =
     (let seq = workerSeq p + 1
      in p\<lparr>workerSeq := seq, launched := launched p @ [w\<lparr>cursor := seq AND shardMask p\<rparr>]\<rparr>)"

definition addToIdle :: "nat option \<times> int \<Rightarrow> worker \<Rightarrow> ('c, 'k, 'h) Pool \<Rightarrow> ('c, 'k, 'h) Pool option" where
  "addToIdle draw w p = do {
     c \<leftarrow> Idle_Add draw (Some w) (idleWorks p);
     Some (p\<lparr>idleWorks := c\<rparr>) }"

definition addRunningWorkersNum :: "int \<Rightarrow> ('c, 'k, 'h) Pool \<Rightarrow> ('c, 'k, 'h) Pool" where
  "addRunningWorkersNum n p = p\<lparr>runningWorkersNum := runningWorkersNum p + n\<rparr>"

section \<open>Submission\<close>

text \<open>\<open>select { case p.nextShard() <- t: ... default: ... }\<close>\<close>

definition shard_send :: "nat \<Rightarrow> 'c Task \<Rightarrow> ('c, 'k, 'h) Pool \<Rightarrow> (bool \<times> ('c, 'k, 'h) Pool) option" where
  "shard_send i t p = do {
     q \<leftarrow> go_get (taskQueues p) i;
     Some (case try_send t q of
             None \<Rightarrow> (False, p)
           | Some q' \<Rightarrow> (True, p\<lparr>taskQueues := (taskQueues p)[i := q']\<rparr>)) }"

definition pick_shard :: "('c, 'k, 'h) Pool \<Rightarrow> nat \<times> ('c, 'k, 'h) Pool" where
  "pick_shard p = (let (i, seq) = nextShard (shardMask p) (sendSeq p) in (i, p\<lparr>sendSeq := seq\<rparr>))"

definition offer :: "'c Task \<Rightarrow> ('c, 'k, 'h) Pool \<Rightarrow> (bool \<times> ('c, 'k, 'h) Pool) option" where
  "offer t p = (let (i, p1) = pick_shard p in shard_send i t p1)"

text \<open>
  The forwarding callback passed to the buffer; a panic inside it (\<open>None\<close>) is carried to the caller.
  A nil head of the buffer would be sent as a nil task.
\<close>

fun tryForward :: "'c Task option \<Rightarrow> ('c, 'k, 'h) Pool option \<Rightarrow> bool \<times> ('c, 'k, 'h) Pool option" where
  "tryForward t None = (False, None)"
| "tryForward t (Some p) =
     (case offer (case t of None \<Rightarrow> NilTask | Some x \<Rightarrow> x) p of
        None \<Rightarrow> (False, None)
      | Some (sent, p') \<Rightarrow> (sent, Some p'))"

datatype submit_status = Returned bool | Blocked nat

datatype select_case = CaseSend | CaseDone | CaseClosed

text \<open>
  The last \<open>select\<close>: one of the ready cases is taken, whichever \<open>pick\<close> says; with none ready the
  submitter waits for shard \<open>i\<close>.
\<close>

definition ready_cases :: "('c, 'k, 'h) env \<Rightarrow> 'c \<Rightarrow> 'c Task chan \<Rightarrow> ('c, 'k, 'h) Pool \<Rightarrow> select_case list" where
  "ready_cases env ctx q p =
     (if length (chan_buf q) < chan_cap q then [CaseSend] else [])
     @ (if ctx_done env ctx then [CaseDone] else [])
     @ (if closePoolCn p then [CaseClosed] else [])"

definition wait_select ::
  "('c, 'k, 'h) env \<Rightarrow> nat \<Rightarrow> 'c \<Rightarrow> nat \<Rightarrow> 'c Task \<Rightarrow> ('c, 'k, 'h) Pool \<Rightarrow> (submit_status \<times> ('c, 'k, 'h) Pool) option" where
  "wait_select env pick ctx i task p = do {
     q \<leftarrow> go_get (taskQueues p) i;
     let ready = ready_cases env ctx q p;
     if ready = [] then Some (Blocked i, p)
     else (case ready ! (pick mod length ready) of
             CaseSend \<Rightarrow> do {
               (_, p1) \<leftarrow> shard_send i task p;
               p2 \<leftarrow> dispatchTaskEnqueuedFor env task p1;
               Some (Returned True, p2) }
           | _ \<Rightarrow> do { p1 \<leftarrow> pool_done p; Some (Returned False, p1) }) }"

definition coldStart :: "('c, 'k, 'h) Pool \<Rightarrow> ('c, 'k, 'h) Pool" where
  "coldStart p =
     (if runningWorkersNum p = 0
      then let (w, p1) = workerPool_Get (p\<lparr>runningWorkersNum := 1\<rparr>) in startWorker w p1
      else p)"

text \<open>The part of \<open>submit\<close> after the hook dispatch; \<open>ch\<close> is the recycled chunk, if any, that the buffer gets.\<close>

definition enqueue ::
  "('c, 'k, 'h) env \<Rightarrow> nat option \<Rightarrow> nat \<Rightarrow> 'c \<Rightarrow> 'c Task \<Rightarrow> ('c, 'k, 'h) Pool \<Rightarrow> (submit_status \<times> ('c, 'k, 'h) Pool) option" where
  "enqueue env ch pick ctx task p = do {
     (sent, p1) \<leftarrow> offer task p;
     if sent then do { p2 \<leftarrow> dispatchTaskEnqueuedFor env task p1; Some (Returned True, p2) }
     else if workMode (config p1) = NONBLOCK then do { p2 \<leftarrow> pool_done p1; Some (Returned False, p2) }
     else do {
       (result, fwd, buf) \<leftarrow> PushAndForward ch task tryForward (Some p1) (taskBuf p1);
       p2 \<leftarrow> fwd;
       let p2 = p2\<lparr>taskBuf := buf\<rparr>;
       (case result of
          taskBufferClosed \<Rightarrow> do { p3 \<leftarrow> pool_done p2; Some (Returned False, p3) }
        | taskBufferFull \<Rightarrow> (let (i, p3) = pick_shard p2 in wait_select env pick ctx i task p3)
        | taskBufferAccepted \<Rightarrow> do { p3 \<leftarrow> dispatchTaskEnqueuedFor env task p2; Some (Returned True, p3) }) } }"

definition submit ::
  "('c, 'k, 'h) env \<Rightarrow> nat option \<Rightarrow> nat \<Rightarrow> 'c \<Rightarrow> 'c Task \<Rightarrow> ('c, 'k, 'h) Pool \<Rightarrow> (submit_status \<times> ('c, 'k, 'h) Pool) option" where
  "submit env ch pick ctx task p = (
     let p1 = p\<lparr>pendingTasks := pendingTasks p + 1, wg := wg p + 1\<rparr> in
     if closed p1 then do { p2 \<leftarrow> pool_done p1; Some (Returned False, p2) }
     else
       let p2 = coldStart (p1\<lparr>submitCount := submitCount p1 + 1\<rparr>) in do {
         hctx \<leftarrow> hookCtx env task;
         enqueue env ch pick ctx task (dispatchHook env (EvSubmitted hctx) p2) })"

text \<open>
  The four entry points.  \<open>Submit\<close> ignores the result that \<open>TrySubmit\<close> reports.  For \<open>SubmitBefore\<close>,
  \<open>tctx\<close> is the context that \<open>context.WithTimeout\<close> returned; its \<open>cancel\<close> only releases a timer.
\<close>

definition TrySubmit where
  "TrySubmit env ch pick task p =
     (if isNilTask task then Some (Returned False, p) else submit env ch pick (background env) task p)"

definition Submit where
  "Submit env ch pick task p =
     (if isNilTask task then Some (Returned True, p) else submit env ch pick (background env) task p)"

definition SubmitCtx where
  "SubmitCtx env ch pick ctx task p =
     (if isNilTask task then Some (Returned True, p)
      else
        let c = (case ctx of None \<Rightarrow> background env | Some c \<Rightarrow> c) in
        if ctx_done env c then Some (Returned True, p)
        else submit env ch pick c (ContextTask (Some (c, task))) p)"

definition SubmitBefore where
  "SubmitBefore env ch pick tctx task p =
     (if isNilTask task then Some (Returned True, p)
      else submit env ch pick tctx (TaskFunc (Some (DeadlineFn tctx task))) p)"

section \<open>The worker\<close>

definition runTask :: "('c, 'k, 'h) env \<Rightarrow> 'c Task \<Rightarrow> ('c, 'k, 'h) Pool \<Rightarrow> ('c, 'k, 'h) Pool option" where
  "runTask env task p = do {
     let p1 = p\<lparr>consumeCount := consumeCount p + 1\<rparr>;
     ctx \<leftarrow> hookCtx env task;
     let p2 = dispatchHook env (EvStarted ctx) p1;
     let (trace, recovered) = process (float_oor env) (ctx_done env) task;
     let p3 = p2\<lparr>ran := ran p2 @ [(task, trace, recovered)]\<rparr>;
     let p4 = (case recovered of None \<Rightarrow> p3 | Some v \<Rightarrow> handlePanic env task v p3);
     let p5 = dispatchHook env (EvCompleted ctx recovered) p4;
     pool_done p5 }"

text \<open>\<open>w.lastActiveAt = time.Now()\<close>\<close>

definition touch :: "('c, 'k, 'h) env \<Rightarrow> worker \<Rightarrow> ('c, 'k, 'h) Pool \<Rightarrow> worker \<times> ('c, 'k, 'h) Pool" where
  "touch env w p = (w\<lparr>lastActiveAt := clock env (ticks p)\<rparr>, p\<lparr>ticks := ticks p + 1\<rparr>)"

fun run_batch :: "('c, 'k, 'h) env \<Rightarrow> 'c Task option list \<Rightarrow> worker \<Rightarrow> ('c, 'k, 'h) Pool \<Rightarrow> (worker \<times> ('c, 'k, 'h) Pool) option" where
  "run_batch env [] w p = Some (w, p)"
| "run_batch env (t # ts) w p = do {
     let (w1, p1) = touch env w p;
     p2 \<leftarrow> runTask env (case t of None \<Rightarrow> NilTask | Some x \<Rightarrow> x) p1;
     run_batch env ts w1 p2 }"

definition park :: "nat option \<times> int \<Rightarrow> worker \<Rightarrow> ('c, 'k, 'h) Pool \<Rightarrow> ('c, 'k, 'h) Pool option" where
  "park draw w p =
     (let p1 = addRunningWorkersNum (- 1) p; p2 = p1\<lparr>exitCount := exitCount p1 + 1\<rparr>
      in addToIdle draw w p2)"

definition batchSize :: nat where "batchSize = 8"

definition is_nil :: "'c Task \<Rightarrow> bool" where
  "is_nil t = (case t of NilTask \<Rightarrow> True | _ \<Rightarrow> False)"

partial_function (option) run_loop ::
  "('c, 'k, 'h) env \<Rightarrow> nat option \<times> int \<Rightarrow> worker \<Rightarrow> ('c, 'k, 'h) Pool \<Rightarrow> ('c, 'k, 'h) Pool option" where
  "run_loop env draw w p = do {
     (found, qs) \<leftarrow> nextShardTask is_nil (shardMask p) (cursor w) (taskQueues p);
     let p0 = p\<lparr>taskQueues := qs\<rparr>;
     (case found of
        Some (t, idx) \<Rightarrow> do {
          let (w1, p1) = touch env (w\<lparr>cursor := idx\<rparr>) p0;
          p2 \<leftarrow> runTask env t p1;
          run_loop env draw w1 p2 }
      | None \<Rightarrow> do {
          (batch, buf) \<leftarrow> PopBatch batchSize (taskBuf p0);
          let p1 = p0\<lparr>taskBuf := buf\<rparr>;
          if batch \<noteq> [] then do { (w1, p2) \<leftarrow> run_batch env batch w p1; run_loop env draw w1 p2 }
          else park draw w p1 }) }"

text \<open>\<open>worker.run\<close>; the pool always starts it with a nil task.\<close>

definition worker_run ::
  "('c, 'k, 'h) env \<Rightarrow> nat option \<times> int \<Rightarrow> 'c Task \<Rightarrow> worker \<Rightarrow> ('c, 'k, 'h) Pool \<Rightarrow> ('c, 'k, 'h) Pool option" where
  "worker_run env draw task w p = do {
     let (w1, p1) = touch env w p;
     p2 \<leftarrow> (if \<not> is_nil task then runTask env task p1 else Some p1);
     run_loop env draw w1 p2 }"

section \<open>Background goroutines\<close>

definition cleaner_tick :: "go_time \<Rightarrow> ('c, 'k, 'h) Pool \<Rightarrow> ('c, 'k, 'h) Pool option" where
  "cleaner_tick now p = do {
     (_, c) \<leftarrow> Idle_RemoveExpired now (1 * Second) (idleWorks p);
     Some (p\<lparr>idleWorks := c\<rparr>) }"

text \<open>The cleaner's loop, by what its \<open>select\<close> receives: a tick, or the closing of \<open>closePoolCn\<close>.  It reports whether it has returned.\<close>

datatype clean_event = TickAt go_time | CloseSeen

fun expiredWorkerCleaner :: "clean_event list \<Rightarrow> ('c, 'k, 'h) Pool \<Rightarrow> (bool \<times> ('c, 'k, 'h) Pool) option" where
  "expiredWorkerCleaner [] p = Some (False, p)"
| "expiredWorkerCleaner (TickAt now # es) p = do { p1 \<leftarrow> cleaner_tick now p; expiredWorkerCleaner es p1 }"
| "expiredWorkerCleaner (CloseSeen # es) p = Some (True, p)"

definition sampleRates :: "('c, 'k, 'h) Pool \<Rightarrow> ('c, 'k, 'h) Pool option" where
  "sampleRates p = do {
     let sub = submitCount p; let con = consumeCount p; let ext = exitCount p;
     let p1 = p\<lparr>submitCount := 0, consumeCount := 0, exitCount := 0\<rparr>;
     sh \<leftarrow> hist_add sub (submitHist p1);
     ch \<leftarrow> hist_add con (consumeHist p1);
     eh \<leftarrow> hist_add ext (exitHist p1);
     Some (p1\<lparr>submitHist := sh, consumeHist := ch, exitHist := eh\<rparr>) }"

definition getMedianRates :: "('c, 'k, 'h) Pool \<Rightarrow> (float64 \<times> float64 \<times> float64) option" where
  "getMedianRates p = do {
     s \<leftarrow> median (submitHist p); c \<leftarrow> median (consumeHist p); e \<leftarrow> median (exitHist p);
     Some (s, c, e) }"

definition queuedTasks :: "('c, 'k, 'h) Pool \<Rightarrow> int" where
  "queuedTasks p = GetTaskQueueLen (taskQueues p) + Buffer_Len (taskBuf p)"

text \<open>The spawn loop: idle workers are reused before new ones are allocated.\<close>

fun spawn :: "nat \<Rightarrow> ('c, 'k, 'h) Pool \<Rightarrow> ('c, 'k, 'h) Pool option" where
  "spawn 0 p = Some p"
| "spawn (Suc n) p = do {
     (w, c) \<leftarrow> Idle_Pop (idleWorks p);
     let p1 = p\<lparr>idleWorks := c\<rparr>;
     let (v, p2) = (case w of None \<Rightarrow> workerPool_Get p1 | Some v \<Rightarrow> (v, p1));
     spawn n (startWorker v p2) }"

definition scaleIfNeeded :: "('c, 'k, 'h) env \<Rightarrow> go_time \<Rightarrow> ('c, 'k, 'h) Pool \<Rightarrow> ('c, 'k, 'h) Pool option" where
  "scaleIfNeeded env now p = do {
     (submitMed, consumeMed, exitMed) \<leftarrow> getMedianRates p;
     let v = \<lparr>sv_submitMed = submitMed, sv_consumeMed = consumeMed, sv_exitMed = exitMed,
              sv_running = runningWorkersNum p, sv_bufDepth = Buffer_Len (taskBuf p),
              sv_totalBacklog = pendingTasks p, sv_queued = queuedTasks p, sv_now = now\<rparr>;
     let (n, lastZ) = scaleDecision (float_oor env) (config p) (capacity p) v (lastZeroConsumeScale p)
                        (runningWorkersNum p);
     let p1 = p\<lparr>lastZeroConsumeScale := lastZ\<rparr>;
     spawn (nat n) (addRunningWorkersNum n p1) }"

text \<open>The condition on which the sampler and the scaler stop.\<close>

definition drained :: "('c, 'k, 'h) Pool \<Rightarrow> bool" where
  "drained p \<longleftrightarrow> closed p \<and> pendingTasks p = 0"

text \<open>One round of the loops of \<open>statsSampler\<close> and \<open>scaler\<close>: the work of a tick and whether the loop then returns.\<close>

definition sampler_tick :: "('c, 'k, 'h) Pool \<Rightarrow> (bool \<times> ('c, 'k, 'h) Pool) option" where
  "sampler_tick p = do { p1 \<leftarrow> sampleRates p; Some (drained p1, p1) }"

definition scaler_tick :: "('c, 'k, 'h) env \<Rightarrow> go_time \<Rightarrow> ('c, 'k, 'h) Pool \<Rightarrow> (bool \<times> ('c, 'k, 'h) Pool) option" where
  "scaler_tick env now p = do { p1 \<leftarrow> scaleIfNeeded env now p; Some (drained p1, p1) }"

section \<open>Shutdown and getters\<close>

definition Close :: "('c, 'k, 'h) env \<Rightarrow> ('c, 'k, 'h) Pool \<Rightarrow> ('c, 'k, 'h) Pool" where
  "Close env p =
     (if closed p then p
      else
        let p1 = p\<lparr>closed := True\<rparr>;
            p2 = p1\<lparr>taskBuf := Buffer_Close (taskBuf p1)\<rparr>;
            p3 = p2\<lparr>closePoolCn := True\<rparr>
        in dispatchHook env EvClosed p3)"

text \<open>\<open>Wait\<close> returns when the wait group's counter is zero.\<close>

definition Wait_returns :: "('c, 'k, 'h) Pool \<Rightarrow> bool" where
  "Wait_returns p \<longleftrightarrow> wg p = 0"

definition GetRunningWorkersNum :: "('c, 'k, 'h) Pool \<Rightarrow> int" where
  "GetRunningWorkersNum p = runningWorkersNum p"

definition GetWorkerCreateCount :: "('c, 'k, 'h) Pool \<Rightarrow> int" where
  "GetWorkerCreateCount p = workerCreateCount p"

definition GetTaskQueueCapacity :: "('c, 'k, 'h) Pool \<Rightarrow> int" where
  "GetTaskQueueCapacity p = taskQueueSize p"

definition GetIdleWorkerCount :: "('c, 'k, 'h) Pool \<Rightarrow> int" where
  "GetIdleWorkerCount p = Idle_Len (idleWorks p)"

definition GetCapacity :: "('c, 'k, 'h) Pool \<Rightarrow> int" where
  "GetCapacity p = capacity p"

section \<open>The package\<close>

text \<open>
  The pools made so far, by address, the package variable \<open>defaultPool\<close>, and the calls of \<open>Close\<close> that have set \<open>closed\<close> and
  still have to reset \<open>defaultPool\<close>.
\<close>

record ('c, 'k, 'h) pkg =
  pools :: "('c, 'k, 'h) Pool list"
  defaultPool :: "nat option"
  closing :: "nat list"

definition GetDefaultPool :: "('c, 'k, 'h) pkg \<Rightarrow> nat option" where
  "GetDefaultPool g =
     (case defaultPool g of
        None \<Rightarrow> None
      | Some a \<Rightarrow> if closed (pools g ! a) then None else Some a)"

text \<open>The whole of \<open>NewPool\<close>, whose last action is \<open>defaultPool.Store\<close>.\<close>

definition NewPool_pkg :: "int \<Rightarrow> int \<Rightarrow> 'h Config option \<Rightarrow> ('c, 'k, 'h) pkg \<Rightarrow> (nat \<times> ('c, 'k, 'h) pkg) option" where
  "NewPool_pkg maxMake procs c g = do {
     p \<leftarrow> NewPool maxMake procs c;
     let a = length (pools g);
     Some (a, g\<lparr>pools := pools g @ [p], defaultPool := Some a\<rparr>) }"

text \<open>\<open>defaultPool.CompareAndSwap(p, nil)\<close>\<close>

definition reset_default :: "nat \<Rightarrow> ('c, 'k, 'h) pkg \<Rightarrow> ('c, 'k, 'h) pkg" where
  "reset_default a g = (if defaultPool g = Some a then g\<lparr>defaultPool := None\<rparr> else g)"

text \<open>The whole of \<open>Close\<close> on the pool at \<open>a\<close>.\<close>

definition Close_pkg :: "('c, 'k, 'h) env \<Rightarrow> nat \<Rightarrow> ('c, 'k, 'h) pkg \<Rightarrow> ('c, 'k, 'h) pkg option" where
  "Close_pkg env a g = do {
     p \<leftarrow> go_get (pools g) a;
     Some (if closed p then g else (reset_default a g)\<lparr>pools := (pools g)[a := Close env p]\<rparr>) }"

end
