(* ===== verification/Pool_Submit.thy ===== *)
theory Pool_Submit
  imports Pool
begin

text \<open>
  The pool's invariant, and what the submission path does to it: every submission returns, is counted
  exactly once, and either queues its task, rejects it or leaves the submitter waiting.
\<close>

section \<open>Invariant\<close>

text \<open>
  \<open>pool_rep p xs fl\<close>: the overflow buffer holds \<open>xs\<close>, and \<open>fl\<close> tasks are in flight outside the queues
  (executing in another worker, or in the hands of a blocked submitter).
\<close>

definition pool_rep :: "('c, 'k, 'h) Pool \<Rightarrow> 'c Task list \<Rightarrow> nat \<Rightarrow> bool" where
  "pool_rep p xs fl \<longleftrightarrow>
     (\<exists>k < 64. length (taskQueues p) = 2 ^ k \<and> shardMask p = shardMaskOf (2 ^ k))
     \<and> holds (taskBuf p) xs
     \<and> (\<forall>t \<in> set (queued (taskQueues p)) \<union> set xs. \<not> isNilTask t)
     \<and> Idle_inv (idleWorks p) \<and> None \<notin># Idle_elems (idleWorks p)
     \<and> pendingTasks p = wg p
     \<and> wg p = int (length (queued (taskQueues p)) + length xs + fl)
     \<and> 0 \<le> runningWorkersNum p
     \<and> overflowClosed (taskBuf p) = closed p \<and> closePoolCn p = closed p"

definition pool_holds :: "('c, 'k, 'h) Pool \<Rightarrow> 'c Task multiset \<Rightarrow> nat \<Rightarrow> bool" where
  "pool_holds p M fl \<longleftrightarrow> (\<exists>xs. pool_rep p xs fl \<and> M = mset (queued (taskQueues p)) + mset xs)"

text \<open>The histograms, which only the sampler changes.\<close>

definition hists :: "('c, 'k, 'h) Pool \<Rightarrow> histogram \<times> histogram \<times> histogram" where
  "hists p = (submitHist p, consumeHist p, exitHist p)"

lemma hists_upd [simp]:
  "hists (p\<lparr>taskQueues := v0\<rparr>) = hists p"
  "hists (p\<lparr>sendSeq := v1\<rparr>) = hists p"
  "hists (p\<lparr>workerSeq := v2\<rparr>) = hists p"
  "hists (p\<lparr>taskBuf := v3\<rparr>) = hists p"
  "hists (p\<lparr>pendingTasks := v4\<rparr>) = hists p"
  "hists (p\<lparr>wg := v5\<rparr>) = hists p"
  "hists (p\<lparr>submitCount := v6\<rparr>) = hists p"
  "hists (p\<lparr>consumeCount := v7\<rparr>) = hists p"
  "hists (p\<lparr>exitCount := v8\<rparr>) = hists p"
  "hists (p\<lparr>runningWorkersNum := v9\<rparr>) = hists p"
  "hists (p\<lparr>workerCreateCount := v10\<rparr>) = hists p"
  "hists (p\<lparr>idleWorks := v11\<rparr>) = hists p"
  "hists (p\<lparr>launched := v12\<rparr>) = hists p"
  "hists (p\<lparr>ran := v13\<rparr>) = hists p"
  "hists (p\<lparr>ticks := v14\<rparr>) = hists p"
  "hists (p\<lparr>closed := v15\<rparr>) = hists p"
  "hists (p\<lparr>closePoolCn := v16\<rparr>) = hists p"
  "hists (p\<lparr>lastZeroConsumeScale := v17\<rparr>) = hists p"
  by (simp_all add: hists_def)

lemma dispatchHook_frame [simp]:
  "taskQueues (dispatchHook env e p) = taskQueues p" "shardMask (dispatchHook env e p) = shardMask p"
  "sendSeq (dispatchHook env e p) = sendSeq p"
  "taskBuf (dispatchHook env e p) = taskBuf p" "idleWorks (dispatchHook env e p) = idleWorks p"
  "pendingTasks (dispatchHook env e p) = pendingTasks p" "wg (dispatchHook env e p) = wg p"
  "runningWorkersNum (dispatchHook env e p) = runningWorkersNum p" "closed (dispatchHook env e p) = closed p"
  "closePoolCn (dispatchHook env e p) = closePoolCn p" "config (dispatchHook env e p) = config p"
  "ran (dispatchHook env e p) = ran p" "launched (dispatchHook env e p) = launched p"
  "consumeCount (dispatchHook env e p) = consumeCount p" "exitCount (dispatchHook env e p) = exitCount p"
  "ticks (dispatchHook env e p) = ticks p" "capacity (dispatchHook env e p) = capacity p"
  "hists (dispatchHook env e p) = hists p"
  by (auto simp: hists_def dispatchHook_def log_line_def case_prod_beta Let_def split: option.splits)

lemma dispatchHook_raised:
  "raised (dispatchHook env e p) = raised p @ (if hooks p = None then [] else [e])"
  "(hooks (dispatchHook env e p) = None) = (hooks p = None)"
  by (auto simp: dispatchHook_def log_line_def case_prod_beta Let_def split: option.splits)

lemma handlePanic_frame [simp]:
  "taskQueues (handlePanic env t r p) = taskQueues p" "shardMask (handlePanic env t r p) = shardMask p"
  "sendSeq (handlePanic env t r p) = sendSeq p"
  "taskBuf (handlePanic env t r p) = taskBuf p" "idleWorks (handlePanic env t r p) = idleWorks p"
  "pendingTasks (handlePanic env t r p) = pendingTasks p" "wg (handlePanic env t r p) = wg p"
  "runningWorkersNum (handlePanic env t r p) = runningWorkersNum p" "closed (handlePanic env t r p) = closed p"
  "closePoolCn (handlePanic env t r p) = closePoolCn p" "config (handlePanic env t r p) = config p"
  "ran (handlePanic env t r p) = ran p" "launched (handlePanic env t r p) = launched p"
  "consumeCount (handlePanic env t r p) = consumeCount p" "exitCount (handlePanic env t r p) = exitCount p"
  "ticks (handlePanic env t r p) = ticks p" "capacity (handlePanic env t r p) = capacity p"
  "raised (handlePanic env t r p) = raised p" "hooks (handlePanic env t r p) = hooks p"
  "hists (handlePanic env t r p) = hists p"
  by (auto simp: hists_def handlePanic_def log_line_def split: option.splits)

lemma coldStart_frame [simp]:
  "taskQueues (coldStart p) = taskQueues p" "shardMask (coldStart p) = shardMask p" "sendSeq (coldStart p) = sendSeq p"
  "taskBuf (coldStart p) = taskBuf p" "idleWorks (coldStart p) = idleWorks p"
  "pendingTasks (coldStart p) = pendingTasks p" "wg (coldStart p) = wg p"
  "closed (coldStart p) = closed p" "closePoolCn (coldStart p) = closePoolCn p" "config (coldStart p) = config p"
  "ran (coldStart p) = ran p" "raised (coldStart p) = raised p" "hooks (coldStart p) = hooks p"
  "hists (coldStart p) = hists p" "capacity (coldStart p) = capacity p"
  by (auto simp: hists_def coldStart_def workerPool_Get_def startWorker_def Let_def)

lemma coldStart_running: "runningWorkersNum (coldStart p) = (if runningWorkersNum p = 0 then 1 else runningWorkersNum p)"
  by (auto simp: coldStart_def workerPool_Get_def startWorker_def Let_def)

lemma not_nil_ctx: "\<not> isNilTask t \<Longrightarrow> \<exists>c. hookCtx env t = Some c"
  by (cases t rule: isNilTask.cases) (auto simp: hookCtx_def)

lemma not_nil: "\<not> isNilTask t \<Longrightarrow> \<not> is_nil t"
  by (cases t) (auto simp: is_nil_def)

section \<open>Sending\<close>

lemma queued_append:
  assumes "i < length qs"
  shows "mset (queued (qs[i := (qs ! i)\<lparr>chan_buf := chan_buf (qs ! i) @ [t]\<rparr>])) = add_mset t (mset (queued qs))"
  using mset_queued_upd [OF assms, of "(qs ! i)\<lparr>chan_buf := chan_buf (qs ! i) @ [t]\<rparr>"] by simp

lemma shard_send_spec:
  assumes "i < length (taskQueues p)"
  obtains sent qs where "shard_send i t p = Some (sent, p\<lparr>taskQueues := qs\<rparr>)" "length qs = length (taskQueues p)"
    "mset (queued qs) = (if sent then add_mset t (mset (queued (taskQueues p))) else mset (queued (taskQueues p)))"
    "sent \<longleftrightarrow> length (chan_buf (taskQueues p ! i)) < chan_cap (taskQueues p ! i)"
proof (cases "length (chan_buf (taskQueues p ! i)) < chan_cap (taskQueues p ! i)")
  case True
  let ?qs = "(taskQueues p)[i := (taskQueues p ! i)\<lparr>chan_buf := chan_buf (taskQueues p ! i) @ [t]\<rparr>]"
  from True assms show ?thesis
    by (intro that [of True ?qs]) (simp_all add: shard_send_def try_send_def queued_append)
next
  case False
  with assms show ?thesis by (intro that [of False "taskQueues p"]) (simp_all add: shard_send_def try_send_def)
qed

lemma pick_shard_spec:
  assumes "\<exists>k < 64. length (taskQueues p) = 2 ^ k \<and> shardMask p = shardMaskOf (2 ^ k)"
  obtains i seq where "pick_shard p = (i, p\<lparr>sendSeq := seq\<rparr>)" "i < length (taskQueues p)"
  using assms by (auto simp: pick_shard_def nextShard_mod intro!: that)

lemma offer_spec:
  assumes "\<exists>k < 64. length (taskQueues p) = 2 ^ k \<and> shardMask p = shardMaskOf (2 ^ k)"
  obtains sent seq qs where "offer t p = Some (sent, p\<lparr>sendSeq := seq, taskQueues := qs\<rparr>)"
    "length qs = length (taskQueues p)"
    "mset (queued qs) = (if sent then add_mset t (mset (queued (taskQueues p))) else mset (queued (taskQueues p)))"
proof -
  obtain i seq where 1: "pick_shard p = (i, p\<lparr>sendSeq := seq\<rparr>)" "i < length (taskQueues p)"
    using pick_shard_spec [OF assms] .
  let ?p = "p\<lparr>sendSeq := seq\<rparr>"
  have "i < length (taskQueues ?p)" using 1(2) by simp
  then obtain sent qs where "shard_send i t ?p = Some (sent, ?p\<lparr>taskQueues := qs\<rparr>)"
    "length qs = length (taskQueues ?p)"
    "mset (queued qs) = (if sent then add_mset t (mset (queued (taskQueues ?p))) else mset (queued (taskQueues ?p)))"
    by (rule shard_send_spec)
  with 1 show ?thesis by (intro that [of sent qs seq]) (simp_all add: offer_def)
qed

text \<open>A task in flight that is sent is queued; one that is not stays in flight.\<close>

lemma pool_rep_send:
  assumes "pool_rep p xs (fl + of_bool sent)" "length qs = length (taskQueues p)" "\<not> isNilTask t"
    and "mset (queued qs) = (if sent then add_mset t (mset (queued (taskQueues p))) else mset (queued (taskQueues p)))"
  shows "pool_rep (p\<lparr>sendSeq := seq, taskQueues := qs\<rparr>) xs fl"
proof -
  have "length (queued qs) = length (queued (taskQueues p)) + of_bool sent"
    using assms(4) by (metis (full_types) add.right_neutral add_Suc_right of_bool_eq(1,2) One_nat_def size_add_mset size_mset)
  moreover have "set (queued qs) \<subseteq> insert t (set (queued (taskQueues p)))"
    using assms(4) by (metis order_refl set_mset_add_mset_insert set_mset_mset subset_insertI)
  ultimately show ?thesis using assms(1,2,3) unfolding pool_rep_def by auto
qed

lemma pool_rep_sendSeq [simp]: "pool_rep (p\<lparr>sendSeq := seq\<rparr>) xs fl = pool_rep p xs fl"
  by (simp add: pool_rep_def)

section \<open>Submitting\<close>

definition submit_post ::
  "('c, 'k, 'h) env \<Rightarrow> 'c Task \<Rightarrow> 'c Task multiset \<Rightarrow> nat \<Rightarrow> ('c, 'k, 'h) Pool \<Rightarrow> submit_status \<Rightarrow> ('c, 'k, 'h) Pool \<Rightarrow> bool" where
  "submit_post env task M fl p r p' \<longleftrightarrow>
     pool_holds p' (if r = Returned True then add_mset task M else M) (case r of Blocked _ \<Rightarrow> Suc fl | Returned _ \<Rightarrow> fl)
     \<and> runningWorkersNum p' = runningWorkersNum p \<and> closed p' = closed p \<and> config p' = config p
     \<and> raised p' = raised p @ (if hooks p \<noteq> None \<and> r = Returned True then [EvEnqueued (the (hookCtx env task))] else [])
     \<and> shardMask p' = shardMask p \<and> hists p' = hists p \<and> ran p' = ran p \<and> capacity p' = capacity p
     \<and> (workMode (config p) = NONBLOCK \<longrightarrow> (\<forall>i. r \<noteq> Blocked i))
     \<and> (\<forall>i. r = Blocked i \<longrightarrow> i < length (taskQueues p'))"

lemma post_done:
  assumes "pool_rep p xs (Suc fl)" "M = mset (queued (taskQueues p)) + mset xs"
  shows "\<exists>p'. pool_done p = Some p' \<and> submit_post env task M fl p (Returned False) p'"
proof -
  have "0 < wg p" using assms(1) by (simp add: pool_rep_def)
  moreover have "pool_rep (p\<lparr>pendingTasks := pendingTasks p - 1, wg := wg p - 1\<rparr>) xs fl"
    using assms(1) by (simp add: pool_rep_def)
  ultimately show ?thesis using assms(2)
    by (auto simp: pool_done_def submit_post_def pool_holds_def Let_def)
qed

lemma post_enqueued:
  assumes "pool_rep p' xs fl" "add_mset task M = mset (queued (taskQueues p')) + mset xs" "\<not> isNilTask task"
    and "runningWorkersNum p' = runningWorkersNum p" "closed p' = closed p" "config p' = config p"
    and "hooks p' = hooks p" "raised p' = raised p" "shardMask p' = shardMask p" "hists p' = hists p"
    and "ran p' = ran p" "capacity p' = capacity p"
  shows "\<exists>p''. dispatchTaskEnqueuedFor env task p' = Some p'' \<and> submit_post env task M fl p (Returned True) p''"
proof -
  obtain c where c: "hookCtx env task = Some c" using not_nil_ctx [OF assms(3)] by blast
  have "pool_rep (dispatchHook env (EvEnqueued c) p') xs fl" using assms(1) by (simp add: pool_rep_def)
  with assms c show ?thesis
    by (auto simp: dispatchTaskEnqueuedFor_def submit_post_def pool_holds_def dispatchHook_raised)
qed

lemma wait_select_spec:
  assumes "pool_rep p xs (Suc fl)" "M = mset (queued (taskQueues p)) + mset xs" "\<not> isNilTask task"
    and "i < length (taskQueues p)" "workMode (config p) = BLOCK"
  shows "\<exists>r p'. wait_select env pick ctx i task p = Some (r, p') \<and> submit_post env task M fl p r p'"
proof -
  let ?q = "taskQueues p ! i"
  define ready where "ready = ready_cases env ctx ?q p"
  show ?thesis
  proof (cases "ready = []")
    case True
    then have "wait_select env pick ctx i task p = Some (Blocked i, p)"
      using assms(4) by (simp add: wait_select_def ready_def [symmetric] Let_def)
    moreover have "submit_post env task M fl p (Blocked i) p"
      using assms(1,2,4,5) by (auto simp: submit_post_def pool_holds_def)
    ultimately show ?thesis by blast
  next
    case False
    then have m: "ready ! (pick mod length ready) \<in> set ready" by simp
    show ?thesis
    proof (cases "ready ! (pick mod length ready) = CaseSend")
      case send: True
      then have room: "length (chan_buf ?q) < chan_cap ?q" using m by (auto simp: ready_def ready_cases_def split: if_splits)
      obtain sent qs where s: "shard_send i task p = Some (sent, p\<lparr>taskQueues := qs\<rparr>)" "length qs = length (taskQueues p)"
        "mset (queued qs) = (if sent then add_mset task (mset (queued (taskQueues p))) else mset (queued (taskQueues p)))"
        "sent \<longleftrightarrow> length (chan_buf ?q) < chan_cap ?q"
        using shard_send_spec [OF assms(4)] .
      have "pool_rep (p\<lparr>taskQueues := qs\<rparr>) xs fl"
        using pool_rep_send [of p xs fl sent qs task "sendSeq p"] assms(1,3) s(2,3,4) room by simp
      then obtain p' where "dispatchTaskEnqueuedFor env task (p\<lparr>taskQueues := qs\<rparr>) = Some p'"
        "submit_post env task M fl p (Returned True) p'"
        using post_enqueued [of "p\<lparr>taskQueues := qs\<rparr>" xs fl task M p env] s(3,4) room assms(2,3) by auto
      with False send s(1) assms(4) show ?thesis by (simp add: wait_select_def ready_def [symmetric] Let_def)
    next
      case other: False
      obtain p' where "pool_done p = Some p'" "submit_post env task M fl p (Returned False) p'"
        using post_done [OF assms(1,2)] by blast
      with False other assms(4) show ?thesis
        by (auto simp: wait_select_def ready_def [symmetric] Let_def split: select_case.splits)
    qed
  qed
qed

lemma pool_rep_shape:
  "pool_rep p xs fl \<Longrightarrow> \<exists>k < 64. length (taskQueues p) = 2 ^ k \<and> shardMask p = shardMaskOf (2 ^ k)"
  by (simp add: pool_rep_def)

text \<open>A full buffer push: refused, or accepted with the oldest buffered task offered to a shard.\<close>

lemma push_spec:
  assumes "pool_rep p xs (Suc fl)" "\<not> isNilTask task"
  obtains
    (closed) "PushAndForward ch task tryForward (Some p) (taskBuf p) = Some (taskBufferClosed, Some p, taskBuf p)"
  | (full) "PushAndForward ch task tryForward (Some p) (taskBuf p) = Some (taskBufferFull, Some p, taskBuf p)"
  | (accepted) seq qs buf ys where
      "PushAndForward ch task tryForward (Some p) (taskBuf p)
         = Some (taskBufferAccepted, Some (p\<lparr>sendSeq := seq, taskQueues := qs\<rparr>), buf)"
      "pool_rep (p\<lparr>sendSeq := seq, taskQueues := qs, taskBuf := buf\<rparr>) ys fl"
      "mset (queued qs) + mset ys = add_mset task (mset (queued (taskQueues p)) + mset xs)"
proof (cases "overflowClosed (taskBuf p) \<or> int (length xs) \<ge> maxChunkLen")
  case True
  have "holds (taskBuf p) xs" using assms(1) by (simp add: pool_rep_def)
  from chunked.push_refuse [OF this True, of ch task tryForward "Some p"] show ?thesis
    using closed full by (cases "overflowClosed (taskBuf p)") auto
next
  case False
  have h: "holds (taskBuf p) xs" using assms(1) by (simp add: pool_rep_def)
  let ?x = "hd (xs @ [task])"
  have x: "\<not> isNilTask ?x" using assms by (cases xs) (auto simp: pool_rep_def)
  obtain sent seq qs where o: "offer ?x p = Some (sent, p\<lparr>sendSeq := seq, taskQueues := qs\<rparr>)"
    "length qs = length (taskQueues p)"
    "mset (queued qs) = (if sent then add_mset ?x (mset (queued (taskQueues p))) else mset (queued (taskQueues p)))"
    using offer_spec [OF pool_rep_shape [OF assms(1)]] .
  have f: "tryForward (Some ?x) (Some p) = (sent, Some (p\<lparr>sendSeq := seq, taskQueues := qs\<rparr>))" by (simp add: o(1))
  let ?ys = "if sent then tl (xs @ [task]) else xs @ [task]"
  from chunked.push_accept [where f = tryForward and t = task and r = ch, OF h _ _ f] False obtain buf where
    b: "PushAndForward ch task tryForward (Some p) (taskBuf p)
         = Some (taskBufferAccepted, Some (p\<lparr>sendSeq := seq, taskQueues := qs\<rparr>), buf)"
       "overflowClosed buf = overflowClosed (taskBuf p)" "holds buf ?ys"
    by auto
  have ys: "mset ?ys + (if sent then {#?x#} else {#}) = add_mset task (mset xs)" by (cases xs) auto
  have m: "mset (queued qs) + mset ?ys = add_mset task (mset (queued (taskQueues p)) + mset xs)"
    using o(3) ys by (cases sent) (auto simp: ac_simps)
  have "length (queued qs) + length ?ys = Suc (length (queued (taskQueues p)) + length xs)"
    using arg_cong [OF m, of size] by simp
  moreover have "set (queued qs) \<union> set ?ys = insert task (set (queued (taskQueues p)) \<union> set xs)"
    using arg_cong [OF m, of set_mset] by simp
  ultimately have rep: "pool_rep (p\<lparr>sendSeq := seq, taskQueues := qs, taskBuf := buf\<rparr>) ?ys fl"
    using assms o(2) b(2,3) unfolding pool_rep_def by (auto simp del: set_append split del: if_split)
  show ?thesis by (rule accepted [OF b(1) rep m])
qed

lemma enqueue_spec:
  assumes "pool_rep p xs (Suc fl)" "M = mset (queued (taskQueues p)) + mset xs" "\<not> isNilTask task"
  shows "\<exists>r p'. enqueue env ch pick ctx task p = Some (r, p') \<and> submit_post env task M fl p r p'"
proof -
  obtain sent seq qs where o: "offer task p = Some (sent, p\<lparr>sendSeq := seq, taskQueues := qs\<rparr>)"
    "length qs = length (taskQueues p)"
    "mset (queued qs) = (if sent then add_mset task (mset (queued (taskQueues p))) else mset (queued (taskQueues p)))"
    using offer_spec [OF pool_rep_shape [OF assms(1)]] .
  let ?p = "p\<lparr>sendSeq := seq, taskQueues := qs\<rparr>"
  show ?thesis
  proof (cases sent)
    case True
    have "pool_rep ?p xs fl" using pool_rep_send [of p xs fl True qs task seq] assms o True by simp
    then obtain p' where "dispatchTaskEnqueuedFor env task ?p = Some p'" "submit_post env task M fl p (Returned True) p'"
      using post_enqueued [of ?p xs fl task M p env] o(3) True assms(2,3) by auto
    with True o(1) show ?thesis by (simp add: enqueue_def)
  next
    case False
    have r: "pool_rep ?p xs (Suc fl)" using pool_rep_send [of p xs "Suc fl" False qs task seq] assms o False by simp
    have M: "M = mset (queued (taskQueues ?p)) + mset xs" using assms(2) o(3) False by simp
    have post: "submit_post env task M fl ?p = submit_post env task M fl p" by (intro ext) (simp add: submit_post_def)
    show ?thesis
    proof (cases "workMode (config p) = NONBLOCK")
      case True
      with post_done [OF r M, of env task] False o(1) show ?thesis by (auto simp: enqueue_def post)
    next
      case block: False
      from r assms(3) show ?thesis
      proof (cases rule: push_spec [where ch = ch])
        case closed
        with post_done [OF r M, of env task] False block o(1) show ?thesis by (auto simp: enqueue_def post)
      next
        case full
        obtain i seq' where ps: "pick_shard ?p = (i, ?p\<lparr>sendSeq := seq'\<rparr>)" "i < length (taskQueues ?p)"
          using pick_shard_spec [OF pool_rep_shape [OF r]] .
        let ?p' = "?p\<lparr>sendSeq := seq'\<rparr>"
        have bl: "workMode (config ?p') = BLOCK" using block by (cases "workMode (config p)") auto
        have r': "pool_rep ?p' xs (Suc fl)" by (simp only: pool_rep_sendSeq r)
        have M': "M = mset (queued (taskQueues ?p')) + mset xs" using M by simp
        from wait_select_spec [OF r' M' assms(3) _ bl, of i env pick ctx] ps(2) obtain st p' where
          "wait_select env pick ctx i task ?p' = Some (st, p')" "submit_post env task M fl ?p' st p'" by auto
        moreover have "submit_post env task M fl ?p' = submit_post env task M fl p" by (intro ext) (simp add: submit_post_def)
        moreover have "?p\<lparr>taskBuf := taskBuf ?p\<rparr> = ?p" by simp
        ultimately show ?thesis using full False block o(1) ps(1) by (auto simp: enqueue_def)
      next
        case (accepted seq' qs' buf ys)
        let ?p' = "?p\<lparr>sendSeq := seq', taskQueues := qs', taskBuf := buf\<rparr>"
        obtain p' where "dispatchTaskEnqueuedFor env task ?p' = Some p'" "submit_post env task M fl p (Returned True) p'"
          using post_enqueued [of ?p' ys fl task M p env] accepted(2,3) M assms(3) by auto
        with accepted(1) False block o(1) show ?thesis by (simp add: enqueue_def)
      qed
    qed
  qed
qed

lemma submit_spec:
  assumes "pool_holds p M fl" "\<not> isNilTask task"
  shows "\<exists>r p'. submit env ch pick ctx task p = Some (r, p')
    \<and> pool_holds p' (if r = Returned True then add_mset task M else M) (case r of Blocked _ \<Rightarrow> Suc fl | Returned _ \<Rightarrow> fl)
    \<and> (closed p \<longrightarrow> r = Returned False \<and> p' = p)
    \<and> (\<not> closed p \<longrightarrow> 1 \<le> runningWorkersNum p' \<and> \<not> closed p' \<and> raised p' = raised p @ (if hooks p = None then []
         else EvSubmitted (the (hookCtx env task)) # (if r = Returned True then [EvEnqueued (the (hookCtx env task))] else [])))
    \<and> (workMode (config p) = NONBLOCK \<longrightarrow> (\<forall>i. r \<noteq> Blocked i))
    \<and> config p' = config p \<and> shardMask p' = shardMask p \<and> hists p' = hists p \<and> ran p' = ran p \<and> capacity p' = capacity p
    \<and> (\<forall>i. r = Blocked i \<longrightarrow> i < length (taskQueues p'))"
proof -
  obtain xs where xs: "pool_rep p xs fl" "M = mset (queued (taskQueues p)) + mset xs"
    using assms(1) by (auto simp: pool_holds_def)
  have w: "0 \<le> wg p" using xs(1) by (simp add: pool_rep_def)
  obtain c where c: "hookCtx env task = Some c" using not_nil_ctx [OF assms(2)] by blast
  show ?thesis
  proof (cases "closed p")
    case True
    then have "submit env ch pick ctx task p = Some (Returned False, p)"
      using w by (simp add: submit_def pool_done_def Let_def)
    with True assms(1) show ?thesis by auto
  next
    case False
    let ?p1 = "p\<lparr>pendingTasks := pendingTasks p + 1, wg := wg p + 1\<rparr>"
    let ?p2 = "dispatchHook env (EvSubmitted c) (coldStart (?p1\<lparr>submitCount := submitCount ?p1 + 1\<rparr>))"
    have rep: "pool_rep ?p2 xs (Suc fl)"
      using xs(1) by (auto simp: pool_rep_def coldStart_running)
    have "M = mset (queued (taskQueues ?p2)) + mset xs" using xs(2) by simp
    from enqueue_spec [OF rep this assms(2), of env ch pick ctx] obtain r p' where
      r: "enqueue env ch pick ctx task ?p2 = Some (r, p')" "submit_post env task M fl ?p2 r p'" by blast
    have "submit env ch pick ctx task p = Some (r, p')"
      using False c r(1) by (simp add: submit_def Let_def)
    moreover have "1 \<le> runningWorkersNum ?p2" using xs(1) by (auto simp: pool_rep_def coldStart_running)
    ultimately show ?thesis using r(2) False c
      by (intro exI [of _ r] exI [of _ p']) (auto simp: submit_post_def dispatchHook_raised)
  qed
qed

section \<open>A sequence of submissions\<close>

text \<open>One goroutine submits, one after another; what each submission reports.\<close>

fun submit_all ::
  "('c, 'k, 'h) env \<Rightarrow> (nat option \<times> nat \<times> 'c \<times> 'c Task) list \<Rightarrow> ('c, 'k, 'h) Pool \<Rightarrow> (submit_status list \<times> ('c, 'k, 'h) Pool) option" where
  "submit_all env [] p = Some ([], p)"
| "submit_all env ((ch, pick, ctx, t) # rs) p = do {
     (r, p1) \<leftarrow> submit env ch pick ctx t p;
     (sts, p2) \<leftarrow> submit_all env rs p1;
     Some (r # sts, p2) }"

text \<open>The shard that the \<open>j\<close>-th call of \<open>nextShard\<close> from now on selects.\<close>

definition shard_at :: "nat \<Rightarrow> 64 word \<Rightarrow> nat \<Rightarrow> nat" where
  "shard_at n s j = (unat s + 1 + j) mod n"

lemma shard_at_less: "0 < n \<Longrightarrow> shard_at n s j < n"
  by (simp add: shard_at_def)

lemma shard_at_Suc:
  assumes "k < 64"
  shows "shard_at (2 ^ k) (s + 1) j = shard_at (2 ^ k) s (Suc j)"
proof -
  have "unat (s + 1) mod 2 ^ k = (unat s + 1) mod 2 ^ k" using unat_add_mod [of k s 1] assms by simp
  then have "(unat (s + 1) + Suc j) mod 2 ^ k = (unat s + 1 + Suc j) mod 2 ^ k" by (rule mod_add_cong) simp
  then show ?thesis by (simp add: shard_at_def)
qed

lemma shard_at_inj:
  assumes "i < n" "j < n" "shard_at n s i = shard_at n s j"
  shows "i = j"
  using mod_shift_inj [of i j n "unat s + 1"] mod_shift_inj [of j i n "unat s + 1"] assms
  by (cases "i \<le> j") (auto simp: shard_at_def)

lemma shard_at_surj:
  assumes "i < n"
  obtains j where "j < n" "shard_at n s j = i"
proof -
  have "inj_on (shard_at n s) {..<n}" by (intro inj_onI) (simp add: shard_at_inj)
  moreover have "shard_at n s ` {..<n} \<subseteq> {..<n}" using assms by (auto simp: shard_at_less)
  ultimately have "shard_at n s ` {..<n} = {..<n}" by (intro endo_inj_surj) simp_all
  with assms that show ?thesis by (metis imageE lessThan_iff)
qed

lemma submit_with_room:
  assumes "pool_holds p M fl" "\<not> closed p" "\<not> isNilTask t" "length (taskQueues p) = 2 ^ k"
    and "length (chan_buf (taskQueues p ! shard_at (2 ^ k) (sendSeq p) 0)) < chan_cap (taskQueues p ! shard_at (2 ^ k) (sendSeq p) 0)"
  defines "i \<equiv> shard_at (2 ^ k) (sendSeq p) 0"
  obtains p' M' where "submit env ch pick ctx t p = Some (Returned True, p')" "pool_holds p' M' fl" "\<not> closed p'"
    "sendSeq p' = sendSeq p + 1" "k < 64"
    "taskQueues p' = (taskQueues p)[i := (taskQueues p ! i)\<lparr>chan_buf := chan_buf (taskQueues p ! i) @ [t]\<rparr>]"
proof -
  have k: "k < 64" "shardMask p = shardMaskOf (2 ^ k)"
    using assms(1,4) by (auto simp: pool_holds_def pool_rep_def)
  obtain c where c: "hookCtx env t = Some c" using not_nil_ctx [OF assms(3)] by blast
  have ns: "nextShard (shardMask p) (sendSeq p) = (i, sendSeq p + 1)" using k by (simp add: nextShard_mod i_def shard_at_def)
  have i: "i < length (taskQueues p)" using assms(4) by (simp add: i_def shard_at_less)
  let ?q = "(taskQueues p ! i)\<lparr>chan_buf := chan_buf (taskQueues p ! i) @ [t]\<rparr>"
  let ?p1 = "p\<lparr>pendingTasks := pendingTasks p + 1, wg := wg p + 1, submitCount := submitCount p + 1\<rparr>"
  let ?p2 = "dispatchHook env (EvSubmitted c) (coldStart ?p1)"
  have o: "offer t ?p2 = Some (True, ?p2\<lparr>sendSeq := sendSeq p + 1, taskQueues := (taskQueues p)[i := ?q]\<rparr>)"
    using i assms(5) by (simp add: offer_def pick_shard_def ns shard_send_def try_send_def i_def [symmetric])
  obtain p' where p': "dispatchTaskEnqueuedFor env t (?p2\<lparr>sendSeq := sendSeq p + 1, taskQueues := (taskQueues p)[i := ?q]\<rparr>) = Some p'"
    "taskQueues p' = (taskQueues p)[i := ?q]" "sendSeq p' = sendSeq p + 1"
    by (simp add: dispatchTaskEnqueuedFor_def c)
  have e: "submit env ch pick ctx t p = Some (Returned True, p')"
    using assms(2) c o p'(1) by (simp add: submit_def enqueue_def Let_def)
  with submit_spec [OF assms(1,3), of env ch pick ctx] assms(2) have "pool_holds p' (add_mset t M) fl" "\<not> closed p'" by auto
  with e p'(2,3) k(1) show ?thesis by (intro that)
qed

lemma submit_all_round_robin:
  assumes "pool_holds p M fl" "\<not> closed p" "\<forall>r \<in> set rs. \<not> isNilTask (snd (snd (snd r)))" "length (taskQueues p) = 2 ^ k" "length rs \<le> 2 ^ k"
    and "\<forall>j < length rs. length (chan_buf (taskQueues p ! shard_at (2 ^ k) (sendSeq p) j)) < chan_cap (taskQueues p ! shard_at (2 ^ k) (sendSeq p) j)"
  shows "\<exists>p'. submit_all env rs p = Some (replicate (length rs) (Returned True), p') \<and> length (taskQueues p') = 2 ^ k
    \<and> (\<forall>j < 2 ^ k. chan_buf (taskQueues p' ! shard_at (2 ^ k) (sendSeq p) j)
         = chan_buf (taskQueues p ! shard_at (2 ^ k) (sendSeq p) j) @ (if j < length rs then [snd (snd (snd (rs ! j)))] else []))"
  using assms
proof (induction rs arbitrary: p M)
  case (Cons r rs)
  obtain ch pick ctx t where r: "r = (ch, pick, ctx, t)" by (cases r) auto
  let ?s = "shard_at (2 ^ k) (sendSeq p)"
  have "\<not> isNilTask t" "length (chan_buf (taskQueues p ! ?s 0)) < chan_cap (taskQueues p ! ?s 0)" using Cons.prems(3,6) r by auto
  then obtain p1 M1 where 1: "submit env ch pick ctx t p = Some (Returned True, p1)" "pool_holds p1 M1 fl" "\<not> closed p1"
    "sendSeq p1 = sendSeq p + 1" "k < 64"
    "taskQueues p1 = (taskQueues p)[?s 0 := (taskQueues p ! ?s 0)\<lparr>chan_buf := chan_buf (taskQueues p ! ?s 0) @ [t]\<rparr>]"
    by (rule submit_with_room [OF Cons.prems(1,2) _ Cons.prems(4)])
  have s1: "shard_at (2 ^ k) (sendSeq p1) j = ?s (Suc j)" for j by (simp add: 1(4,5) shard_at_Suc)
  have other: "taskQueues p1 ! ?s (Suc j) = taskQueues p ! ?s (Suc j)" if "Suc j < 2 ^ k" for j
  proof -
    have "?s 0 \<noteq> ?s (Suc j)" using shard_at_inj [of 0 "2 ^ k" "Suc j" "sendSeq p"] that by auto
    then show ?thesis by (simp add: 1(6))
  qed
  have first: "chan_buf (taskQueues p1 ! ?s 0) = chan_buf (taskQueues p ! ?s 0) @ [t]"
    using Cons.prems(4) by (simp add: 1(6) shard_at_less)
  have l1: "length (taskQueues p1) = 2 ^ k" using Cons.prems(4) by (simp add: 1(6))
  have room: "\<forall>j < length rs. length (chan_buf (taskQueues p1 ! shard_at (2 ^ k) (sendSeq p1) j)) < chan_cap (taskQueues p1 ! shard_at (2 ^ k) (sendSeq p1) j)"
  proof (intro allI impI)
    fix j assume "j < length rs"
    then show "length (chan_buf (taskQueues p1 ! shard_at (2 ^ k) (sendSeq p1) j)) < chan_cap (taskQueues p1 ! shard_at (2 ^ k) (sendSeq p1) j)"
      using Cons.prems(5,6) other [of j] by (simp add: s1)
  qed
  from Cons.IH [OF 1(2,3) _ l1 _ room] Cons.prems(3,5) obtain p' where
    2: "submit_all env rs p1 = Some (replicate (length rs) (Returned True), p')" "length (taskQueues p') = 2 ^ k"
       "\<forall>j < 2 ^ k. chan_buf (taskQueues p' ! ?s (Suc j))
          = chan_buf (taskQueues p1 ! ?s (Suc j)) @ (if j < length rs then [snd (snd (snd (rs ! j)))] else [])"
    by (auto simp: s1)
  have "chan_buf (taskQueues p' ! ?s j) = chan_buf (taskQueues p ! ?s j) @ (if j < Suc (length rs) then [snd (snd (snd ((r # rs) ! j)))] else [])"
    if j: "j < 2 ^ k" for j
  proof (cases j)
    case 0
    have last: "?s (Suc (2 ^ k - 1)) = ?s 0" by (simp add: shard_at_def) (metis add_Suc mod_add_self2)
    have "\<not> 2 ^ k - 1 < length rs" using Cons.prems(5) by simp
    with 2(3) [rule_format, of "2 ^ k - 1"] last first 0 r show ?thesis by simp
  next
    case (Suc i)
    with 2(3) [rule_format, of i] other [of i] j show ?thesis by simp
  qed
  with 1(1) 2(1,2) r show ?case by simp
qed simp

section \<open>A concrete pool\<close>

text \<open>One shard with two slots, no hooks, contexts that are never done.\<close>

definition sample_env :: "(unit, unit, unit) env" where
  "sample_env = \<lparr>background = (), ctx_done = (\<lambda>_. False), clock = int, hook_dispatch = (\<lambda>_ k. (None, k)),
     handler_call = (\<lambda>_ _ _. None), float_oor = (\<lambda>_. 0)\<rparr>"

definition sample_pool :: "(unit, unit, unit) Pool" where
  "sample_pool = newPoolState 10 [\<lparr>chan_buf = [], chan_cap = 2\<rparr>] defaultConfig"

definition sample_task :: "unit Task" where
  "sample_task = NewTask (Some (\<lambda>_. RetNil))"

lemma sample_task_not_nil: "\<not> isNilTask sample_task"
  by (simp add: sample_task_def NewTask_def)

lemma sample_pool_rep: "pool_rep sample_pool [] 0"
  using holds_new newChunkedTaskBuffer_open idle_works.new_inv idle_works.new_elems
  by (auto simp: sample_pool_def newPoolState_def pool_rep_def queued_def intro!: exI [of _ 0])

lemma sample_pool_holds: "pool_holds sample_pool {#} 0"
  using sample_pool_rep by (auto simp: pool_holds_def sample_pool_def newPoolState_def queued_def)

lemma Close_rep: "pool_rep p xs fl \<Longrightarrow> pool_rep (Close env p) xs fl"
  by (auto simp: Close_def Let_def pool_rep_def holds_close) (simp add: Buffer_Close_def)

lemma Close_closed: "closed (Close env p)" "Close env (Close env p) = Close env p"
  by (simp_all add: Close_def Let_def)

lemma Close_frame [simp]:
  "taskQueues (Close env p) = taskQueues p" "runningWorkersNum (Close env p) = runningWorkersNum p"
  "launched (Close env p) = launched p" "ran (Close env p) = ran p" "pendingTasks (Close env p) = pendingTasks p"
  "config (Close env p) = config p" "shardMask (Close env p) = shardMask p" "hists (Close env p) = hists p" "capacity (Close env p) = capacity p"
  by (simp_all add: Close_def Let_def)

lemma Close_holds: "pool_holds p M fl \<Longrightarrow> pool_holds (Close env p) M fl"
  using Close_rep by (fastforce simp: pool_holds_def)

text \<open>A pool of two shards whose cursor is about to wrap.\<close>

definition other_task :: "unit Task" where
  "other_task = NewTask (Some (\<lambda>_. Panics ''boom''))"

definition two_shards :: "(unit, unit, unit) Pool" where
  "two_shards = sample_pool\<lparr>taskQueues := [\<lparr>chan_buf = [], chan_cap = 2\<rparr>, \<lparr>chan_buf = [], chan_cap = 2\<rparr>],
     shardMask := shardMaskOf 2, sendSeq := - 1\<rparr>"

lemma two_shards_holds: "pool_holds two_shards {#} 0"
proof -
  have "queued (taskQueues sample_pool) = []" by (simp add: sample_pool_def newPoolState_def queued_def)
  with sample_pool_rep show ?thesis
    by (auto simp: pool_holds_def two_shards_def pool_rep_def queued_def intro!: exI [of _ 1])
qed

section \<open>Properties\<close>

text \<open>
  C2.  Every submission of a task returns or waits, never panics, and is accounted for exactly once: an
  accepted task is queued and counted, a rejected one leaves no trace in the counters, a blocked one
  is counted as in flight.  A closed pool rejects without any change; an open pool has a worker
  afterwards, and raises Submitted once and Enqueued exactly for accepted tasks.  In NONBLOCK mode
  the submitter never waits.
\<close>

theorem submit_accounts_for_task:
  assumes "pool_holds p M fl" "\<not> isNilTask task"
  shows "\<exists>r p'. submit env ch pick ctx task p = Some (r, p')
    \<and> pool_holds p' (if r = Returned True then add_mset task M else M) (case r of Blocked _ \<Rightarrow> Suc fl | Returned _ \<Rightarrow> fl)
    \<and> (closed p \<longrightarrow> r = Returned False \<and> p' = p)
    \<and> (\<not> closed p \<longrightarrow> 1 \<le> runningWorkersNum p' \<and> \<not> closed p' \<and> raised p' = raised p @ (if hooks p = None then []
         else EvSubmitted (the (hookCtx env task)) # (if r = Returned True then [EvEnqueued (the (hookCtx env task))] else [])))
    \<and> (workMode (config p) = NONBLOCK \<longrightarrow> (\<forall>i. r \<noteq> Blocked i))"
  using submit_spec [OF assms] by blast

theorem submit_accounts_for_task_witness:
  "\<exists>r p'. submit sample_env None 0 () sample_task sample_pool = Some (r, p')
    \<and> pool_holds p' (if r = Returned True then {#sample_task#} else {#}) (case r of Blocked _ \<Rightarrow> Suc 0 | Returned _ \<Rightarrow> 0)"
  using submit_accounts_for_task [OF sample_pool_holds sample_task_not_nil, of sample_env None 0 "()"]
  by blast

text \<open>
  C19.  After \<open>Close\<close> every entry point is a no-op: \<open>TrySubmit\<close> reports false and no call changes the pool,
  whatever the task and its context; \<open>Close\<close> itself is idempotent.
\<close>

theorem closed_pool_rejects:
  assumes "pool_holds p M fl"
  shows "TrySubmit env ch pick task (Close env p) = Some (Returned False, Close env p)
    \<and> map_option snd (Submit env ch pick task (Close env p)) = Some (Close env p)
    \<and> map_option snd (SubmitCtx env ch pick ctx task (Close env p)) = Some (Close env p)
    \<and> map_option snd (SubmitBefore env ch pick tctx task (Close env p)) = Some (Close env p)
    \<and> Close env (Close env p) = Close env p"
proof -
  have rej: "submit env ch pick c t (Close env p) = Some (Returned False, Close env p)" if "\<not> isNilTask t" for c t
    using submit_spec [OF Close_holds [OF assms, of env] that, of env ch pick c] Close_closed(1) [of env p] by auto
  show ?thesis
    using rej [of task "background env"] rej [of "ContextTask (Some (case ctx of None \<Rightarrow> background env | Some c \<Rightarrow> c, task))"
        "case ctx of None \<Rightarrow> background env | Some c \<Rightarrow> c"] rej [of "TaskFunc (Some (DeadlineFn tctx task))" tctx]
    by (auto simp: TrySubmit_def Submit_def SubmitCtx_def SubmitBefore_def Let_def Close_closed(2))
qed

theorem closed_pool_rejects_witness:
  "TrySubmit sample_env None 0 sample_task (Close sample_env sample_pool) = Some (Returned False, Close sample_env sample_pool)"
  using closed_pool_rejects [OF sample_pool_holds, of sample_env None 0 sample_task] by blast

text \<open>
  C29.  Submissions go round the shards: as many successive submissions to an open pool as it has shards, each of which
  has room, are all accepted, and every shard gets exactly one of the tasks at the end of its queue, the \<open>j\<close>-th task the shard \<open>j\<close> places
  after the cursor, also across the wrap-around of the 64-bit cursor.
\<close>

theorem submissions_round_robin:
  assumes "pool_holds p M fl" "\<not> closed p" "\<forall>r \<in> set rs. \<not> isNilTask (snd (snd (snd r)))" "length rs = length (taskQueues p)"
    and "\<forall>q \<in> set (taskQueues p). length (chan_buf q) < chan_cap q"
  shows "\<exists>p'. submit_all env rs p = Some (replicate (length rs) (Returned True), p') \<and> length (taskQueues p') = length (taskQueues p)
    \<and> (\<forall>j < length rs. let i = (unat (sendSeq p) + 1 + j) mod length rs in
         chan_buf (taskQueues p' ! i) = chan_buf (taskQueues p ! i) @ [snd (snd (snd (rs ! j)))])
    \<and> (\<forall>i < length rs. length (chan_buf (taskQueues p' ! i)) = Suc (length (chan_buf (taskQueues p ! i))))"
proof -
  obtain k where k: "length (taskQueues p) = 2 ^ k" using assms(1) by (auto simp: pool_holds_def pool_rep_def)
  have "taskQueues p ! shard_at (2 ^ k) (sendSeq p) j \<in> set (taskQueues p)" for j
    using k shard_at_less [of "2 ^ k" "sendSeq p" j] by (simp add: nth_mem)
  then have room: "\<forall>j < length rs. length (chan_buf (taskQueues p ! shard_at (2 ^ k) (sendSeq p) j)) < chan_cap (taskQueues p ! shard_at (2 ^ k) (sendSeq p) j)"
    using assms(5) by blast
  have n: "length rs = 2 ^ k" using assms(4) k by simp
  from submit_all_round_robin [OF assms(1-3) k _ room, of env] n obtain p' where
    p': "submit_all env rs p = Some (replicate (length rs) (Returned True), p')" "length (taskQueues p') = 2 ^ k"
      "\<And>j. j < 2 ^ k \<Longrightarrow> chan_buf (taskQueues p' ! shard_at (2 ^ k) (sendSeq p) j)
         = chan_buf (taskQueues p ! shard_at (2 ^ k) (sendSeq p) j) @ [snd (snd (snd (rs ! j)))]" by auto
  have "length (chan_buf (taskQueues p' ! i)) = Suc (length (chan_buf (taskQueues p ! i)))" if "i < 2 ^ k" for i
    using shard_at_surj [OF that, of "sendSeq p"] p'(3) by (metis length_append_singleton)
  with p' k n show ?thesis by (auto simp: shard_at_def Let_def)
qed

theorem submissions_round_robin_witness:
  "\<exists>p'. submit_all sample_env [(None, 0, (), sample_task), (None, 0, (), other_task)] two_shards = Some ([Returned True, Returned True], p')
     \<and> chan_buf (taskQueues p' ! 0) = [sample_task] \<and> chan_buf (taskQueues p' ! 1) = [other_task]"
proof -
  have p: "length (taskQueues two_shards) = 2" "\<not> closed two_shards" "\<forall>q \<in> set (taskQueues two_shards). length (chan_buf q) < chan_cap q"
    "sendSeq two_shards = - 1" "\<And>i. i < 2 \<Longrightarrow> chan_buf (taskQueues two_shards ! i) = []"
    by (auto simp: two_shards_def sample_pool_def newPoolState_def less_2_cases_iff)
  have t: "\<not> isNilTask other_task" by (simp add: other_task_def NewTask_def)
  let ?rs = "[(None :: nat option, 0 :: nat, (), sample_task), (None, 0, (), other_task)]"
  have n: "length ?rs = length (taskQueues two_shards)" "\<forall>r \<in> set ?rs. \<not> isNilTask (snd (snd (snd r)))"
    using p(1) t sample_task_not_nil by simp_all
  obtain p' where p': "submit_all sample_env ?rs two_shards = Some (replicate 2 (Returned True), p')"
    "\<forall>j < 2. let i = (unat (- 1 :: 64 word) + 1 + j) mod 2 in
       chan_buf (taskQueues p' ! i) = chan_buf (taskQueues two_shards ! i) @ [snd (snd (snd (?rs ! j)))]"
    using submissions_round_robin [OF two_shards_holds p(2) n(2,1) p(3), of sample_env] unfolding p(4) by (auto simp: numeral_2_eq_2 simp del: submit_all.simps)
  have "chan_buf (taskQueues p' ! 0) = [sample_task]" "chan_buf (taskQueues p' ! 1) = [other_task]"
    using p'(2) [rule_format, of 0] p'(2) [rule_format, of 1] p(5) by (simp_all add: Let_def unsigned_minus_1_eq_mask mask_eq_exp_minus_1)
  with p'(1) show ?thesis by (simp add: numeral_2_eq_2 del: submit_all.simps)
qed

end
