(* ===== verification/Pool_Worker.thy ===== *)
theory Pool_Worker
  imports Pool_Submit
begin

text \<open>
  The consuming side: running one task, a batch, and the worker's loop, which is shown to end with every
  queued task run exactly once.
\<close>

section \<open>Running tasks\<close>

text \<open>The record a run leaves: the task, its trace and the panic that ended it.\<close>

definition run_record :: "('c, 'k, 'h) env \<Rightarrow> 'c Task \<Rightarrow> 'c Task \<times> task_event list \<times> string option" where
  "run_record env t = (t, process (float_oor env) (ctx_done env) t)"

definition run_events :: "('c, 'k, 'h) env \<Rightarrow> 'c Task \<Rightarrow> 'c pool_event list" where
  "run_events env t = [EvStarted (the (hookCtx env t)),
     EvCompleted (the (hookCtx env t)) (snd (process (float_oor env) (ctx_done env) t))]"

text \<open>What running the tasks \<open>ts\<close> leaves alone, and what it adds.\<close>

definition ran_tasks :: "('c, 'k, 'h) env \<Rightarrow> 'c Task list \<Rightarrow> ('c, 'k, 'h) Pool \<Rightarrow> ('c, 'k, 'h) Pool \<Rightarrow> bool" where
  "ran_tasks env ts p p' \<longleftrightarrow>
     runningWorkersNum p' = runningWorkersNum p \<and> closed p' = closed p \<and> exitCount p' = exitCount p
     \<and> idleWorks p' = idleWorks p \<and> launched p' = launched p \<and> config p' = config p \<and> capacity p' = capacity p
     \<and> shardMask p' = shardMask p \<and> hists p' = hists p
     \<and> ran p' = ran p @ map (run_record env) ts
     \<and> consumeCount p' = consumeCount p + int (length ts)
     \<and> (hooks p' = None) = (hooks p = None)
     \<and> raised p' = raised p @ (if hooks p = None then [] else concat (map (run_events env) ts))"

lemma ran_tasks_Nil [simp]: "ran_tasks env [] p p"
  by (simp add: ran_tasks_def)

lemma ran_tasks_trans: "ran_tasks env ts p p1 \<Longrightarrow> ran_tasks env us p1 p2 \<Longrightarrow> ran_tasks env (ts @ us) p p2"
  by (auto simp: ran_tasks_def)

lemma runTask_spec:
  assumes "pool_rep p xs (Suc fl)" "\<not> isNilTask t"
  obtains p' where "runTask env t p = Some p'" "pool_rep p' xs fl" "ran_tasks env [t] p p'"
    "taskQueues p' = taskQueues p" "taskBuf p' = taskBuf p" "shardMask p' = shardMask p"
proof -
  obtain c where c: "hookCtx env t = Some c" using not_nil_ctx [OF assms(2)] by blast
  obtain tr r where pr: "process (float_oor env) (ctx_done env) t = (tr, r)" by fastforce
  define p2 where "p2 = dispatchHook env (EvStarted c) (p\<lparr>consumeCount := consumeCount p + 1\<rparr>)"
  define p4 where "p4 = (case r of None \<Rightarrow> p2\<lparr>ran := ran p2 @ [(t, tr, r)]\<rparr>
                          | Some v \<Rightarrow> handlePanic env t v (p2\<lparr>ran := ran p2 @ [(t, tr, r)]\<rparr>))"
  define p5 where "p5 = dispatchHook env (EvCompleted c r) p4"
  have eq: "runTask env t p = pool_done p5"
    unfolding p5_def p4_def p2_def using c pr by (simp add: runTask_def Let_def)
  have fr: "taskQueues p5 = taskQueues p" "taskBuf p5 = taskBuf p" "shardMask p5 = shardMask p"
    "idleWorks p5 = idleWorks p" "wg p5 = wg p" "pendingTasks p5 = pendingTasks p" "closed p5 = closed p"
    "closePoolCn p5 = closePoolCn p" "runningWorkersNum p5 = runningWorkersNum p" "launched p5 = launched p"
    "config p5 = config p" "capacity p5 = capacity p" "hists p5 = hists p" "exitCount p5 = exitCount p"
    "ran p5 = ran p @ [run_record env t]" "consumeCount p5 = consumeCount p + 1"
    "(hooks p5 = None) = (hooks p = None)"
    "raised p5 = raised p @ (if hooks p = None then [] else run_events env t)"
    using c pr by (auto simp: p5_def p4_def p2_def run_record_def run_events_def dispatchHook_raised split: option.splits)
  have "0 < wg p5" using assms(1) fr by (simp add: pool_rep_def)
  then have "pool_done p5 = Some (p5\<lparr>pendingTasks := pendingTasks p5 - 1, wg := wg p5 - 1\<rparr>)"
    by (simp add: pool_done_def Let_def)
  moreover have "pool_rep (p5\<lparr>pendingTasks := pendingTasks p5 - 1, wg := wg p5 - 1\<rparr>) xs fl"
    using assms(1) fr by (auto simp: pool_rep_def)
  ultimately show ?thesis
    using eq fr by (intro that [of "p5\<lparr>pendingTasks := pendingTasks p5 - 1, wg := wg p5 - 1\<rparr>"]) (simp_all add: ran_tasks_def)
qed

lemma touch_rep:
  "pool_rep (snd (touch env w p)) xs fl = pool_rep p xs fl" "ran_tasks env ts (snd (touch env w p)) = ran_tasks env ts p"
  "taskQueues (snd (touch env w p)) = taskQueues p" "taskBuf (snd (touch env w p)) = taskBuf p"
  "shardMask (snd (touch env w p)) = shardMask p"
  by (simp_all add: touch_def pool_rep_def ran_tasks_def fun_eq_iff)

lemma run_batch_spec:
  assumes "pool_rep p xs (length ts + fl)" "\<forall>t \<in> set ts. \<not> isNilTask t"
  shows "\<exists>w' p'. run_batch env (map Some ts) w p = Some (w', p') \<and> pool_rep p' xs fl \<and> ran_tasks env ts p p'
     \<and> taskQueues p' = taskQueues p"
  using assms
proof (induction ts arbitrary: w p)
  case (Cons t ts)
  obtain w1 p1 where t: "touch env w p = (w1, p1)" by fastforce
  have "pool_rep p1 xs (Suc (length ts + fl))" using Cons.prems(1) touch_rep(1) [of env w p] t by simp
  then obtain p2 where p2: "runTask env t p1 = Some p2" "pool_rep p2 xs (length ts + fl)" "ran_tasks env [t] p1 p2"
    "taskQueues p2 = taskQueues p1"
    using Cons.prems(2) by (elim runTask_spec) auto
  from Cons.IH [OF p2(2), of w1] Cons.prems(2) obtain w' p' where
    3: "run_batch env (map Some ts) w1 p2 = Some (w', p')" "pool_rep p' xs fl" "ran_tasks env ts p2 p'" "taskQueues p' = taskQueues p2"
    by auto
  have f: "taskQueues p1 = taskQueues p" "ran_tasks env us p1 = ran_tasks env us p" for us
    using touch_rep(2) [of env us w p] touch_rep(3) [of env w p] t by simp_all
  have "ran_tasks env (t # ts) p p'" using ran_tasks_trans [OF p2(3) 3(3)] f(2) by simp
  with 3 p2 f(1) t show ?case by simp
qed simp

section \<open>The worker's loop\<close>

lemma pool_rep_recv:
  assumes "pool_rep p xs fl" "i < length (taskQueues p)" "chan_buf (taskQueues p ! i) \<noteq> []"
  defines "qs \<equiv> (taskQueues p)[i := (taskQueues p ! i)\<lparr>chan_buf := tl (chan_buf (taskQueues p ! i))\<rparr>]"
  shows "pool_rep (p\<lparr>taskQueues := qs\<rparr>) xs (Suc fl)" "\<not> isNilTask (hd (chan_buf (taskQueues p ! i)))"
    "mset (queued (taskQueues p)) = add_mset (hd (chan_buf (taskQueues p ! i))) (mset (queued qs))"
proof -
  let ?b = "chan_buf (taskQueues p ! i)"
  have b: "mset ?b = add_mset (hd ?b) (mset (tl ?b))" using assms(3) by (cases ?b) auto
  show m: "mset (queued (taskQueues p)) = add_mset (hd ?b) (mset (queued qs))"
    using mset_queued_upd [OF assms(2), of "(taskQueues p ! i)\<lparr>chan_buf := tl ?b\<rparr>"] b
    by (simp add: qs_def)
  have s: "set (queued (taskQueues p)) = insert (hd ?b) (set (queued qs))"
    using arg_cong [OF m, of set_mset] by simp
  then show "\<not> isNilTask (hd ?b)" using assms(1) by (simp add: pool_rep_def)
  have "length (queued (taskQueues p)) = Suc (length (queued qs))" using arg_cong [OF m, of size] by simp
  with s assms(1) show "pool_rep (p\<lparr>taskQueues := qs\<rparr>) xs (Suc fl)"
    by (auto simp: pool_rep_def qs_def)
qed

lemma pool_rep_pop:
  assumes "pool_rep p xs fl" "holds cbuf (drop k xs)" "overflowClosed cbuf = overflowClosed (taskBuf p)"
  shows "pool_rep (p\<lparr>taskBuf := cbuf\<rparr>) (drop k xs) (length (take k xs) + fl)"
proof -
  have "length xs = length (take k xs) + length (drop k xs)" by simp
  moreover have "set (drop k xs) \<subseteq> set xs" by (rule set_drop_subset)
  ultimately show ?thesis using assms unfolding pool_rep_def by auto
qed

lemma park_spec:
  assumes "pool_rep p xs fl" "1 \<le> runningWorkersNum p"
  obtains p' where "park draw w p = Some p'" "pool_rep p' xs fl"
    "runningWorkersNum p' = runningWorkersNum p - 1" "exitCount p' = exitCount p + 1"
    "Idle_elems (idleWorks p') = add_mset (Some w) (Idle_elems (idleWorks p))"
    "ran p' = ran p" "raised p' = raised p" "closed p' = closed p" "taskQueues p' = taskQueues p" "consumeCount p' = consumeCount p"
    "config p' = config p" "capacity p' = capacity p" "shardMask p' = shardMask p" "hists p' = hists p"
proof -
  have "Idle_inv (idleWorks p)" using assms(1) by (simp add: pool_rep_def)
  from idle_works.add_law [OF this, of draw "Some w"] obtain c where
    "Idle_Add draw (Some w) (idleWorks p) = Some c" "Idle_inv c" "Idle_elems c = add_mset (Some w) (Idle_elems (idleWorks p))"
    by blast
  with assms show ?thesis
    by (intro that [of "p\<lparr>runningWorkersNum := runningWorkersNum p - 1, exitCount := exitCount p + 1, idleWorks := c\<rparr>"])
      (auto simp: park_def addToIdle_def addRunningWorkersNum_def Let_def pool_rep_def)
qed

text \<open>What a worker leaves behind when its loop ends, having run the tasks \<open>ts\<close>.\<close>

definition worker_post ::
  "('c, 'k, 'h) env \<Rightarrow> 'c Task list \<Rightarrow> nat \<Rightarrow> ('c, 'k, 'h) Pool \<Rightarrow> ('c, 'k, 'h) Pool \<Rightarrow> bool" where
  "worker_post env ts fl p p' \<longleftrightarrow>
     pool_holds p' {#} fl
     \<and> ran p' = ran p @ map (run_record env) ts
     \<and> raised p' = raised p @ (if hooks p = None then [] else concat (map (run_events env) ts))
     \<and> consumeCount p' = consumeCount p + int (length ts)
     \<and> runningWorkersNum p' = runningWorkersNum p - 1 \<and> exitCount p' = exitCount p + 1
     \<and> closed p' = closed p \<and> config p' = config p \<and> capacity p' = capacity p \<and> shardMask p' = shardMask p \<and> hists p' = hists p
     \<and> (\<exists>w. Idle_elems (idleWorks p') = add_mset (Some w) (Idle_elems (idleWorks p)))"

lemma worker_post_after:
  assumes "ran_tasks env ts p p1" "worker_post env us fl p1 p'"
  shows "worker_post env (ts @ us) fl p p'"
  using assms by (auto simp: ran_tasks_def worker_post_def)

lemma worker_post_frame: "worker_post env ts fl (p\<lparr>taskQueues := qs\<rparr>) p' = worker_post env ts fl p p'"
  "worker_post env ts fl (p\<lparr>taskBuf := cbuf\<rparr>) p' = worker_post env ts fl p p'"
  "worker_post env ts fl (snd (touch env w p)) p' = worker_post env ts fl p p'"
  by (simp_all add: worker_post_def touch_def)

lemma pool_rep_not_nil: "pool_rep p xs fl \<Longrightarrow> \<forall>t \<in> set (queued (taskQueues p)). \<not> is_nil t"
  by (auto simp: pool_rep_def not_nil)

lemma run_loop_spec:
  assumes "pool_rep p xs fl" "1 \<le> runningWorkersNum p"
  shows "\<exists>p' ts. run_loop env draw w p = Some p' \<and> worker_post env ts fl p p'
     \<and> mset ts = mset (queued (taskQueues p)) + mset xs"
  using assms
proof (induction "length (queued (taskQueues p)) + length xs" arbitrary: p xs w rule: less_induct)
  case less
  obtain k where k: "k < 64" "length (taskQueues p) = 2 ^ k" "shardMask p = shardMaskOf (2 ^ k)"
    using pool_rep_shape [OF less.prems(1)] by blast
  show ?case
  proof (cases rule: nextShardTask_find [OF k(2,1) pool_rep_not_nil [OF less.prems(1)], of "cursor w"])
    case (2 idx)
    let ?i = "unat idx" let ?t = "hd (chan_buf (taskQueues p ! ?i))"
    let ?qs = "(taskQueues p)[?i := (taskQueues p ! ?i)\<lparr>chan_buf := tl (chan_buf (taskQueues p ! ?i))\<rparr>]"
    note recv = pool_rep_recv [OF less.prems(1) 2(2,3)]
    obtain w1 p1 where t: "touch env (w\<lparr>cursor := idx\<rparr>) (p\<lparr>taskQueues := ?qs\<rparr>) = (w1, p1)" by fastforce
    have p1: "pool_rep p1 xs (Suc fl)" "taskQueues p1 = ?qs"
      using touch_rep(1,3) [of env "w\<lparr>cursor := idx\<rparr>" "p\<lparr>taskQueues := ?qs\<rparr>"] recv(1) t by simp_all
    obtain p2 where p2: "runTask env ?t p1 = Some p2" "pool_rep p2 xs fl" "ran_tasks env [?t] p1 p2" "taskQueues p2 = taskQueues p1"
      using runTask_spec [OF p1(1) recv(2)] .
    have run: "1 \<le> runningWorkersNum p2"
      using p2(3) t less.prems(2) by (auto simp: ran_tasks_def touch_def)
    have len: "length (queued (taskQueues p)) = Suc (length (queued ?qs))" using arg_cong [OF recv(3), of size] by simp
    from less.hyps [OF _ p2(2) run, of w1] len p1(2) p2(4) obtain p' ts where
      3: "run_loop env draw w1 p2 = Some p'" "worker_post env ts fl p2 p'" "mset ts = mset (queued (taskQueues p2)) + mset xs"
      by auto
    have "run_loop env draw w p = Some p'"
      using 2(4) k(3) t p2(1) 3(1) by (subst run_loop.simps) simp
    moreover have "worker_post env (?t # ts) fl p p'"
      using worker_post_after [OF p2(3) 3(2)] worker_post_frame(1,3) [of env "?t # ts" fl] t
      by (metis append_Cons append_Nil snd_conv)
    moreover have "mset (?t # ts) = mset (queued (taskQueues p)) + mset xs"
      using 3(3) recv(3) p1(2) p2(4) by simp
    ultimately show ?thesis by blast
  next
    case 1
    have h: "holds (taskBuf p) xs" using less.prems(1) by (simp add: pool_rep_def)
    obtain cbuf where cbuf: "PopBatch batchSize (taskBuf p) = Some (map Some (take batchSize xs), cbuf)"
      "overflowClosed cbuf = overflowClosed (taskBuf p)" "holds cbuf (drop batchSize xs)"
      using chunked.pop_law [OF h, of batchSize] by blast
    let ?ts = "take batchSize xs" and ?p1 = "p\<lparr>taskBuf := cbuf\<rparr>"
    have rep1: "pool_rep ?p1 (drop batchSize xs) (length ?ts + fl)"
      by (rule pool_rep_pop [OF less.prems(1) cbuf(3,2)])
    have id: "p\<lparr>taskQueues := taskQueues p\<rparr> = p" by simp
    show ?thesis
    proof (cases "xs = []")
      case True
      then have "pool_rep ?p1 [] fl" using rep1 by simp
      moreover have "1 \<le> runningWorkersNum ?p1" using less.prems(2) by simp
      ultimately obtain p' where p': "park draw w ?p1 = Some p'" "pool_rep p' [] fl"
        "runningWorkersNum p' = runningWorkersNum ?p1 - 1" "exitCount p' = exitCount ?p1 + 1"
        "Idle_elems (idleWorks p') = add_mset (Some w) (Idle_elems (idleWorks ?p1))"
        "ran p' = ran ?p1" "raised p' = raised ?p1" "closed p' = closed ?p1" "taskQueues p' = taskQueues ?p1"
        "consumeCount p' = consumeCount ?p1" "config p' = config ?p1" "capacity p' = capacity ?p1" "shardMask p' = shardMask ?p1" "hists p' = hists ?p1"
        by (rule park_spec)
      have "run_loop env draw w p = Some p'"
        using 1(2) k(3) cbuf(1) p'(1) True by (subst run_loop.simps) (simp add: id)
      moreover have "worker_post env [] fl p p'"
        using p' 1(1) by (auto simp: worker_post_def pool_holds_def)
      ultimately show ?thesis using 1(1) True by (intro exI [of _ p'] exI [of _ "[]"]) simp
    next
      case False
      have nn: "\<forall>t \<in> set ?ts. \<not> isNilTask t" using less.prems(1) by (auto simp: pool_rep_def dest: in_set_takeD)
      from run_batch_spec [OF rep1 nn, of env w] obtain w' p2 where
        p2: "run_batch env (map Some ?ts) w ?p1 = Some (w', p2)" "pool_rep p2 (drop batchSize xs) fl"
          "ran_tasks env ?ts ?p1 p2" "taskQueues p2 = taskQueues ?p1" by blast
      have run: "1 \<le> runningWorkersNum p2" using p2(3) less.prems(2) by (simp add: ran_tasks_def)
      have "length (drop batchSize xs) < length xs" using False by (simp add: batchSize_def)
      with less.hyps [OF _ p2(2) run, of w'] p2(4) obtain p' ts where
        3: "run_loop env draw w' p2 = Some p'" "worker_post env ts fl p2 p'"
           "mset ts = mset (queued (taskQueues p2)) + mset (drop batchSize xs)"
        by auto
      have "run_loop env draw w p = Some p'"
        using 1(2) k(3) cbuf(1) p2(1) 3(1) False by (subst run_loop.simps) (simp add: id batchSize_def)
      moreover have "worker_post env (?ts @ ts) fl p p'"
        using worker_post_after [OF p2(3) 3(2)] by (simp add: worker_post_frame)
      moreover have "mset (?ts @ ts) = mset (queued (taskQueues p)) + mset xs"
      proof -
        have "mset xs = mset ?ts + mset (drop batchSize xs)" by (metis append_take_drop_id mset_append)
        with 3(3) p2(4) show ?thesis by (simp only: mset_append) (simp add: ac_simps)
      qed
      ultimately show ?thesis by blast
    qed
  qed
qed

lemma worker_run_spec:
  assumes "pool_holds p M fl" "1 \<le> runningWorkersNum p"
  shows "\<exists>p' ts. worker_run env draw NilTask w p = Some p' \<and> worker_post env ts fl p p' \<and> mset ts = M"
proof -
  obtain xs where xs: "pool_rep p xs fl" "M = mset (queued (taskQueues p)) + mset xs"
    using assms(1) by (auto simp: pool_holds_def)
  obtain w1 p1 where t: "touch env w p = (w1, p1)" by fastforce
  have "pool_rep p1 xs fl" "taskQueues p1 = taskQueues p" "1 \<le> runningWorkersNum p1"
    using xs(1) t assms(2) by (auto simp: touch_def pool_rep_def)
  with run_loop_spec [of p1 xs fl env draw w1] obtain p' ts where
    3: "run_loop env draw w1 p1 = Some p'" "worker_post env ts fl p1 p'" "mset ts = M" using xs(2) by auto
  have "worker_run env draw NilTask w p = Some p'" using t 3(1) by (simp add: worker_run_def is_nil_def)
  moreover have "worker_post env ts fl p p'" using 3(2) t worker_post_frame(3) [of env ts fl w p p'] by simp
  ultimately show ?thesis using 3(3) by blast
qed

text \<open>A pool with two queued tasks, the second of which panics.\<close>

definition busy_pool :: "(unit, unit, unit) Pool" where
  "busy_pool = sample_pool\<lparr>taskQueues := [\<lparr>chan_buf = [sample_task, other_task], chan_cap = 2\<rparr>],
     wg := 2, pendingTasks := 2, runningWorkersNum := 1\<rparr>"

lemma busy_pool_holds: "pool_holds busy_pool {#sample_task, other_task#} 0"
proof -
  have "\<not> isNilTask other_task" by (simp add: other_task_def NewTask_def)
  with sample_pool_rep sample_task_not_nil show ?thesis
    by (auto simp: pool_holds_def busy_pool_def sample_pool_def newPoolState_def pool_rep_def queued_def intro!: exI [of _ "[]"])
qed

section \<open>Properties\<close>

text \<open>
  C1.  A worker's run ends, and by then every task that was queued, in the shards or in the overflow
  buffer, has been run exactly once, with Started and Completed raised for each, whether or not the task, its hooks or its
  panic handler panic; the queues are empty, the counters balanced, and the worker is parked
  in the idle container.  This is a worker that runs alone, over tasks, hooks and handlers that return or panic and do not
  call into the pool themselves: a task that submits itself again keeps the loop going, and the theories \<open>Pool_Concurrent\<close>
  and \<open>Pool_Runs\<close> treat submissions and \<open>Close\<close> that come while a worker runs.
\<close>

theorem worker_runs_every_task:
  assumes "pool_holds p M fl" "1 \<le> runningWorkersNum p"
  shows "\<exists>p' ts. worker_run env draw NilTask w p = Some p' \<and> mset ts = M
    \<and> ran p' = ran p @ map (run_record env) ts
    \<and> raised p' = raised p @ (if hooks p = None then [] else concat (map (run_events env) ts))
    \<and> pool_holds p' {#} fl \<and> wg p' = int fl \<and> pendingTasks p' = int fl
    \<and> runningWorkersNum p' = runningWorkersNum p - 1
    \<and> (\<exists>v. Idle_elems (idleWorks p') = add_mset (Some v) (Idle_elems (idleWorks p)))"
proof -
  obtain p' ts where p': "worker_run env draw NilTask w p = Some p'" "worker_post env ts fl p p'" "mset ts = M"
    using worker_run_spec [OF assms] by blast
  have "pool_holds p' {#} fl" using p'(2) by (simp add: worker_post_def)
  then have "wg p' = int fl" "pendingTasks p' = int fl" by (auto simp: pool_holds_def pool_rep_def)
  with p' show ?thesis by (intro exI [of _ p'] exI [of _ ts]) (simp add: worker_post_def)
qed

theorem worker_runs_every_task_witness:
  "\<exists>p'. worker_run sample_env (None, 0) NilTask \<lparr>wid = 0, lastActiveAt = 0, cursor = 0\<rparr> busy_pool = Some p'
     \<and> mset (ran p') = {#run_record sample_env sample_task, run_record sample_env other_task#} \<and> pool_holds p' {#} 0 \<and> wg p' = 0"
proof -
  have "1 \<le> runningWorkersNum busy_pool" "ran busy_pool = []" by (simp_all add: busy_pool_def sample_pool_def newPoolState_def)
  with worker_runs_every_task [OF busy_pool_holds, of sample_env "(None, 0)" "\<lparr>wid = 0, lastActiveAt = 0, cursor = 0\<rparr>"]
  obtain p' ts where p': "worker_run sample_env (None, 0) NilTask \<lparr>wid = 0, lastActiveAt = 0, cursor = 0\<rparr> busy_pool = Some p'"
    "mset ts = {#sample_task, other_task#}" "ran p' = map (run_record sample_env) ts" "pool_holds p' {#} 0" "wg p' = 0" by auto
  from p'(2,3) have "mset (ran p') = {#run_record sample_env sample_task, run_record sample_env other_task#}"
    by (metis mset_map image_mset_add_mset image_mset_empty)
  with p' show ?thesis by blast
qed

text \<open>
  C20.  A panicking task cannot escape or be lost: \<open>runTask\<close> returns, completes the task exactly once in the
  counters, and raises Completed with the recovered value, even when the panic handler and the hooks
  panic as well.
\<close>

theorem runTask_absorbs_panics:
  assumes "pool_holds p M (Suc fl)" "\<not> isNilTask t" "snd (process (float_oor env) (ctx_done env) t) = Some v"
    and "hooks p \<noteq> None"
  shows "\<exists>p'. runTask env t p = Some p' \<and> pool_holds p' M fl \<and> wg p' = wg p - 1 \<and> pendingTasks p' = pendingTasks p - 1
    \<and> raised p' = raised p @ [EvStarted (the (hookCtx env t)), EvCompleted (the (hookCtx env t)) (Some v)]"
proof -
  obtain xs where xs: "pool_rep p xs (Suc fl)" "M = mset (queued (taskQueues p)) + mset xs"
    using assms(1) by (auto simp: pool_holds_def)
  obtain p' where p': "runTask env t p = Some p'" "pool_rep p' xs fl" "ran_tasks env [t] p p'" "taskQueues p' = taskQueues p"
    using runTask_spec [OF xs(1) assms(2)] .
  then have "pool_holds p' M fl" using xs(2) by (auto simp: pool_holds_def)
  moreover have "wg p' = wg p - 1" "pendingTasks p' = pendingTasks p - 1"
    using p'(2,4) xs(1) by (auto simp: pool_rep_def)
  ultimately show ?thesis using p'(1,3) assms(3,4) by (auto simp: ran_tasks_def run_events_def)
qed

theorem runTask_absorbs_panics_witness:
  "\<exists>p'. runTask sample_env (NewTask (Some (\<lambda>_. Panics ''boom''))) (sample_pool\<lparr>hooks := Some (), wg := 1, pendingTasks := 1\<rparr>) = Some p'
     \<and> raised p' = [EvStarted (), EvCompleted () (Some ''boom'')]"
proof -
  have "pool_holds (sample_pool\<lparr>hooks := Some (), wg := 1, pendingTasks := 1\<rparr>) {#} (Suc 0)"
    using sample_pool_holds by (auto simp: pool_holds_def pool_rep_def)
  from runTask_absorbs_panics [OF this, of "NewTask (Some (\<lambda>_. Panics ''boom''))" sample_env "''boom''"]
  show ?thesis by (auto simp: NewTask_def run_user_def) (simp add: sample_pool_def newPoolState_def)
qed

end
