(* ===== verification/Pool_Scale.thy ===== *)
theory Pool_Scale
  imports Pool_Worker
begin

text \<open>
  The background goroutines, construction and shutdown on the pool's state: the scaler's spawn loop over
  the idle container, \<open>NewPool\<close>, \<open>Close\<close>, the cleaner and the sampler.
\<close>

section \<open>Scaling\<close>

definition stats_ok :: "('c, 'k, 'h) Pool \<Rightarrow> bool" where
  "stats_ok p \<longleftrightarrow> hist_inv (submitHist p) \<and> hist_inv (consumeHist p) \<and> hist_inv (exitHist p)"

lemma median_total:
  assumes "hist_inv h"
  shows "\<exists>m. median h = Some m"
proof (cases "hist_window h = []")
  case True
  with assms show ?thesis by (simp add: median_def hist_inv_def)
next
  case False
  from median_window [OF assms False] show ?thesis by blast
qed

lemma getMedianRates_total: "stats_ok p \<Longrightarrow> \<exists>s c e. getMedianRates p = Some (s, c, e)"
  using median_total [of "submitHist p"] median_total [of "consumeHist p"] median_total [of "exitHist p"]
  by (auto simp: stats_ok_def getMedianRates_def)

text \<open>What spawning \<open>n\<close> workers does: idle workers are taken first, the rest are allocated.\<close>

definition spawned :: "nat \<Rightarrow> ('c, 'k, 'h) Pool \<Rightarrow> ('c, 'k, 'h) Pool \<Rightarrow> bool" where
  "spawned n p p' \<longleftrightarrow>
     length (launched p') = length (launched p) + n
     \<and> size (Idle_elems (idleWorks p')) = size (Idle_elems (idleWorks p)) - n
     \<and> workerCreateCount p' = workerCreateCount p + int (n - size (Idle_elems (idleWorks p)))
     \<and> runningWorkersNum p' = runningWorkersNum p \<and> closed p' = closed p \<and> ran p' = ran p
     \<and> taskQueues p' = taskQueues p \<and> taskBuf p' = taskBuf p \<and> pendingTasks p' = pendingTasks p
     \<and> capacity p' = capacity p \<and> raised p' = raised p
     \<and> config p' = config p \<and> shardMask p' = shardMask p \<and> hists p' = hists p"

lemma spawn_spec:
  "pool_rep p xs fl \<Longrightarrow> \<exists>p'. spawn n p = Some p' \<and> pool_rep p' xs fl \<and> spawned n p p'"
proof (induction n arbitrary: p)
  case (Suc n)
  have i: "Idle_inv (idleWorks p)" "None \<notin># Idle_elems (idleWorks p)" using Suc.prems by (simp_all add: pool_rep_def)
  show ?case
  proof (cases "Idle_elems (idleWorks p) = {#}")
    case True
    from idle_works.pop_empty [OF i(1) True] have pop: "Idle_Pop (idleWorks p) = Some (None, idleWorks p)" .
    obtain w p2 where w: "workerPool_Get p = (w, p2)" by fastforce
    let ?p = "startWorker w p2"
    have "pool_rep ?p xs fl" using Suc.prems w by (auto simp: workerPool_Get_def startWorker_def Let_def pool_rep_def)
    from Suc.IH [OF this] obtain p' where p': "spawn n ?p = Some p'" "pool_rep p' xs fl" "spawned n ?p p'" by blast
    have "spawn (Suc n) p = Some p'" using pop w p'(1) by simp
    moreover have "spawned (Suc n) p p'"
      using p'(3) w True by (auto simp: spawned_def workerPool_Get_def startWorker_def Let_def)
    ultimately show ?thesis using p'(2) by blast
  next
    case False
    from idle_works.pop_law [OF i(1) False] obtain w c where
      pop: "Idle_Pop (idleWorks p) = Some (w, c)" "Idle_inv c" "Idle_elems (idleWorks p) = add_mset w (Idle_elems c)" by blast
    then obtain v where v: "w = Some v" using i(2) by (cases w) auto
    let ?p = "startWorker v (p\<lparr>idleWorks := c\<rparr>)"
    have "pool_rep ?p xs fl" using Suc.prems pop by (auto simp: startWorker_def Let_def pool_rep_def)
    from Suc.IH [OF this] obtain p' where p': "spawn n ?p = Some p'" "pool_rep p' xs fl" "spawned n ?p p'" by blast
    have "spawn (Suc n) p = Some p'" using pop(1) v p'(1) by simp
    moreover have "spawned (Suc n) p p'"
      using p'(3) pop(3) by (auto simp: spawned_def startWorker_def Let_def)
    ultimately show ?thesis using p'(2) by blast
  qed
qed (auto simp: spawned_def)

text \<open>The view the scaler takes of a pool at rest.\<close>

definition view_of :: "go_time \<Rightarrow> float64 \<times> float64 \<times> float64 \<Rightarrow> ('c, 'k, 'h) Pool \<Rightarrow> scale_view" where
  "view_of now meds p = \<lparr>sv_submitMed = fst meds, sv_consumeMed = fst (snd meds), sv_exitMed = snd (snd meds),
     sv_running = runningWorkersNum p, sv_bufDepth = Buffer_Len (taskBuf p),
     sv_totalBacklog = pendingTasks p, sv_queued = queuedTasks p, sv_now = now\<rparr>"

lemma pool_rep_running:
  "pool_rep p xs fl \<Longrightarrow> 0 \<le> n \<Longrightarrow> pool_rep (addRunningWorkersNum n (p\<lparr>lastZeroConsumeScale := z\<rparr>)) xs fl"
  by (simp add: pool_rep_def addRunningWorkersNum_def)

lemma scaleDecision_nonneg: "0 \<le> fst (scaleDecision oor c cap v z r)"
  by (simp add: scaleDecision_def case_prod_beta Let_def actualSpawn_bounds)

lemma scaleIfNeeded_spec:
  assumes "pool_rep p xs fl" "stats_ok p"
  obtains meds n z p' where "getMedianRates p = Some meds"
    "scaleDecision (float_oor env) (config p) (capacity p) (view_of now meds p) (lastZeroConsumeScale p) (runningWorkersNum p) = (int n, z)"
    "scaleIfNeeded env now p = Some p'" "pool_rep p' xs fl"
    "spawned n (addRunningWorkersNum (int n) (p\<lparr>lastZeroConsumeScale := z\<rparr>)) p'"
proof -
  obtain s c e where m: "getMedianRates p = Some (s, c, e)" using getMedianRates_total [OF assms(2)] by blast
  let ?v = "view_of now (s, c, e) p"
  obtain i z where d: "scaleDecision (float_oor env) (config p) (capacity p) ?v (lastZeroConsumeScale p) (runningWorkersNum p) = (i, z)"
    by fastforce
  have i: "0 \<le> i" using scaleDecision_nonneg [of "float_oor env" "config p" "capacity p" ?v "lastZeroConsumeScale p" "runningWorkersNum p"] d by simp
  from spawn_spec [OF pool_rep_running [OF assms(1) i, of z], of "nat i"] obtain p' where
    p': "spawn (nat i) (addRunningWorkersNum i (p\<lparr>lastZeroConsumeScale := z\<rparr>)) = Some p'" "pool_rep p' xs fl"
    "spawned (nat i) (addRunningWorkersNum i (p\<lparr>lastZeroConsumeScale := z\<rparr>)) p'" by blast
  have "scaleIfNeeded env now p = Some p'"
    using m d p'(1) by (simp add: scaleIfNeeded_def view_of_def)
  with m d p' i show ?thesis by (intro that [of "(s, c, e)" "nat i" z p']) simp_all
qed

section \<open>Construction and housekeeping\<close>

lemma NewPool_rep:
  assumes "config_ok c" "taskQueueShards c \<le> 2 ^ 62" "NewPool maxMake procs (Some c) = Some p"
  shows "pool_rep p [] 0" "stats_ok p" "capacity p = workerNumCapacity c" "queued (taskQueues p) = []"
    "runningWorkersNum p = 0" "\<not> closed p" "config p = c" "idleWorks p = newIdleWorks (idleContainerType c)" "hooks p = None"
proof -
  obtain k where k: "k \<le> 62" "resolveTaskQueueShards procs c = Some (2 ^ k)" using resolve_ok [OF assms(1,2)] by blast
  obtain qs where qs: "newTaskQueues maxMake procs c = Some qs" and p: "p = newPoolState (nat (statsWindowSize c)) qs c"
    using assms(3) by (auto simp: NewPool_def split: if_splits Option.bind_splits)
  obtain cap where "qs = replicate (2 ^ k) \<lparr>chan_buf = [], chan_cap = cap\<rparr>"
    using qs k(2) by (auto simp: newTaskQueues_def Let_def nat_power_eq split: if_splits)
  then have q: "length qs = 2 ^ k" "queued qs = []" by (simp_all add: queued_def)
  have w: "0 < nat (statsWindowSize c)" using assms(1) by (simp add: config_ok_def)
  have o: "overflowClosed newChunkedTaskBuffer = False" by (rule newChunkedTaskBuffer_open)
  show "pool_rep p [] 0"
    unfolding pool_rep_def p newPoolState_def using q k(1) o holds_new idle_works.new_inv idle_works.new_elems
    by (auto intro!: exI [of _ k])
  show "stats_ok p" using w by (simp add: stats_ok_def p newPoolState_def hist_new_inv bucket_tables)
  show "capacity p = workerNumCapacity c" "queued (taskQueues p) = []" "runningWorkersNum p = 0" "\<not> closed p"
    "config p = c" "idleWorks p = newIdleWorks (idleContainerType c)" "hooks p = None"
    using q by (simp_all add: p newPoolState_def)
qed

lemma spawned_frame: "spawned n (addRunningWorkersNum i (p\<lparr>lastZeroConsumeScale := z\<rparr>)) p' \<Longrightarrow>
    runningWorkersNum p' = runningWorkersNum p + i \<and> length (launched p') = length (launched p) + n
    \<and> workerCreateCount p' = workerCreateCount p + int (n - size (Idle_elems (idleWorks p)))
    \<and> closed p' = closed p \<and> ran p' = ran p \<and> taskQueues p' = taskQueues p \<and> capacity p' = capacity p \<and> raised p' = raised p
    \<and> config p' = config p \<and> shardMask p' = shardMask p \<and> hists p' = hists p"
  by (simp add: spawned_def addRunningWorkersNum_def)

lemma cleaner_tick_spec:
  assumes "pool_rep p xs fl"
  obtains c where "cleaner_tick now p = Some (p\<lparr>idleWorks := c\<rparr>)" "pool_rep (p\<lparr>idleWorks := c\<rparr>) xs fl"
    "Idle_elems c = filter_mset (alive DatedTime now Second) (Idle_elems (idleWorks p))"
proof -
  have "Idle_inv (idleWorks p)" using assms by (simp add: pool_rep_def)
  moreover have "dur_ok Second" by (simp add: dur_ok_def Second_def Millisecond_def)
  ultimately obtain n c where "Idle_RemoveExpired now Second (idleWorks p) = Some (n, c)" "Idle_inv c"
    "Idle_elems c = filter_mset (alive DatedTime now Second) (Idle_elems (idleWorks p))"
    using idle_works.expire_law by blast
  with assms show ?thesis by (intro that [of c]) (auto simp: cleaner_tick_def pool_rep_def)
qed

lemma sampleRates_spec:
  assumes "pool_rep p xs fl" "stats_ok p"
  obtains p' where "sampleRates p = Some p'" "pool_rep p' xs fl" "stats_ok p'"
    "submitCount p' = 0" "consumeCount p' = 0" "exitCount p' = 0" "taskQueues p' = taskQueues p" "closed p' = closed p"
    "config p' = config p" "shardMask p' = shardMask p" "ran p' = ran p" "capacity p' = capacity p"
proof -
  obtain sh where sh: "hist_add (submitCount p) (submitHist p) = Some sh" "hist_inv sh"
    using assms(2) hist_add_window by (metis stats_ok_def)
  obtain ch where ch: "hist_add (consumeCount p) (consumeHist p) = Some ch" "hist_inv ch"
    using assms(2) hist_add_window by (metis stats_ok_def)
  obtain eh where eh: "hist_add (exitCount p) (exitHist p) = Some eh" "hist_inv eh"
    using assms(2) hist_add_window by (metis stats_ok_def)
  from sh ch eh assms(1) show ?thesis
    by (intro that [of "p\<lparr>submitCount := 0, consumeCount := 0, exitCount := 0, submitHist := sh, consumeHist := ch, exitHist := eh\<rparr>"])
      (simp_all add: sampleRates_def stats_ok_def pool_rep_def)
qed

section \<open>Properties\<close>

lemma pool_holds_drained: "pool_holds p M fl \<Longrightarrow> drained p \<longleftrightarrow> closed p \<and> M = {#} \<and> fl = 0"
proof -
  assume "pool_holds p M fl"
  then obtain xs where "M = mset (queued (taskQueues p)) + mset xs" "pendingTasks p = int (length (queued (taskQueues p)) + length xs + fl)"
    by (auto simp: pool_holds_def pool_rep_def)
  then have "pendingTasks p = int (size M + fl)" by simp
  moreover have "int (size M + fl) = 0 \<longleftrightarrow> M = {#} \<and> fl = 0" by (simp only: of_nat_eq_0_iff add_eq_0_iff_both_eq_0 size_eq_0_iff_empty)
  ultimately show ?thesis by (simp add: drained_def)
qed

lemma cleaner_keeps:
  assumes "pool_holds p M fl"
  shows "\<exists>p'. expiredWorkerCleaner es p = Some (CloseSeen \<in> set es, p') \<and> pool_holds p' M fl"
  using assms
proof (induction es arbitrary: p)
  case (Cons e es)
  obtain xs where xs: "pool_rep p xs fl" "M = mset (queued (taskQueues p)) + mset xs" using Cons.prems by (auto simp: pool_holds_def)
  show ?case
  proof (cases e)
    case (TickAt now)
    obtain c where c: "cleaner_tick now p = Some (p\<lparr>idleWorks := c\<rparr>)" "pool_rep (p\<lparr>idleWorks := c\<rparr>) xs fl"
      using cleaner_tick_spec [OF xs(1)] .
    have "pool_holds (p\<lparr>idleWorks := c\<rparr>) M fl" using c(2) xs(2) by (auto simp: pool_holds_def)
    from Cons.IH [OF this] c(1) TickAt show ?thesis by simp
  qed (use Cons.prems in simp)
qed simp

lemma rescue_spec:
  assumes "pool_holds p M fl" "stats_ok p" "runningWorkersNum p = 0" "M \<noteq> {#}" "0 < capacity p"
    and "\<And>meds. getMedianRates p = Some meds \<Longrightarrow>
      pendingTasks p + max 0 (exitPerTick (float_oor env) (config p) (view_of now meds p)) < 2 ^ 63"
  shows "\<exists>p1 p2 ts. scaleIfNeeded env now p = Some p1 \<and> length (launched p) < length (launched p1)
    \<and> worker_run env draw NilTask w p1 = Some p2 \<and> mset ts = M \<and> ran p2 = ran p @ map (run_record env) ts
    \<and> pool_holds p2 {#} fl \<and> closed p2 = closed p"
proof -
  obtain xs where xs: "pool_rep p xs fl" "M = mset (queued (taskQueues p)) + mset xs"
    using assms(1) by (auto simp: pool_holds_def)
  obtain meds n z p1 where d: "getMedianRates p = Some meds"
    "scaleDecision (float_oor env) (config p) (capacity p) (view_of now meds p)
      (lastZeroConsumeScale p) (runningWorkersNum p) = (int n, z)"
    "scaleIfNeeded env now p = Some p1" "pool_rep p1 xs fl"
    "spawned n (addRunningWorkersNum (int n) (p\<lparr>lastZeroConsumeScale := z\<rparr>)) p1"
    using scaleIfNeeded_spec [OF xs(1) assms(2), of env now] .
  have "0 < size M" using assms(4) by (simp add: nonempty_has_size)
  then have "0 < length (queued (taskQueues p)) + length xs" using xs(2) by simp
  moreover have "pendingTasks p = int (length (queued (taskQueues p)) + length xs + fl)"
    using xs(1) by (simp add: pool_rep_def)
  ultimately have pend: "0 < pendingTasks p" by linarith
  have "1 \<le> int n"
    using scaleDecision_restart [of "view_of now meds p" "capacity p" "float_oor env" "config p" "lastZeroConsumeScale p"]
      assms(3,5) assms(6) [OF d(1)] pend d(2) by (simp add: view_of_def)
  note f = spawned_frame [OF d(5)]
  have h: "pool_holds p1 M fl" using d(4) f xs(2) by (auto simp: pool_holds_def)
  have "1 \<le> runningWorkersNum p1" using f assms(3) \<open>1 \<le> int n\<close> by simp
  from worker_run_spec [OF h this, of env draw w] obtain p2 ts where
    "worker_run env draw NilTask w p1 = Some p2" "worker_post env ts fl p1 p2" "mset ts = M" by blast
  with d(3) f \<open>1 \<le> int n\<close> show ?thesis
    by (intro exI [of _ p1] exI [of _ p2] exI [of _ ts]) (auto simp: worker_post_def)
qed

text \<open>
  C21.  The pool's background goroutines and \<open>Close\<close> never lose, duplicate or run a task: each returns and
  leaves the pool holding the same tasks; the cleaner removes exactly the idle workers unused for a second, in a loop
  that returns exactly when it sees the pool closed; the sampler restarts the counters; the sampler and the scaler
  return exactly when the pool is closed and nothing is pending.
\<close>

theorem background_keeps_tasks:
  assumes "pool_holds p M fl" "stats_ok p"
  shows "(\<exists>p'. cleaner_tick now p = Some p' \<and> pool_holds p' M fl
            \<and> Idle_elems (idleWorks p') = filter_mset (alive DatedTime now Second) (Idle_elems (idleWorks p)))
    \<and> (\<exists>p'. expiredWorkerCleaner es p = Some (CloseSeen \<in> set es, p') \<and> pool_holds p' M fl)
    \<and> (\<exists>p'. sampler_tick p = Some (closed p \<and> M = {#} \<and> fl = 0, p') \<and> pool_holds p' M fl \<and> stats_ok p'
            \<and> submitCount p' = 0 \<and> consumeCount p' = 0 \<and> exitCount p' = 0)
    \<and> (\<exists>p'. scaler_tick env now p = Some (closed p \<and> M = {#} \<and> fl = 0, p') \<and> pool_holds p' M fl)
    \<and> pool_holds (Close env p) M fl"
proof -
  obtain xs where xs: "pool_rep p xs fl" "M = mset (queued (taskQueues p)) + mset xs"
    using assms(1) by (auto simp: pool_holds_def)
  obtain c where c: "cleaner_tick now p = Some (p\<lparr>idleWorks := c\<rparr>)" "pool_rep (p\<lparr>idleWorks := c\<rparr>) xs fl"
    "Idle_elems c = filter_mset (alive DatedTime now Second) (Idle_elems (idleWorks p))"
    using cleaner_tick_spec [OF xs(1)] .
  obtain s where s: "sampleRates p = Some s" "pool_rep s xs fl" "stats_ok s" "submitCount s = 0" "consumeCount s = 0"
    "exitCount s = 0" "taskQueues s = taskQueues p" "closed s = closed p"
    using sampleRates_spec [OF xs(1) assms(2)] .
  obtain n z p' where p': "scaleIfNeeded env now p = Some p'" "pool_rep p' xs fl"
    "spawned n (addRunningWorkersNum (int n) (p\<lparr>lastZeroConsumeScale := z\<rparr>)) p'"
    using scaleIfNeeded_spec [OF xs(1) assms(2)] by metis
  have h: "pool_holds (p\<lparr>idleWorks := c\<rparr>) M fl" "pool_holds s M fl" "pool_holds p' M fl" "closed p' = closed p"
    using c s p' spawned_frame [OF p'(3)] xs(2) by (auto simp: pool_holds_def)
  have 1: "\<exists>p'. cleaner_tick now p = Some p' \<and> pool_holds p' M fl
            \<and> Idle_elems (idleWorks p') = filter_mset (alive DatedTime now Second) (Idle_elems (idleWorks p))"
    using c h(1) by auto
  have 2: "sampler_tick p = Some (closed p \<and> M = {#} \<and> fl = 0, s)" "scaler_tick env now p = Some (closed p \<and> M = {#} \<and> fl = 0, p')"
    using s(1,8) p'(1) h pool_holds_drained [OF h(2)] pool_holds_drained [OF h(3)] by (simp_all add: sampler_tick_def scaler_tick_def)
  from 1 2 h s(3-6) cleaner_keeps [OF assms(1)] Close_holds [OF assms(1)] show ?thesis by blast
qed

lemma sample_stats_ok: "stats_ok sample_pool"
  by (simp add: stats_ok_def sample_pool_def newPoolState_def hist_new_inv bucket_tables)

theorem background_keeps_tasks_witness:
  "(\<exists>p'. expiredWorkerCleaner [TickAt 0, CloseSeen, TickAt 7] sample_pool = Some (True, p') \<and> pool_holds p' {#} 0)
     \<and> pool_holds (Close sample_env sample_pool) {#} 0"
  using background_keeps_tasks [OF sample_pool_holds sample_stats_ok, of 0 "[TickAt 0, CloseSeen, TickAt 7]" sample_env] by auto

text \<open>
  C22.  A scaling step starts exactly as many workers as it counts, stays within the capacity when it starts
  any, and reuses idle workers before it allocates new ones.
\<close>

theorem scaleIfNeeded_starts_workers:
  assumes "pool_holds p M fl" "stats_ok p" "scaleIfNeeded env now p = Some p'"
  shows "\<exists>n. runningWorkersNum p' = runningWorkersNum p + int n
    \<and> length (launched p') = length (launched p) + n
    \<and> (0 < n \<longrightarrow> runningWorkersNum p' \<le> capacity p)
    \<and> workerCreateCount p' = workerCreateCount p + int (n - size (Idle_elems (idleWorks p)))"
proof -
  obtain xs where xs: "pool_rep p xs fl" using assms(1) by (auto simp: pool_holds_def)
  obtain meds n z q where d: "scaleDecision (float_oor env) (config p) (capacity p) (view_of now meds p)
      (lastZeroConsumeScale p) (runningWorkersNum p) = (int n, z)"
    "scaleIfNeeded env now p = Some q" "spawned n (addRunningWorkersNum (int n) (p\<lparr>lastZeroConsumeScale := z\<rparr>)) q"
    using scaleIfNeeded_spec [OF xs assms(2)] by metis
  have "0 < n \<longrightarrow> runningWorkersNum p + int n \<le> capacity p"
    using scaleDecision_capacity [OF d(1)] by simp
  with d assms(3) spawned_frame [OF d(3)] show ?thesis by auto
qed

theorem scaleIfNeeded_starts_workers_witness:
  "\<exists>p' n. scaleIfNeeded sample_env 0 sample_pool = Some p' \<and> runningWorkersNum p' = int n"
proof -
  obtain p' where "scaleIfNeeded sample_env 0 sample_pool = Some p'"
    using scaleIfNeeded_spec [OF sample_pool_rep sample_stats_ok] by metis
  with scaleIfNeeded_starts_workers [OF sample_pool_holds sample_stats_ok this] show ?thesis
    by (auto simp: sample_pool_def newPoolState_def)
qed

text \<open>
  C3.  No stranded task: if workers have all parked while tasks are queued, one scaling step starts a
  worker, and once a worker has run, the queues are empty and every one of those tasks has been run.
\<close>

theorem stranded_tasks_rescued:
  assumes "pool_holds p M fl" "stats_ok p" "runningWorkersNum p = 0" "M \<noteq> {#}" "0 < capacity p"
    and "\<And>meds. getMedianRates p = Some meds \<Longrightarrow>
      pendingTasks p + max 0 (exitPerTick (float_oor env) (config p) (view_of now meds p)) < 2 ^ 63"
  shows "\<exists>p1 p2 ts. scaleIfNeeded env now p = Some p1 \<and> length (launched p) < length (launched p1)
    \<and> worker_run env draw NilTask w p1 = Some p2 \<and> mset ts = M \<and> ran p2 = ran p @ map (run_record env) ts
    \<and> pool_holds p2 {#} fl"
  using rescue_spec [OF assms] by metis

lemma sample_stranded:
  defines "p \<equiv> sample_pool\<lparr>taskQueues := [\<lparr>chan_buf = [sample_task], chan_cap = 2\<rparr>], wg := 1, pendingTasks := 1\<rparr>"
  shows "pool_holds p {#sample_task#} 0" "stats_ok p" "getMedianRates p = Some (Fin 0, Fin 0, Fin 0)"
proof -
  have "pool_rep p [] 0"
    using sample_task_not_nil holds_new newChunkedTaskBuffer_open idle_works.new_inv idle_works.new_elems
    by (auto simp: p_def sample_pool_def newPoolState_def pool_rep_def queued_def intro!: exI [of _ 0])
  then show "pool_holds p {#sample_task#} 0" by (auto simp: pool_holds_def p_def queued_def)
  show "stats_ok p" using sample_stats_ok by (simp add: p_def stats_ok_def)
  show "getMedianRates p = Some (Fin 0, Fin 0, Fin 0)"
    by (simp add: p_def sample_pool_def newPoolState_def getMedianRates_def median_def newHistogram_def)
qed

theorem stranded_tasks_rescued_witness:
  "\<exists>p1 p2. scaleIfNeeded sample_env 0 (sample_pool\<lparr>taskQueues := [\<lparr>chan_buf = [sample_task], chan_cap = 2\<rparr>], wg := 1, pendingTasks := 1\<rparr>) = Some p1
    \<and> worker_run sample_env (None, 0) NilTask \<lparr>wid = 0, lastActiveAt = 0, cursor = 0\<rparr> p1 = Some p2 \<and> pool_holds p2 {#} 0"
proof -
  let ?p = "sample_pool\<lparr>taskQueues := [\<lparr>chan_buf = [sample_task], chan_cap = 2\<rparr>], wg := 1, pendingTasks := 1\<rparr>"
  have c: "config ?p = defaultConfig" "runningWorkersNum ?p = 0" "0 < capacity ?p"
    by (simp_all add: sample_pool_def newPoolState_def defaultConfig_def defaultMaxWorkerNumCapacity_def)
  have "pendingTasks ?p + max 0 (exitPerTick (float_oor sample_env) (config ?p) (view_of 0 meds ?p)) < 2 ^ 63"
    if "getMedianRates ?p = Some meds" for meds
  proof -
    have e: "sv_exitMed (view_of 0 meds ?p) = Fin 0" using that sample_stranded(3) by (auto simp: view_of_def)
    show ?thesis unfolding c(1) exitPerTick_none [OF e] by simp
  qed
  from stranded_tasks_rescued [OF sample_stranded(1,2) c(2) _ c(3) this] show ?thesis by auto blast
qed

end
