(* ===== verification/Pool_Life.thy ===== *)
theory Pool_Life
  imports Pool_Scale
begin

text \<open>
  A pool from \<open>NewPool\<close> to the end of \<open>Wait\<close>: any history of submissions, worker runs, ticks of the background
  goroutines, resumed submitters and calls of \<open>Close\<close>, each run to completion, and then the shutdown.
\<close>

section \<open>Histories\<close>

text \<open>
  \<open>LResume\<close> lets a submitter that is blocked in the last \<open>select\<close> of \<open>submit\<close> try again; \<open>LWork\<close> is the run of a worker
  that is counted as running.  The state is the pool, the blocked submitters (context, shard and task) and the tasks
  accepted so far.
\<close>

datatype 'c life =
  LSubmit "nat option" nat 'c "'c Task" | LResume nat nat | LWork "nat option \<times> int" worker
| LScale go_time | LSample | LClean go_time | LClose

type_synonym 'c blocked = "('c \<times> nat \<times> 'c Task) list"

fun life_step :: "('c, 'k, 'h) env \<Rightarrow> 'c life \<Rightarrow> ('c, 'k, 'h) Pool \<times> 'c blocked \<times> 'c Task list \<Rightarrow> (('c, 'k, 'h) Pool \<times> 'c blocked \<times> 'c Task list) option" where
  "life_step env (LSubmit ch pick ctx t) (p, blk, acc) =
     (if isNilTask t then Some (p, blk, acc)
      else do {
        (r, p1) \<leftarrow> submit env ch pick ctx t p;
        Some (case r of
                Returned ok \<Rightarrow> (p1, blk, if ok then acc @ [t] else acc)
              | Blocked i \<Rightarrow> (p1, blk @ [(ctx, i, t)], acc)) })"
| "life_step env (LResume pick j) (p, blk, acc) =
     (if j < length blk
      then case blk ! j of (ctx, i, t) \<Rightarrow> do {
        (r, p1) \<leftarrow> wait_select env pick ctx i t p;
        Some (case r of
                Returned ok \<Rightarrow> (p1, take j blk @ drop (Suc j) blk, if ok then acc @ [t] else acc)
              | Blocked _ \<Rightarrow> (p1, blk, acc)) }
      else Some (p, blk, acc))"
| "life_step env (LWork draw w) (p, blk, acc) =
     (if 1 \<le> runningWorkersNum p then do { p1 \<leftarrow> worker_run env draw NilTask w p; Some (p1, blk, acc) } else Some (p, blk, acc))"
| "life_step env (LScale now) (p, blk, acc) = do { p1 \<leftarrow> scaleIfNeeded env now p; Some (p1, blk, acc) }"
| "life_step env LSample (p, blk, acc) = do { p1 \<leftarrow> sampleRates p; Some (p1, blk, acc) }"
| "life_step env (LClean now) (p, blk, acc) = do { p1 \<leftarrow> cleaner_tick now p; Some (p1, blk, acc) }"
| "life_step env LClose (p, blk, acc) = Some (Close env p, blk, acc)"

fun life_run :: "('c, 'k, 'h) env \<Rightarrow> 'c life list \<Rightarrow> ('c, 'k, 'h) Pool \<times> 'c blocked \<times> 'c Task list \<Rightarrow> (('c, 'k, 'h) Pool \<times> 'c blocked \<times> 'c Task list) option" where
  "life_run env [] s = Some s"
| "life_run env (e # es) s = do { s1 \<leftarrow> life_step env e s; life_run env es s1 }"

text \<open>The last \<open>select\<close> of every blocked submitter, in turn: what it returns, and the tasks it has sent.\<close>

fun wake_all :: "('c, 'k, 'h) env \<Rightarrow> (nat \<Rightarrow> nat) \<Rightarrow> 'c blocked \<Rightarrow> ('c, 'k, 'h) Pool \<Rightarrow> (submit_status list \<times> 'c Task list \<times> ('c, 'k, 'h) Pool) option" where
  "wake_all env pk [] p = Some ([], [], p)"
| "wake_all env pk ((ctx, i, t) # blk) p = do {
     (r, p1) \<leftarrow> wait_select env (pk (length blk)) ctx i t p;
     (rs, sent, p2) \<leftarrow> wake_all env pk blk p1;
     Some (r # rs, if r = Returned True then t # sent else sent, p2) }"

text \<open>What is left to be done: by a running worker, or by one that the scaler starts.\<close>

definition finish :: "('c, 'k, 'h) env \<Rightarrow> go_time \<Rightarrow> nat option \<times> int \<Rightarrow> worker \<Rightarrow> ('c, 'k, 'h) Pool \<Rightarrow> ('c, 'k, 'h) Pool option" where
  "finish env now draw w p =
     (if 1 \<le> runningWorkersNum p then worker_run env draw NilTask w p
      else if pendingTasks p = 0 then Some p
      else do { p1 \<leftarrow> scaleIfNeeded env now p; worker_run env draw NilTask w p1 })"

section \<open>Invariant\<close>

lemma pool_holds_len:
  assumes "pool_holds p M fl"
  shows "length (taskQueues p) = unat (shardMask p) + 1"
proof -
  obtain k where k: "k < 64" "length (taskQueues p) = 2 ^ k" "shardMask p = shardMaskOf (2 ^ k)"
    using assms by (auto simp: pool_holds_def pool_rep_def)
  have "unat (shardMaskOf (2 ^ k)) = (2 ^ 64 - 1) mod 2 ^ k"
    using and_mask_mod [OF k(1), of "- 1"] by (simp add: unsigned_minus_1_eq_mask mask_eq_exp_minus_1)
  also have "\<dots> = 2 ^ k - 1"
    using k(1) by (metis less_imp_le mask_eq_exp_minus_1 mask_mod_exp min.absorb1)
  finally show ?thesis using k by simp
qed

definition pending_ok :: "('c, 'k, 'h) Pool \<Rightarrow> 'c blocked \<Rightarrow> bool" where
  "pending_ok p blk \<longleftrightarrow> (blk \<noteq> [] \<longrightarrow> workMode (config p) = BLOCK)
     \<and> (\<forall>(ctx, i, t) \<in> set blk. i \<le> unat (shardMask p) \<and> \<not> isNilTask t)"

definition life_ok :: "('c, 'k, 'h) env \<Rightarrow> 'h Config \<Rightarrow> nat \<Rightarrow> ('c, 'k, 'h) Pool \<times> 'c blocked \<times> 'c Task list \<Rightarrow> bool" where
  "life_ok env c n = (\<lambda>(p, blk, acc). \<exists>M ts.
     pool_holds p M (length blk) \<and> stats_ok p \<and> pending_ok p blk \<and> config p = c \<and> capacity p = workerNumCapacity c
     \<and> ran p = map (run_record env) ts \<and> mset acc = mset ts + M \<and> length acc + length blk \<le> n)"

lemma life_okI:
  assumes "pool_holds p M (length blk)" "stats_ok p" "pending_ok p blk" "config p = c" "capacity p = workerNumCapacity c"
    "ran p = map (run_record env) ts" "mset acc = mset ts + M" "length acc + length blk \<le> n"
  shows "life_ok env c n (p, blk, acc)"
  using assms by (auto simp: life_ok_def)

lemma stats_ok_hists: "hists p' = hists p \<Longrightarrow> stats_ok p' = stats_ok p"
  by (simp add: hists_def stats_ok_def)

lemma pending_ok_frame: "config p' = config p \<Longrightarrow> shardMask p' = shardMask p \<Longrightarrow> pending_ok p' blk = pending_ok p blk"
  by (simp add: pending_ok_def)

lemma resume_spec:
  assumes "pool_holds p M (Suc fl)" "\<not> isNilTask t" "i \<le> unat (shardMask p)" "workMode (config p) = BLOCK"
  shows "\<exists>r p'. wait_select env pick ctx i t p = Some (r, p') \<and> submit_post env t M fl p r p'
    \<and> (closed p \<longrightarrow> (\<exists>b. r = Returned b)) \<and> (\<forall>i'. r = Blocked i' \<longrightarrow> p' = p)"
proof -
  obtain xs where xs: "pool_rep p xs (Suc fl)" "M = mset (queued (taskQueues p)) + mset xs" using assms(1) by (auto simp: pool_holds_def)
  have i: "i < length (taskQueues p)" using pool_holds_len [OF assms(1)] assms(3) by simp
  obtain r p' where r: "wait_select env pick ctx i t p = Some (r, p')" "submit_post env t M fl p r p'"
    using wait_select_spec [OF xs assms(2) i assms(4), of env pick ctx] by blast
  have b: "p' = p \<and> ready_cases env ctx (taskQueues p ! i) p = []" if "r = Blocked i'" for i'
    using r(1) that i by (auto simp: wait_select_def Let_def split: if_splits select_case.splits Option.bind_splits)
  have "closePoolCn p = closed p" using xs(1) by (simp add: pool_rep_def)
  then have "\<exists>b. r = Returned b" if "closed p" using b that by (cases r) (auto simp: ready_cases_def)
  with r b show ?thesis by blast
qed

lemma wake_all_spec:
  assumes "pool_holds p M (length blk)" "closed p" "pending_ok p blk"
  shows "\<exists>rs sent p'. wake_all env pk blk p = Some (rs, sent, p') \<and> (\<forall>r \<in> set rs. \<exists>b. r = Returned b)
    \<and> pool_holds p' (M + mset sent) 0 \<and> closed p' \<and> config p' = config p \<and> capacity p' = capacity p
    \<and> hists p' = hists p \<and> ran p' = ran p \<and> length sent \<le> length blk"
  using assms
proof (induction blk arbitrary: p M)
  case (Cons b blk)
  obtain ctx i t where b: "b = (ctx, i, t)" by (cases b)
  have "\<not> isNilTask t" "i \<le> unat (shardMask p)" "workMode (config p) = BLOCK" "pool_holds p M (Suc (length blk))"
    using Cons.prems(1,3) b by (auto simp: pending_ok_def)
  from resume_spec [OF this(4,1,2,3), of env "pk (length blk)" ctx] Cons.prems(2) obtain ok p1 where
    1: "wait_select env (pk (length blk)) ctx i t p = Some (Returned ok, p1)" "submit_post env t M (length blk) p (Returned ok) p1" by blast
  then have f: "pool_holds p1 (if ok then add_mset t M else M) (length blk)" "closed p1" "config p1 = config p" "capacity p1 = capacity p"
    "shardMask p1 = shardMask p" "hists p1 = hists p" "ran p1 = ran p"
    using Cons.prems(2) by (auto simp: submit_post_def)
  have "pending_ok p1 blk" using Cons.prems(3) f(3,5) by (auto simp: pending_ok_def)
  from Cons.IH [OF f(1,2) this] obtain rs sent p' where
    "wake_all env pk blk p1 = Some (rs, sent, p')" "\<forall>r \<in> set rs. \<exists>b. r = Returned b"
    "pool_holds p' ((if ok then add_mset t M else M) + mset sent) 0" "closed p'" "config p' = config p1" "capacity p' = capacity p1"
    "hists p' = hists p1" "ran p' = ran p1" "length sent \<le> length blk" by blast
  with 1(1) f b show ?case by (cases ok) auto
qed simp

lemma life_submit:
  assumes "life_ok env c n (p, blk, acc)"
  shows "\<exists>s. life_step env (LSubmit ch pick ctx t) (p, blk, acc) = Some s \<and> life_ok env c (Suc n) s"
proof (cases "isNilTask t")
  case True
  with assms show ?thesis by (force simp: life_ok_def)
next
  case False
  obtain M ts where i: "pool_holds p M (length blk)" "stats_ok p" "pending_ok p blk" "config p = c" "capacity p = workerNumCapacity c"
    "ran p = map (run_record env) ts" "mset acc = mset ts + M" "length acc + length blk \<le> n" using assms by (auto simp: life_ok_def)
  from submit_spec [OF i(1) False, of env ch pick ctx] obtain r p' where
    r: "submit env ch pick ctx t p = Some (r, p')"
      "pool_holds p' (if r = Returned True then add_mset t M else M) (case r of Blocked _ \<Rightarrow> Suc (length blk) | Returned _ \<Rightarrow> length blk)"
      "workMode (config p) = NONBLOCK \<longrightarrow> (\<forall>i. r \<noteq> Blocked i)"
      "config p' = config p" "shardMask p' = shardMask p" "hists p' = hists p" "ran p' = ran p" "capacity p' = capacity p"
      "\<forall>i. r = Blocked i \<longrightarrow> i < length (taskQueues p')" by blast
  have s: "stats_ok p'" "pending_ok p' blk" using i(2,3) r(4-6) stats_ok_hists pending_ok_frame by blast+
  show ?thesis
  proof (cases r)
    case (Returned ok)
    have "life_ok env c (Suc n) (p', blk, if ok then acc @ [t] else acc)"
      by (rule life_okI [of _ "if ok then add_mset t M else M" _ _ _ ts]) (use Returned r i s in auto)
    with Returned r(1) False show ?thesis by simp
  next
    case (Blocked j)
    then have "workMode (config p') = BLOCK" using r(3,4) by (cases "workMode (config p)") auto
    moreover have "j \<le> unat (shardMask p')" using Blocked r(9) pool_holds_len [OF r(2)] by simp
    ultimately have "pending_ok p' (blk @ [(ctx, j, t)])" using s(2) False by (auto simp: pending_ok_def)
    then have "life_ok env c (Suc n) (p', blk @ [(ctx, j, t)], acc)"
      by (intro life_okI [of _ M _ _ _ ts]) (use Blocked r i s in auto)
    with Blocked r(1) False show ?thesis by simp
  qed
qed

lemma life_resume:
  assumes "life_ok env c n (p, blk, acc)"
  shows "\<exists>s. life_step env (LResume pick j) (p, blk, acc) = Some s \<and> life_ok env c n s"
proof (cases "j < length blk")
  case True
  obtain M ts where i: "pool_holds p M (length blk)" "stats_ok p" "pending_ok p blk" "config p = c" "capacity p = workerNumCapacity c"
    "ran p = map (run_record env) ts" "mset acc = mset ts + M" "length acc + length blk \<le> n" using assms by (auto simp: life_ok_def)
  obtain ctx k t where b: "blk ! j = (ctx, k, t)" by (cases "blk ! j")
  define rest where "rest = take j blk @ drop (Suc j) blk"
  have l: "length blk = Suc (length rest)" using True by (simp add: rest_def)
  have "(ctx, k, t) \<in> set blk" using b True by (metis nth_mem)
  then have "\<not> isNilTask t" "k \<le> unat (shardMask p)" "workMode (config p) = BLOCK" using i(3) by (auto simp: pending_ok_def)
  with resume_spec [OF i(1) [unfolded l], of t k env pick ctx] obtain r p' where
    r: "wait_select env pick ctx k t p = Some (r, p')" "submit_post env t M (length rest) p r p'" "\<forall>i'. r = Blocked i' \<longrightarrow> p' = p" by blast
  show ?thesis
  proof (cases r)
    case (Returned ok)
    have f: "pool_holds p' (if ok then add_mset t M else M) (length rest)" "config p' = config p" "capacity p' = capacity p"
      "shardMask p' = shardMask p" "hists p' = hists p" "ran p' = ran p"
      using r(2) Returned by (auto simp: submit_post_def)
    have "set rest \<subseteq> set blk" by (auto simp: rest_def dest: in_set_takeD in_set_dropD)
    then have "pending_ok p' rest" using i(3) f(2,4) by (auto simp: pending_ok_def)
    moreover have "stats_ok p'" using i(2) f(5) stats_ok_hists by blast
    ultimately have "life_ok env c n (p', rest, if ok then acc @ [t] else acc)"
      using i(4-7) i(8) [unfolded l] f by (cases ok) (auto intro: life_okI [of _ "add_mset t M" _ _ _ ts] life_okI [of _ M _ _ _ ts])
    with Returned r(1) True b show ?thesis by (simp add: rest_def)
  next
    case (Blocked i')
    with r assms True b show ?thesis by simp
  qed
qed (use assms in simp)

lemma life_work:
  assumes "life_ok env c n (p, blk, acc)"
  shows "\<exists>s. life_step env (LWork draw w) (p, blk, acc) = Some s \<and> life_ok env c n s"
proof (cases "1 \<le> runningWorkersNum p")
  case True
  obtain M ts where i: "pool_holds p M (length blk)" "stats_ok p" "pending_ok p blk" "config p = c" "capacity p = workerNumCapacity c"
    "ran p = map (run_record env) ts" "mset acc = mset ts + M" "length acc + length blk \<le> n" using assms by (auto simp: life_ok_def)
  from worker_run_spec [OF i(1) True, of env draw w] obtain p' us where
    p': "worker_run env draw NilTask w p = Some p'" "worker_post env us (length blk) p p'" "mset us = M" by blast
  have f: "pool_holds p' {#} (length blk)" "config p' = config p" "capacity p' = capacity p" "shardMask p' = shardMask p" "hists p' = hists p"
    "ran p' = ran p @ map (run_record env) us" using p'(2) by (auto simp: worker_post_def)
  have "life_ok env c n (p', blk, acc)"
    using i f p'(3) stats_ok_hists [OF f(5)] pending_ok_frame [OF f(2,4)] by (intro life_okI [of _ "{#}" _ _ _ "ts @ us"]) auto
  with p'(1) True show ?thesis by simp
qed (use assms in simp)

text \<open>The background goroutines keep the tasks, the configuration and the records of what has run.\<close>

lemma life_keep:
  assumes "life_ok env c n (p, blk, acc)"
    and "\<And>xs. pool_rep p xs (length blk) \<Longrightarrow> stats_ok p \<Longrightarrow> \<exists>p'. life_step env e (p, blk, acc) = Some (p', blk, acc)
      \<and> pool_rep p' xs (length blk) \<and> stats_ok p' \<and> taskQueues p' = taskQueues p
      \<and> config p' = config p \<and> shardMask p' = shardMask p \<and> capacity p' = capacity p \<and> ran p' = ran p"
  shows "\<exists>s. life_step env e (p, blk, acc) = Some s \<and> life_ok env c n s"
proof -
  obtain M ts where i: "pool_holds p M (length blk)" "stats_ok p" "pending_ok p blk" "config p = c" "capacity p = workerNumCapacity c"
    "ran p = map (run_record env) ts" "mset acc = mset ts + M" "length acc + length blk \<le> n" using assms(1) by (auto simp: life_ok_def)
  obtain xs where xs: "pool_rep p xs (length blk)" "M = mset (queued (taskQueues p)) + mset xs" using i(1) by (auto simp: pool_holds_def)
  from assms(2) [OF xs(1) i(2)] obtain p' where p': "life_step env e (p, blk, acc) = Some (p', blk, acc)" "pool_rep p' xs (length blk)"
    "stats_ok p'" "taskQueues p' = taskQueues p" "config p' = config p" "shardMask p' = shardMask p" "capacity p' = capacity p" "ran p' = ran p" by blast
  have "pool_holds p' M (length blk)" using p'(2,4) xs(2) by (auto simp: pool_holds_def)
  moreover have "pending_ok p' blk" using i(3) pending_ok_frame [OF p'(5,6)] by simp
  ultimately have "life_ok env c n (p', blk, acc)" using i p'(3,5,7,8) by (intro life_okI [of _ M _ _ _ ts]) simp_all
  with p'(1) show ?thesis by blast
qed

lemma life_scale:
  assumes "life_ok env c n (p, blk, acc)"
  shows "\<exists>s. life_step env (LScale now) (p, blk, acc) = Some s \<and> life_ok env c n s"
proof (rule life_keep [OF assms])
  fix xs assume a: "pool_rep p xs (length blk)" "stats_ok p"
  obtain k z p' where p': "scaleIfNeeded env now p = Some p'" "pool_rep p' xs (length blk)"
    "spawned k (addRunningWorkersNum (int k) (p\<lparr>lastZeroConsumeScale := z\<rparr>)) p'"
    using scaleIfNeeded_spec [OF a] by metis
  with spawned_frame [OF p'(3)] a(2) stats_ok_hists [of p' p]
  show "\<exists>p'. life_step env (LScale now) (p, blk, acc) = Some (p', blk, acc) \<and> pool_rep p' xs (length blk) \<and> stats_ok p'
    \<and> taskQueues p' = taskQueues p \<and> config p' = config p \<and> shardMask p' = shardMask p \<and> capacity p' = capacity p \<and> ran p' = ran p"
    by simp
qed

lemma life_sample:
  assumes "life_ok env c n (p, blk, acc)"
  shows "\<exists>s. life_step env LSample (p, blk, acc) = Some s \<and> life_ok env c n s"
proof (rule life_keep [OF assms])
  fix xs assume a: "pool_rep p xs (length blk)" "stats_ok p"
  obtain p' where "sampleRates p = Some p'" "pool_rep p' xs (length blk)" "stats_ok p'" "taskQueues p' = taskQueues p"
    "config p' = config p" "shardMask p' = shardMask p" "ran p' = ran p" "capacity p' = capacity p"
    using sampleRates_spec [OF a] .
  then show "\<exists>p'. life_step env LSample (p, blk, acc) = Some (p', blk, acc) \<and> pool_rep p' xs (length blk) \<and> stats_ok p'
    \<and> taskQueues p' = taskQueues p \<and> config p' = config p \<and> shardMask p' = shardMask p \<and> capacity p' = capacity p \<and> ran p' = ran p"
    by simp
qed

lemma life_clean:
  assumes "life_ok env c n (p, blk, acc)"
  shows "\<exists>s. life_step env (LClean now) (p, blk, acc) = Some s \<and> life_ok env c n s"
proof (rule life_keep [OF assms])
  fix xs assume a: "pool_rep p xs (length blk)" "stats_ok p"
  obtain d where "cleaner_tick now p = Some (p\<lparr>idleWorks := d\<rparr>)" "pool_rep (p\<lparr>idleWorks := d\<rparr>) xs (length blk)"
    using cleaner_tick_spec [OF a(1)] .
  with a(2) show "\<exists>p'. life_step env (LClean now) (p, blk, acc) = Some (p', blk, acc) \<and> pool_rep p' xs (length blk) \<and> stats_ok p'
    \<and> taskQueues p' = taskQueues p \<and> config p' = config p \<and> shardMask p' = shardMask p \<and> capacity p' = capacity p \<and> ran p' = ran p"
    by (simp add: stats_ok_def)
qed

lemma life_close:
  assumes "life_ok env c n (p, blk, acc)"
  shows "\<exists>s. life_step env LClose (p, blk, acc) = Some s \<and> life_ok env c n s"
proof (rule life_keep [OF assms])
  fix xs assume a: "pool_rep p xs (length blk)" "stats_ok p"
  then have "stats_ok (Close env p)" using stats_ok_hists [of "Close env p" p] by simp
  with Close_rep [OF a(1), of env] show "\<exists>p'. life_step env LClose (p, blk, acc) = Some (p', blk, acc) \<and> pool_rep p' xs (length blk) \<and> stats_ok p'
    \<and> taskQueues p' = taskQueues p \<and> config p' = config p \<and> shardMask p' = shardMask p \<and> capacity p' = capacity p \<and> ran p' = ran p"
    by simp
qed

lemma life_ok_mono: "life_ok env c n s \<Longrightarrow> n \<le> m \<Longrightarrow> life_ok env c m s"
  by (cases s) (auto simp: life_ok_def intro: order_trans)

lemma life_step_ok:
  assumes "life_ok env c n s"
  shows "\<exists>s'. life_step env e s = Some s' \<and> life_ok env c (Suc n) s'"
proof -
  obtain p blk acc where s: "s = (p, blk, acc)" by (cases s)
  have up: "\<exists>s'. r = Some s' \<and> life_ok env c (Suc n) s'" if "\<exists>s'. r = Some s' \<and> life_ok env c n s'" for r
    using that life_ok_mono [of env c n _ "Suc n"] by (metis le_SucI order_refl)
  show ?thesis
  proof (cases e)
    case (LSubmit ch pick ctx t)
    with life_submit [OF assms [unfolded s], of ch pick ctx t] s show ?thesis by simp
  next
    case (LResume pick j)
    with up [OF life_resume [OF assms [unfolded s], of pick j]] s show ?thesis by simp
  next
    case (LWork draw w)
    with up [OF life_work [OF assms [unfolded s], of draw w]] s show ?thesis by simp
  next
    case (LScale now)
    with up [OF life_scale [OF assms [unfolded s], of now]] s show ?thesis by simp
  next
    case LSample
    with up [OF life_sample [OF assms [unfolded s]]] s show ?thesis by simp
  next
    case (LClean now)
    with up [OF life_clean [OF assms [unfolded s], of now]] s show ?thesis by simp
  next
    case LClose
    with up [OF life_close [OF assms [unfolded s]]] s show ?thesis by simp
  qed
qed

lemma life_run_ok:
  assumes "life_ok env c n s"
  shows "\<exists>s'. life_run env es s = Some s' \<and> life_ok env c (n + length es) s'"
  using assms
proof (induction es arbitrary: n s)
  case (Cons e es)
  from life_step_ok [OF Cons.prems] obtain s1 where "life_step env e s = Some s1" "life_ok env c (Suc n) s1" by blast
  with Cons.IH [of "Suc n" s1] show ?case by simp
qed auto

lemma pool_holds_pending: "pool_holds p M fl \<Longrightarrow> pendingTasks p = int (size M + fl)"
  by (auto simp: pool_holds_def pool_rep_def)

lemma finish_spec:
  assumes "pool_holds p M 0" "closed p" "stats_ok p" "0 < capacity p" "pendingTasks p < 2 ^ 62"
    and "runningWorkersNum p = 0 \<Longrightarrow> \<forall>meds. getMedianRates p = Some meds \<longrightarrow> exitPerTick (float_oor env) (config p) (view_of now meds p) \<le> 2 ^ 62"
  shows "\<exists>p' ts. finish env now draw w p = Some p' \<and> mset ts = M \<and> ran p' = ran p @ map (run_record env) ts
    \<and> pool_holds p' {#} 0 \<and> closed p'"
proof (cases "1 \<le> runningWorkersNum p")
  case True
  from worker_run_spec [OF assms(1) True, of env draw w] obtain p' ts where
    "worker_run env draw NilTask w p = Some p'" "worker_post env ts 0 p p'" "mset ts = M" by blast
  with True assms(2) show ?thesis by (auto simp: finish_def worker_post_def)
next
  case False
  have r: "runningWorkersNum p = 0" using False assms(1) by (auto simp: pool_holds_def pool_rep_def)
  have m: "pendingTasks p = int (size M)" using pool_holds_pending [OF assms(1)] by simp
  show ?thesis
  proof (cases "M = {#}")
    case True
    with False m assms(1,2) show ?thesis by (intro exI [of _ p] exI [of _ "[]"]) (simp add: finish_def)
  next
    case M: False
    have "pendingTasks p + max 0 (exitPerTick (float_oor env) (config p) (view_of now meds p)) < 2 ^ 63"
      if "getMedianRates p = Some meds" for meds
      using assms(5) assms(6) [OF r, rule_format, OF that] by simp
    from rescue_spec [OF assms(1,3) r M assms(4) this, of draw w] obtain p1 p2 ts where
      "scaleIfNeeded env now p = Some p1" "worker_run env draw NilTask w p1 = Some p2" "mset ts = M"
      "ran p2 = ran p @ map (run_record env) ts" "pool_holds p2 {#} 0" "closed p2 = closed p" by blast
    moreover have "pendingTasks p \<noteq> 0" using m M by simp
    ultimately show ?thesis using False assms(2) by (auto simp: finish_def)
  qed
qed

section \<open>A concrete history\<close>

text \<open>One submission to a pool of two shards.\<close>

definition life_pool :: "(unit, unit, unit) Pool" where
  "life_pool = newPoolState 10 (replicate 2 \<lparr>chan_buf = [], chan_cap = 5000\<rparr>) (defaultConfig\<lparr>taskQueueShards := 2\<rparr>)"

lemma life_pool_new: "NewPool 1000000 8 (Some (defaultConfig\<lparr>taskQueueShards := 2\<rparr> :: unit Config)) = Some life_pool"
  by (simp add: NewPool_def newTaskQueues_two life_pool_def) (simp add: defaultConfig_def defaultStatsWindowSize_def)

lemma life_config: "config_ok (defaultConfig\<lparr>taskQueueShards := 2\<rparr> :: unit Config)"
  by (simp add: config_ok_shards defaultConfig_ok)

lemma life_pool_submit:
  obtains p where "life_run sample_env [LSubmit None 0 () sample_task] (life_pool, [], []) = Some (p, [], [sample_task])" "1 \<le> runningWorkersNum p"
proof -
  have "pool_holds life_pool {#} 0"
    using NewPool_rep(1,4) [OF life_config _ life_pool_new] by (auto simp: pool_holds_def)
  moreover have "\<not> closed life_pool" "length (taskQueues life_pool) = 2 ^ 1"
    "length (chan_buf (taskQueues life_pool ! shard_at (2 ^ 1) (sendSeq life_pool) 0)) < chan_cap (taskQueues life_pool ! shard_at (2 ^ 1) (sendSeq life_pool) 0)"
    by (simp_all add: life_pool_def newPoolState_def shard_at_def)
  ultimately obtain p where p: "submit sample_env None 0 () sample_task life_pool = Some (Returned True, p)"
    using submit_with_room [of life_pool "{#}" 0 sample_task 1 sample_env None 0 "()"] sample_task_not_nil by metis
  with submit_spec [OF \<open>pool_holds life_pool {#} 0\<close> sample_task_not_nil, of sample_env None 0 "()"] \<open>\<not> closed life_pool\<close>
  have "1 \<le> runningWorkersNum p" by auto
  with p show ?thesis using sample_task_not_nil by (intro that [of p]) simp_all
qed

section \<open>Properties\<close>

text \<open>
  C4.  The whole life of a pool.  Made by \<open>NewPool\<close>, it goes through any history of submissions, worker runs, ticks of the
  scaler, the sampler and the cleaner, resumed submitters and calls of \<open>Close\<close>, without a panic.  Then \<open>Close\<close> wakes every
  submitter that is still blocked, and each returns, having sent its task or having been rejected; and a worker that is running, or
  one that the scaler starts if there is none and a task is left, serves the rest.  By then exactly the accepted tasks have
  been run, each once; \<open>Wait\<close> returns, and the sampler and the scaler stop.  When the scaler has to start the worker,
  its compensation for exiting workers is assumed to stay within \<open>2\<^sup>6\<^sup>2\<close>.
\<close>

theorem pool_lifecycle:
  assumes "config_ok c" "taskQueueShards c \<le> 2 ^ 62" "NewPool maxMake procs (Some c) = Some p0" "length es < 2 ^ 62"
  shows "\<exists>p blk acc rs sent p1. life_run env es (p0, [], []) = Some (p, blk, acc)
    \<and> wake_all env pk blk (Close env p) = Some (rs, sent, p1) \<and> (\<forall>r \<in> set rs. \<exists>b. r = Returned b)
    \<and> ((runningWorkersNum p1 = 0 \<longrightarrow> (\<forall>meds. getMedianRates p1 = Some meds \<longrightarrow>
           exitPerTick (float_oor env) c (view_of now meds p1) \<le> 2 ^ 62))
       \<longrightarrow> (\<exists>p2 ts. finish env now draw w p1 = Some p2 \<and> mset ts = mset acc + mset sent
             \<and> ran p2 = map (run_record env) ts \<and> Wait_returns p2 \<and> drained p2))"
proof -
  note np = NewPool_rep [OF assms(1-3)]
  have "pool_holds p0 {#} 0" using np(1,4) by (auto simp: pool_holds_def)
  moreover have "ran p0 = []" using assms(3) by (auto simp: NewPool_def newPoolState_def split: if_splits Option.bind_splits)
  ultimately have "life_ok env c 0 (p0, [], [])" using np by (intro life_okI [of _ "{#}" _ _ _ "[]"]) (simp_all add: pending_ok_def)
  from life_run_ok [OF this, of es] obtain p blk acc where
    l: "life_run env es (p0, [], []) = Some (p, blk, acc)" "life_ok env c (length es) (p, blk, acc)" by auto
  then obtain M ts where i: "pool_holds p M (length blk)" "stats_ok p" "pending_ok p blk" "config p = c" "capacity p = workerNumCapacity c"
    "ran p = map (run_record env) ts" "mset acc = mset ts + M" "length acc + length blk \<le> length es" by (auto simp: life_ok_def)
  have "pending_ok (Close env p) blk" using i(3) pending_ok_frame [of "Close env p" p] by simp
  from wake_all_spec [OF Close_holds [OF i(1)] Close_closed(1) this, of env pk] obtain rs sent p1 where
    w: "wake_all env pk blk (Close env p) = Some (rs, sent, p1)" "\<forall>r \<in> set rs. \<exists>b. r = Returned b"
      "pool_holds p1 (M + mset sent) 0" "closed p1" "config p1 = c" "capacity p1 = workerNumCapacity c" "hists p1 = hists p" "ran p1 = ran p"
      "length sent \<le> length blk" using i(4,5) by auto
  have s: "stats_ok p1" using i(2) w(7) stats_ok_hists by blast
  have cap: "0 < capacity p1" using assms(1) w(6) by (simp add: config_ok_def)
  have "pendingTasks p1 = int (size (M + mset sent))" using pool_holds_pending [OF w(3)] by simp
  moreover have "size M \<le> length acc" using arg_cong [OF i(7), of size] by simp
  ultimately have "pendingTasks p1 \<le> int (length es)" using i(8) w(9) by simp
  then have pend: "pendingTasks p1 < 2 ^ 62" using assms(4) by simp
  have "\<exists>p2 us. finish env now draw w p1 = Some p2 \<and> mset us = mset acc + mset sent
      \<and> ran p2 = map (run_record env) us \<and> Wait_returns p2 \<and> drained p2"
    if "runningWorkersNum p1 = 0 \<longrightarrow> (\<forall>meds. getMedianRates p1 = Some meds \<longrightarrow> exitPerTick (float_oor env) c (view_of now meds p1) \<le> 2 ^ 62)"
  proof -
    from finish_spec [OF w(3,4) s cap pend, of env now draw w] that w(5) obtain p2 us where
      f: "finish env now draw w p1 = Some p2" "mset us = M + mset sent" "ran p2 = ran p1 @ map (run_record env) us"
      "pool_holds p2 {#} 0" "closed p2" by auto
    from pool_holds_drained [OF f(4)] f(5) have "drained p2" by simp
    moreover have "Wait_returns p2" using f(4) by (auto simp: Wait_returns_def pool_holds_def pool_rep_def)
    ultimately show ?thesis using f(1-3) i(6,7) w(8) by (intro exI [of _ p2] exI [of _ "ts @ us"]) (simp add: ac_simps)
  qed
  with l(1) w(1,2) show ?thesis by blast
qed

theorem pool_lifecycle_witness:
  "\<exists>p p2. life_run sample_env [LSubmit None 0 () sample_task] (life_pool, [], []) = Some (p, [], [sample_task])
     \<and> finish sample_env 0 (None, 0) \<lparr>wid = 0, lastActiveAt = 0, cursor = 0\<rparr> (Close sample_env p) = Some p2
     \<and> ran p2 = [run_record sample_env sample_task] \<and> Wait_returns p2 \<and> drained p2"
proof -
  obtain p where p: "life_run sample_env [LSubmit None 0 () sample_task] (life_pool, [], []) = Some (p, [], [sample_task])" "1 \<le> runningWorkersNum p"
    by (rule life_pool_submit)
  from pool_lifecycle [OF life_config _ life_pool_new, of "[LSubmit None 0 () sample_task]" sample_env "\<lambda>_. 0" 0 "(None, 0)" "\<lparr>wid = 0, lastActiveAt = 0, cursor = 0\<rparr>"]
  obtain p2 ts where "finish sample_env 0 (None, 0) \<lparr>wid = 0, lastActiveAt = 0, cursor = 0\<rparr> (Close sample_env p) = Some p2"
    "mset ts = {#sample_task#}" "ran p2 = map (run_record sample_env) ts" "Wait_returns p2" "drained p2"
    unfolding p(1) using p(2) by auto
  with p(1) show ?thesis by auto
qed

end
