(* ===== verification/Default_Pool.thy ===== *)
theory Default_Pool
  imports Pool_Life
begin

text \<open>
  The package variable \<open>defaultPool\<close> (\<open>pool.go\<close>) while pools are made and closed by any number of goroutines: what
  \<open>GetDefaultPool\<close> returns at every moment.
\<close>

section \<open>Steps\<close>




section \<open>Invariant\<close>












section \<open>Properties\<close>



end
