(* ===== verification/Pool_Concurrent.thy ===== *)
theory Pool_Concurrent
  imports Shards Scaler Task_Buffer
begin

text \<open>
  The pool as its goroutines run it: any number of submitters, any number of workers, the scaler, the
  cleaner and one effective \<open>Close\<close>, interleaved between the atomic operations on the shared fields of
  \<open>Pool\<close> (\<open>pool.go\<close>, \<open>worker.go\<close>).  A goroutine is a program counter with its local variables; the
  goroutines of one kind form a multiset, so a step replaces one counter by the next.

  The overflow buffer is the list its operations refine (theory \<open>Task_Buffer\<close>); each of its methods is
  one step, since it holds \<open>taskMu\<close> throughout.  Which shard a submitter's cursor selects, when a context is
  done and which idle workers expire are left open: every choice is a step.  The rates, times and float conversions that
  the scaler sees are those that a predicate \<open>R\<close> on states allows: for safety every one, for liveness the ones of an
  arbitrary function of the state.  A task may itself submit or close: its calls are steps of a submitter or of
  \<open>Close\<close>, which may come at any time; a task that runs is assumed to end.
\<close>

section \<open>Goroutines\<close>

text \<open>
  \<open>submit\<close>, by the next operation: count the task in \<open>pendingTasks\<close>; in \<open>wg\<close>; check \<open>closed\<close>; load
  \<open>runningWorkersNum\<close>; compare-and-swap it; start the worker it has reserved; try to send; \<open>PushAndForward\<close>; wait in the last \<open>select\<close>;
  and the two halves of \<open>done\<close> on rejection.
\<close>

datatype 'a sub_pc =
  SNew 'a | SPend 'a | SCheck 'a | SLoad 'a | SCas 'a | SStart 'a | SSend 'a | SPush 'a | SWait 'a | SRej 'a | SRejWg 'a

text \<open>
  \<open>worker.run\<close>, with the worker's cursor \<open>k\<close>: \<open>WScan k i\<close> has looked at \<open>i\<close> shards from the cursor on; \<open>WBuf k\<close> is before
  \<open>PopBatch\<close>; \<open>WBatch k ts\<close> still has to run \<open>ts\<close>; \<open>WExec k t ts\<close> is inside \<open>runTask t\<close>, \<open>WDone k t ts\<close> between the two
  halves of its \<open>done\<close>; \<open>WPark\<close> is before the decrement of \<open>runningWorkersNum\<close> and \<open>WIdle\<close> before \<open>addToIdle\<close>.
\<close>

datatype 'a wk_pc = WScan nat nat | WBuf nat | WBatch nat "'a list" | WExec nat 'a "'a list" | WDone nat 'a "'a list" | WPark | WIdle

text \<open>
  \<open>scaler\<close>: before a tick; having read \<open>running\<close>; with \<open>toSpawn\<close> computed; with \<open>currentRunning\<close> read under
  \<open>p.lock\<close>; with workers left to start; before the load of \<open>closed\<close>; having seen it set; stopped.
\<close>

datatype scaler_pc = CTick | CRead int | CPlan int | CLocked int int | CSpawn nat | CClosed | CDrain | CExit

datatype close_pc = KOpen | KBuf | KChan | KDone

record 'a csys =
  c_closed :: bool
  c_bufClosed :: bool
  c_closeCn :: bool
  c_pending :: int
  c_wg :: int
  c_running :: int
  c_capacity :: int
  c_nonblock :: bool
  c_chans :: "'a chan list"
  c_buf :: "'a list"
  c_idle :: "nat multiset"
  c_fresh :: nat
  c_workerSeq :: nat
  c_subs :: "'a sub_pc multiset"
  c_workers :: "(nat \<times> 'a wk_pc) multiset"
  c_scaler :: scaler_pc
  c_closer :: close_pc
  c_accepted :: "'a multiset"
  c_rejected :: "'a multiset"
  c_completed :: "'a multiset"

definition room :: "'a chan \<Rightarrow> bool" where
  "room q \<longleftrightarrow> length (chan_buf q) < chan_cap q"

definition c_send :: "nat \<Rightarrow> 'a \<Rightarrow> 'a csys \<Rightarrow> 'a csys" where
  "c_send i t c = c\<lparr>c_chans := (c_chans c)[i := (c_chans c ! i)\<lparr>chan_buf := chan_buf (c_chans c ! i) @ [t]\<rparr>]\<rparr>"

definition c_recv :: "nat \<Rightarrow> 'a csys \<Rightarrow> 'a csys" where
  "c_recv i c = c\<lparr>c_chans := (c_chans c)[i := (c_chans c ! i)\<lparr>chan_buf := tl (chan_buf (c_chans c ! i))\<rparr>]\<rparr>"

definition c_batch :: nat where "c_batch = 8"

text \<open>
  \<open>startWorker\<close>: the worker scans from the next value of \<open>workerSeq\<close>, taken modulo the number of shards (a power of
  two, so that the mask and the wrap-around of the counter agree with it).
\<close>

definition c_start :: "nat \<Rightarrow> 'a csys \<Rightarrow> 'a csys" where
  "c_start w c = c\<lparr>c_workerSeq := Suc (c_workerSeq c),
     c_workers := add_mset (w, WScan (Suc (c_workerSeq c) mod length (c_chans c)) 0) (c_workers c)\<rparr>"

text \<open>\<open>workerPool.Get\<close> makes a new worker, which is then started.\<close>

definition c_start_new :: "'a csys \<Rightarrow> 'a csys" where
  "c_start_new c = (c_start (c_fresh c) c)\<lparr>c_fresh := Suc (c_fresh c)\<rparr>"

definition scan_idx :: "'a csys \<Rightarrow> nat \<Rightarrow> nat \<Rightarrow> nat" where
  "scan_idx c k i = (k + i) mod length (c_chans c)"

section \<open>Steps\<close>

inductive sub_step :: "'a csys \<Rightarrow> 'a csys \<Rightarrow> bool" where
  call: "sub_step c (c\<lparr>c_subs := add_mset (SNew t) (c_subs c)\<rparr>)"
| count: "c_subs c = add_mset (SNew t) S \<Longrightarrow>
    sub_step c (c\<lparr>c_subs := add_mset (SPend t) S, c_pending := c_pending c + 1\<rparr>)"
| wg_add: "c_subs c = add_mset (SPend t) S \<Longrightarrow>
    sub_step c (c\<lparr>c_subs := add_mset (SCheck t) S, c_wg := c_wg c + 1\<rparr>)"
| check_closed: "c_subs c = add_mset (SCheck t) S \<Longrightarrow> c_closed c \<Longrightarrow>
    sub_step c (c\<lparr>c_subs := add_mset (SRej t) S\<rparr>)"
| check_open: "c_subs c = add_mset (SCheck t) S \<Longrightarrow> \<not> c_closed c \<Longrightarrow>
    sub_step c (c\<lparr>c_subs := add_mset (SLoad t) S\<rparr>)"
| load_busy: "c_subs c = add_mset (SLoad t) S \<Longrightarrow> c_running c \<noteq> 0 \<Longrightarrow>
    sub_step c (c\<lparr>c_subs := add_mset (SSend t) S\<rparr>)"
| load_cold: "c_subs c = add_mset (SLoad t) S \<Longrightarrow> c_running c = 0 \<Longrightarrow>
    sub_step c (c\<lparr>c_subs := add_mset (SCas t) S\<rparr>)"
| cas_won: "c_subs c = add_mset (SCas t) S \<Longrightarrow> c_running c = 0 \<Longrightarrow>
    sub_step c (c\<lparr>c_subs := add_mset (SStart t) S, c_running := 1\<rparr>)"
| start: "c_subs c = add_mset (SStart t) S \<Longrightarrow>
    sub_step c ((c_start_new c)\<lparr>c_subs := add_mset (SSend t) S\<rparr>)"
| cas_lost: "c_subs c = add_mset (SCas t) S \<Longrightarrow> c_running c \<noteq> 0 \<Longrightarrow>
    sub_step c (c\<lparr>c_subs := add_mset (SSend t) S\<rparr>)"
| send: "c_subs c = add_mset (SSend t) S \<Longrightarrow> i < length (c_chans c) \<Longrightarrow> room (c_chans c ! i) \<Longrightarrow>
    sub_step c ((c_send i t c)\<lparr>c_subs := S, c_accepted := add_mset t (c_accepted c)\<rparr>)"
| full_nonblock: "c_subs c = add_mset (SSend t) S \<Longrightarrow> i < length (c_chans c) \<Longrightarrow> \<not> room (c_chans c ! i) \<Longrightarrow> c_nonblock c \<Longrightarrow>
    sub_step c (c\<lparr>c_subs := add_mset (SRej t) S\<rparr>)"
| full_block: "c_subs c = add_mset (SSend t) S \<Longrightarrow> i < length (c_chans c) \<Longrightarrow> \<not> room (c_chans c ! i) \<Longrightarrow> \<not> c_nonblock c \<Longrightarrow>
    sub_step c (c\<lparr>c_subs := add_mset (SPush t) S\<rparr>)"
| push_closed: "c_subs c = add_mset (SPush t) S \<Longrightarrow> c_bufClosed c \<Longrightarrow>
    sub_step c (c\<lparr>c_subs := add_mset (SRej t) S\<rparr>)"
| push_full: "c_subs c = add_mset (SPush t) S \<Longrightarrow> \<not> c_bufClosed c \<Longrightarrow> int (length (c_buf c)) \<ge> maxChunkLen \<Longrightarrow>
    sub_step c (c\<lparr>c_subs := add_mset (SWait t) S\<rparr>)"
| push_keep: "c_subs c = add_mset (SPush t) S \<Longrightarrow> \<not> c_bufClosed c \<Longrightarrow> int (length (c_buf c)) < maxChunkLen \<Longrightarrow>
    i < length (c_chans c) \<Longrightarrow> \<not> room (c_chans c ! i) \<Longrightarrow>
    sub_step c (c\<lparr>c_subs := S, c_buf := c_buf c @ [t], c_accepted := add_mset t (c_accepted c)\<rparr>)"
| push_forward: "c_subs c = add_mset (SPush t) S \<Longrightarrow> \<not> c_bufClosed c \<Longrightarrow> int (length (c_buf c)) < maxChunkLen \<Longrightarrow>
    i < length (c_chans c) \<Longrightarrow> room (c_chans c ! i) \<Longrightarrow>
    sub_step c ((c_send i (hd (c_buf c @ [t])) c)\<lparr>c_subs := S, c_buf := tl (c_buf c @ [t]),
      c_accepted := add_mset t (c_accepted c)\<rparr>)"
| wait_send: "c_subs c = add_mset (SWait t) S \<Longrightarrow> i < length (c_chans c) \<Longrightarrow> room (c_chans c ! i) \<Longrightarrow>
    sub_step c ((c_send i t c)\<lparr>c_subs := S, c_accepted := add_mset t (c_accepted c)\<rparr>)"
| wait_cancelled: "c_subs c = add_mset (SWait t) S \<Longrightarrow> sub_step c (c\<lparr>c_subs := add_mset (SRej t) S\<rparr>)"
| wait_closed: "c_subs c = add_mset (SWait t) S \<Longrightarrow> c_closeCn c \<Longrightarrow> sub_step c (c\<lparr>c_subs := add_mset (SRej t) S\<rparr>)"
| rej_count: "c_subs c = add_mset (SRej t) S \<Longrightarrow>
    sub_step c (c\<lparr>c_subs := add_mset (SRejWg t) S, c_pending := c_pending c - 1\<rparr>)"
| rej_wg: "c_subs c = add_mset (SRejWg t) S \<Longrightarrow>
    sub_step c (c\<lparr>c_subs := S, c_wg := c_wg c - 1, c_rejected := add_mset t (c_rejected c)\<rparr>)"

inductive wk_step :: "'a csys \<Rightarrow> 'a csys \<Rightarrow> bool" where
  scan_hit: "c_workers c = add_mset (w, WScan k i) W \<Longrightarrow> i < length (c_chans c) \<Longrightarrow> chan_buf (c_chans c ! scan_idx c k i) = t # ts \<Longrightarrow>
    wk_step c ((c_recv (scan_idx c k i) c)\<lparr>c_workers := add_mset (w, WExec (scan_idx c k i) t []) W\<rparr>)"
| scan_miss: "c_workers c = add_mset (w, WScan k i) W \<Longrightarrow> i < length (c_chans c) \<Longrightarrow> chan_buf (c_chans c ! scan_idx c k i) = [] \<Longrightarrow>
    wk_step c (c\<lparr>c_workers := add_mset (w, WScan k (Suc i)) W\<rparr>)"
| scan_end: "c_workers c = add_mset (w, WScan k i) W \<Longrightarrow> length (c_chans c) \<le> i \<Longrightarrow> wk_step c (c\<lparr>c_workers := add_mset (w, WBuf k) W\<rparr>)"
| pop_some: "c_workers c = add_mset (w, WBuf k) W \<Longrightarrow> c_buf c \<noteq> [] \<Longrightarrow>
    wk_step c (c\<lparr>c_workers := add_mset (w, WBatch k (take c_batch (c_buf c))) W, c_buf := drop c_batch (c_buf c)\<rparr>)"
| pop_none: "c_workers c = add_mset (w, WBuf k) W \<Longrightarrow> c_buf c = [] \<Longrightarrow> wk_step c (c\<lparr>c_workers := add_mset (w, WPark) W\<rparr>)"
| batch_next: "c_workers c = add_mset (w, WBatch k (t # ts)) W \<Longrightarrow> wk_step c (c\<lparr>c_workers := add_mset (w, WExec k t ts) W\<rparr>)"
| batch_end: "c_workers c = add_mset (w, WBatch k []) W \<Longrightarrow> wk_step c (c\<lparr>c_workers := add_mset (w, WScan k 0) W\<rparr>)"
| done_count: "c_workers c = add_mset (w, WExec k t ts) W \<Longrightarrow>
    wk_step c (c\<lparr>c_workers := add_mset (w, WDone k t ts) W, c_pending := c_pending c - 1\<rparr>)"
| done_wg: "c_workers c = add_mset (w, WDone k t ts) W \<Longrightarrow>
    wk_step c (c\<lparr>c_workers := add_mset (w, WBatch k ts) W, c_wg := c_wg c - 1, c_completed := add_mset t (c_completed c)\<rparr>)"
| park_count: "c_workers c = add_mset (w, WPark) W \<Longrightarrow>
    wk_step c (c\<lparr>c_workers := add_mset (w, WIdle) W, c_running := c_running c - 1\<rparr>)"
| park_idle: "c_workers c = add_mset (w, WIdle) W \<Longrightarrow>
    wk_step c (c\<lparr>c_workers := W, c_idle := add_mset w (c_idle c)\<rparr>)"

text \<open>
  What the scaler reads besides \<open>runningWorkersNum\<close> and \<open>pendingTasks\<close>: the float conversion, the medians, buffer depth,
  queue length and time, and the time of the last fallback growth.
\<close>

type_synonym reading = "(float64 \<Rightarrow> int) \<times> scale_view \<times> go_time"

definition c_plan :: "'h Config \<Rightarrow> 'a csys \<Rightarrow> int \<Rightarrow> reading \<Rightarrow> int" where
  "c_plan cfg c r rd =
     (case rd of (oor, v, z) \<Rightarrow>
        let v = v\<lparr>sv_running := r, sv_totalBacklog := c_pending c\<rparr>
        in plannedSpawn oor cfg (c_capacity c) v (fst (scaleTarget oor cfg (c_capacity c) v z)))"

inductive scaler_step :: "'h Config \<Rightarrow> ('a csys \<Rightarrow> reading \<Rightarrow> bool) \<Rightarrow> 'a csys \<Rightarrow> 'a csys \<Rightarrow> bool" for cfg R where
  tick: "c_scaler c = CTick \<Longrightarrow> scaler_step cfg R c (c\<lparr>c_scaler := CRead (c_running c)\<rparr>)"
| plan: "c_scaler c = CRead r \<Longrightarrow> R c rd \<Longrightarrow> scaler_step cfg R c (c\<lparr>c_scaler := CPlan (c_plan cfg c r rd)\<rparr>)"
| enough: "c_scaler c = CPlan n \<Longrightarrow> n \<le> 0 \<Longrightarrow> scaler_step cfg R c (c\<lparr>c_scaler := CClosed\<rparr>)"
| recheck: "c_scaler c = CPlan n \<Longrightarrow> 0 < n \<Longrightarrow> scaler_step cfg R c (c\<lparr>c_scaler := CLocked n (c_running c)\<rparr>)"
| reserve: "c_scaler c = CLocked n cur \<Longrightarrow>
    scaler_step cfg R c (c\<lparr>c_scaler := CSpawn (nat (actualSpawn (c_capacity c) n cur)),
      c_running := c_running c + actualSpawn (c_capacity c) n cur\<rparr>)"
| spawn_idle: "c_scaler c = CSpawn (Suc k) \<Longrightarrow> c_idle c = add_mset w I \<Longrightarrow>
    scaler_step cfg R c ((c_start w c)\<lparr>c_scaler := CSpawn k, c_idle := I\<rparr>)"
| spawn_new: "c_scaler c = CSpawn (Suc k) \<Longrightarrow> c_idle c = {#} \<Longrightarrow>
    scaler_step cfg R c ((c_start_new c)\<lparr>c_scaler := CSpawn k\<rparr>)"
| spawn_end: "c_scaler c = CSpawn 0 \<Longrightarrow> scaler_step cfg R c (c\<lparr>c_scaler := CClosed\<rparr>)"
| still_open: "c_scaler c = CClosed \<Longrightarrow> \<not> c_closed c \<Longrightarrow> scaler_step cfg R c (c\<lparr>c_scaler := CTick\<rparr>)"
| is_closed: "c_scaler c = CClosed \<Longrightarrow> c_closed c \<Longrightarrow> scaler_step cfg R c (c\<lparr>c_scaler := CDrain\<rparr>)"
| not_drained: "c_scaler c = CDrain \<Longrightarrow> c_pending c \<noteq> 0 \<Longrightarrow> scaler_step cfg R c (c\<lparr>c_scaler := CTick\<rparr>)"
| is_drained: "c_scaler c = CDrain \<Longrightarrow> c_pending c = 0 \<Longrightarrow> scaler_step cfg R c (c\<lparr>c_scaler := CExit\<rparr>)"

inductive close_step :: "'a csys \<Rightarrow> 'a csys \<Rightarrow> bool" where
  close: "c_closer c = KOpen \<Longrightarrow> close_step c (c\<lparr>c_closer := KBuf, c_closed := True\<rparr>)"
| close_buf: "c_closer c = KBuf \<Longrightarrow> close_step c (c\<lparr>c_closer := KChan, c_bufClosed := True\<rparr>)"
| close_chan: "c_closer c = KChan \<Longrightarrow> close_step c (c\<lparr>c_closer := KDone, c_closeCn := True\<rparr>)"

inductive clean_step :: "'a csys \<Rightarrow> 'a csys \<Rightarrow> bool" where
  clean: "c_idle c = I + J \<Longrightarrow> clean_step c (c\<lparr>c_idle := I\<rparr>)"

inductive c_step :: "'h Config \<Rightarrow> 'a csys \<Rightarrow> 'a csys \<Rightarrow> bool" for cfg where
  by_sub: "sub_step c c' \<Longrightarrow> c_step cfg c c'"
| by_wk: "wk_step c c' \<Longrightarrow> c_step cfg c c'"
| by_scaler: "scaler_step cfg (\<lambda>_ _. True) c c' \<Longrightarrow> c_step cfg c c'"
| by_close: "close_step c c' \<Longrightarrow> c_step cfg c c'"
| by_clean: "clean_step c c' \<Longrightarrow> c_step cfg c c'"

definition c_init :: "'h Config \<Rightarrow> 'a chan list \<Rightarrow> 'a csys" where
  "c_init cfg qs = \<lparr>c_closed = False, c_bufClosed = False, c_closeCn = False, c_pending = 0, c_wg = 0, c_running = 0,
     c_capacity = workerNumCapacity cfg, c_nonblock = (workMode cfg = NONBLOCK), c_chans = qs, c_buf = [],
     c_idle = {#}, c_fresh = 0, c_workerSeq = 0, c_subs = {#}, c_workers = {#}, c_scaler = CTick, c_closer = KOpen,
     c_accepted = {#}, c_rejected = {#}, c_completed = {#}\<rparr>"

text \<open>Reachable from a pool whose channels are empty.\<close>

definition c_reachable :: "'h Config \<Rightarrow> 'a csys \<Rightarrow> bool" where
  "c_reachable cfg c \<longleftrightarrow> (\<exists>qs. queued qs = [] \<and> (c_step cfg)\<^sup>*\<^sup>* (c_init cfg qs) c)"

lemma c_reachable_induct [consumes 1, case_names init step]:
  assumes "c_reachable cfg c" "\<And>qs. queued qs = [] \<Longrightarrow> P (c_init cfg qs)"
    "\<And>c c'. P c \<Longrightarrow> c_step cfg c c' \<Longrightarrow> P c'"
  shows "P c"
proof -
  from assms(1) obtain qs where q: "queued qs = []" and "(c_step cfg)\<^sup>*\<^sup>* (c_init cfg qs) c" by (auto simp: c_reachable_def)
  from this(2) show ?thesis
    by (induction rule: rtranclp_induct) (simp_all add: assms(2) [OF q] assms(3))
qed

section \<open>What the counters count\<close>

text \<open>The part of a goroutine in \<open>pendingTasks\<close> and in \<open>wg\<close>, the tasks a worker holds, and whether it is counted as running.\<close>

fun sub_pend :: "'a sub_pc \<Rightarrow> int" where
  "sub_pend (SNew t) = 0"
| "sub_pend (SRejWg t) = 0"
| "sub_pend _ = 1"

fun sub_wg :: "'a sub_pc \<Rightarrow> int" where
  "sub_wg (SNew t) = 0"
| "sub_wg (SPend t) = 0"
| "sub_wg _ = 1"

fun wk_pend :: "'a wk_pc \<Rightarrow> int" where
  "wk_pend (WBatch k ts) = int (length ts)"
| "wk_pend (WExec k t ts) = 1 + int (length ts)"
| "wk_pend (WDone k t ts) = int (length ts)"
| "wk_pend _ = 0"

fun wk_held :: "'a wk_pc \<Rightarrow> 'a multiset" where
  "wk_held (WBatch k ts) = mset ts"
| "wk_held (WExec k t ts) = add_mset t (mset ts)"
| "wk_held (WDone k t ts) = add_mset t (mset ts)"
| "wk_held _ = {#}"

fun wk_run :: "'a wk_pc \<Rightarrow> int" where
  "wk_run WIdle = 0"
| "wk_run _ = 1"

text \<open>A submitter between its compare-and-swap and the start of the worker holds one count of the running workers.\<close>

fun sub_run :: "'a sub_pc \<Rightarrow> int" where
  "sub_run (SStart t) = 1"
| "sub_run _ = 0"

fun spawning :: "scaler_pc \<Rightarrow> int" where
  "spawning (CSpawn k) = int k"
| "spawning _ = 0"

abbreviation tally :: "('b \<Rightarrow> 'c :: comm_monoid_add) \<Rightarrow> 'b multiset \<Rightarrow> 'c" where
  "tally f M \<equiv> sum_mset (image_mset f M)"

definition held :: "'a csys \<Rightarrow> 'a multiset" where
  "held c = tally (wk_held \<circ> snd) (c_workers c)"

definition waiting :: "'a csys \<Rightarrow> 'a multiset" where
  "waiting c = mset (queued (c_chans c)) + mset (c_buf c)"

definition counters_ok :: "'a csys \<Rightarrow> bool" where
  "counters_ok c \<longleftrightarrow>
     c_pending c = tally sub_pend (c_subs c) + int (size (waiting c)) + tally (wk_pend \<circ> snd) (c_workers c)
     \<and> c_wg c = tally sub_wg (c_subs c) + int (size (waiting c)) + int (size (held c))
     \<and> c_accepted c = waiting c + held c + c_completed c
     \<and> c_running c = tally (wk_run \<circ> snd) (c_workers c) + tally sub_run (c_subs c) + spawning (c_scaler c)"

lemma mset_queued_send:
  "i < length qs \<Longrightarrow> mset (queued (qs[i := (qs ! i)\<lparr>chan_buf := chan_buf (qs ! i) @ [t]\<rparr>])) = add_mset t (mset (queued qs))"
  using mset_queued_upd [of i qs "(qs ! i)\<lparr>chan_buf := chan_buf (qs ! i) @ [t]\<rparr>"] by simp

lemma mset_queued_recv:
  "i < length qs \<Longrightarrow> chan_buf (qs ! i) = t # ts \<Longrightarrow>
     add_mset t (mset (queued (qs[i := (qs ! i)\<lparr>chan_buf := ts\<rparr>]))) = mset (queued qs)"
  using mset_queued_upd [of i qs "(qs ! i)\<lparr>chan_buf := ts\<rparr>"] by simp

lemmas conc_defs = counters_ok_def waiting_def held_def c_send_def c_recv_def c_start_def c_start_new_def

lemma sub_step_counters: "sub_step c c' \<Longrightarrow> counters_ok c \<Longrightarrow> counters_ok c'"
proof (induction rule: sub_step.induct)
  case (push_forward c t S i)
  then show ?case
    by (cases "c_buf c") (simp_all add: conc_defs mset_queued_send flip: size_mset)
qed (simp_all add: conc_defs mset_queued_send flip: size_mset)

lemma scan_idx_less: "i < length (c_chans c) \<Longrightarrow> scan_idx c k i < length (c_chans c)"
  by (cases "c_chans c") (auto simp: scan_idx_def)

lemma wk_step_counters: "wk_step c c' \<Longrightarrow> counters_ok c \<Longrightarrow> counters_ok c'"
proof (induction rule: wk_step.induct)
  case (scan_hit c w k i W t ts)
  let ?i = "scan_idx c k i"
  let ?qs = "(c_chans c)[?i := (c_chans c ! ?i)\<lparr>chan_buf := ts\<rparr>]"
  have q: "mset (queued (c_chans c)) = add_mset t (mset (queued ?qs))"
    using scan_hit(2,3) by (simp add: mset_queued_recv scan_idx_less)
  then have "length (queued (c_chans c)) = Suc (length (queued ?qs))"
    by (metis size_mset size_add_mset)
  with scan_hit q show ?case by (simp add: conc_defs)
next
  case (pop_some c w k W)
  obtain xs ys where "take c_batch (c_buf c) = xs" "drop c_batch (c_buf c) = ys" "c_buf c = xs @ ys"
    by (metis append_take_drop_id)
  with pop_some show ?case by (simp add: conc_defs)
qed (simp_all add: conc_defs)

lemma scaler_step_counters: "scaler_step cfg R c c' \<Longrightarrow> counters_ok c \<Longrightarrow> counters_ok c'"
  by (induction rule: scaler_step.induct) (simp_all add: conc_defs actualSpawn_bounds)

lemma close_step_counters: "close_step c c' \<Longrightarrow> counters_ok c \<Longrightarrow> counters_ok c'"
  by (induction rule: close_step.induct) (simp_all add: conc_defs)

lemma clean_step_counters: "clean_step c c' \<Longrightarrow> counters_ok c \<Longrightarrow> counters_ok c'"
  by (induction rule: clean_step.induct) (simp_all add: conc_defs)

lemma c_step_counters: "c_step cfg c c' \<Longrightarrow> counters_ok c \<Longrightarrow> counters_ok c'"
  by (induction rule: c_step.induct)
    (blast dest: sub_step_counters wk_step_counters scaler_step_counters close_step_counters clean_step_counters)+

lemma reachable_counters: "c_reachable cfg c \<Longrightarrow> counters_ok c"
  by (induction rule: c_reachable_induct) (auto simp: conc_defs c_init_def dest: c_step_counters)

lemma tally_nonneg: "(\<And>x. 0 \<le> f x) \<Longrightarrow> 0 \<le> tally f M" for f :: "'b \<Rightarrow> int"
  by (induction M) auto

lemma sub_nonneg [simp]: "0 \<le> sub_pend s" "0 \<le> sub_wg s" "0 \<le> sub_run s"
  by (cases s; simp)+

lemma wk_nonneg [simp]: "0 \<le> wk_pend w" "0 \<le> wk_run w"
  by (cases w; simp)+

lemma spawning_nonneg [simp]: "0 \<le> spawning p"
  by (cases p; simp)

lemma counters_nonneg:
  assumes "counters_ok c"
  shows "0 \<le> c_pending c" "0 \<le> c_wg c" "0 \<le> c_running c"
  using assms tally_nonneg [of sub_pend "c_subs c"] tally_nonneg [of sub_wg "c_subs c"]
    tally_nonneg [of "wk_pend \<circ> snd" "c_workers c"] tally_nonneg [of "wk_run \<circ> snd" "c_workers c"]
    tally_nonneg [of sub_run "c_subs c"] spawning_nonneg [of "c_scaler c"]
  by (simp_all add: counters_ok_def)

text \<open>When \<open>wg\<close> is zero, nothing accepted is left in the pool.\<close>

lemma wg_zero:
  assumes "counters_ok c" "c_wg c = 0"
  shows "waiting c = {#}" "held c = {#}"
proof -
  have "int (size (waiting c)) + int (size (held c)) = 0"
    using assms tally_nonneg [of sub_wg "c_subs c"] by (simp add: counters_ok_def)
  then have "size (waiting c) = 0" "size (held c) = 0" by linarith+
  then show "waiting c = {#}" "held c = {#}" by simp_all
qed

section \<open>Worker objects\<close>

definition worker_ids :: "'a csys \<Rightarrow> nat multiset" where
  "worker_ids c = image_mset fst (c_workers c) + c_idle c"

definition ids_ok :: "'a csys \<Rightarrow> bool" where
  "ids_ok c \<longleftrightarrow> worker_ids c \<subseteq># mset_set {..<c_fresh c}"

lemma mset_set_Suc: "mset_set {..<Suc n} = add_mset n (mset_set {..<n})"
  by (simp add: lessThan_Suc)

lemma submset_drop: "A + (I + J) \<subseteq># M \<Longrightarrow> A + I \<subseteq># M" for A :: "'b multiset"
  by (metis add.assoc mset_subset_eq_add_left subset_mset.order_trans)

lemmas ids_defs = ids_ok_def worker_ids_def c_send_def c_recv_def c_start_def c_start_new_def

lemma c_step_ids: "c_step cfg c c' \<Longrightarrow> ids_ok c \<Longrightarrow> ids_ok c'"
proof (induction rule: c_step.induct)
  case (by_sub c c')
  then show ?case by (induction rule: sub_step.induct) (simp_all add: ids_defs mset_set_Suc)
next
  case (by_wk c c')
  then show ?case by (induction rule: wk_step.induct) (simp_all add: ids_defs)
next
  case (by_scaler c c')
  then show ?case by (induction rule: scaler_step.induct) (simp_all add: ids_defs mset_set_Suc)
next
  case (by_close c c')
  then show ?case by (induction rule: close_step.induct) (simp_all add: ids_defs)
next
  case (by_clean c c')
  then show ?case by (induction rule: clean_step.induct) (auto simp: ids_defs intro: submset_drop)
qed

lemma reachable_ids: "c_reachable cfg c \<Longrightarrow> ids_ok c"
  by (induction rule: c_reachable_induct) (auto simp: ids_ok_def worker_ids_def c_init_def dest: c_step_ids)

section \<open>The worker count and the capacity\<close>

text \<open>
  \<open>currentRunning\<close> is read while \<open>p.lock\<close> is held, but the cold start of \<open>submit\<close> does not take that lock:
  between the read and the addition the count can rise from 0 to 1, and by no more.
\<close>

fun reserve_ok :: "int \<Rightarrow> int \<Rightarrow> scaler_pc \<Rightarrow> bool" where
  "reserve_ok cap r (CLocked n cur) \<longleftrightarrow> r \<le> max cur 1 \<and> 0 \<le> cur \<and> cur \<le> cap + 1"
| "reserve_ok cap r _ \<longleftrightarrow> r \<le> cap + 1"

definition capacity_ok :: "'a csys \<Rightarrow> bool" where
  "capacity_ok c \<longleftrightarrow> 1 \<le> c_capacity c \<and> reserve_ok (c_capacity c) (c_running c) (c_scaler c)"

lemma reserve_ok_bound: "1 \<le> cap \<Longrightarrow> reserve_ok cap r p \<Longrightarrow> r \<le> cap + 1"
  by (cases p) auto

lemma reserve_ok_mono: "reserve_ok cap r p \<Longrightarrow> s \<le> r \<or> s = 1 \<Longrightarrow> 1 \<le> cap \<Longrightarrow> reserve_ok cap s p"
  by (cases p) auto

lemma actualSpawn_slack:
  assumes "r \<le> max cur 1" "0 \<le> cur" "cur \<le> cap + 1" "1 \<le> cap"
  shows "r + actualSpawn cap n cur \<le> cap + 1"
  using assms actualSpawn_bounds [of cap n cur] by (cases "0 < actualSpawn cap n cur") auto

lemmas capacity_defs = capacity_ok_def c_send_def c_recv_def c_start_def c_start_new_def

lemma c_step_capacity: "c_step cfg c c' \<Longrightarrow> 0 \<le> c_running c \<Longrightarrow> capacity_ok c \<Longrightarrow> capacity_ok c'"
proof (induction rule: c_step.induct)
  case (by_sub c c')
  then show ?case by (induction rule: sub_step.induct) (auto simp: capacity_defs intro: reserve_ok_mono)
next
  case (by_wk c c')
  then show ?case by (induction rule: wk_step.induct) (auto simp: capacity_defs intro: reserve_ok_mono)
next
  case (by_scaler c c')
  then show ?case by (induction rule: scaler_step.induct) (simp_all add: capacity_defs actualSpawn_slack)
next
  case (by_close c c')
  then show ?case by (induction rule: close_step.induct) (simp_all add: capacity_defs)
next
  case (by_clean c c')
  then show ?case by (induction rule: clean_step.induct) (simp_all add: capacity_defs)
qed

lemma reachable_capacity:
  assumes "c_reachable cfg c" "1 \<le> workerNumCapacity cfg"
  shows "capacity_ok c"
proof -
  from assms(1) have "counters_ok c \<and> capacity_ok c"
  proof (induction rule: c_reachable_induct)
    case (init qs)
    with assms(2) show ?case by (simp add: conc_defs capacity_ok_def c_init_def)
  next
    case (step c c')
    then show ?case using c_step_counters c_step_capacity counters_nonneg(3) by blast
  qed
  then show ?thesis ..
qed

section \<open>When the scaler stops\<close>

text \<open>
  Once \<open>closed\<close> is set nobody passes the check of \<open>submit\<close>; so when the scaler sees the pool closed and
  \<open>pendingTasks\<close> zero, no task is left and none can come.
\<close>

fun not_admitted :: "'a sub_pc \<Rightarrow> bool" where
  "not_admitted (SNew t) \<longleftrightarrow> True"
| "not_admitted (SPend t) \<longleftrightarrow> True"
| "not_admitted (SCheck t) \<longleftrightarrow> True"
| "not_admitted (SRej t) \<longleftrightarrow> True"
| "not_admitted (SRejWg t) \<longleftrightarrow> True"
| "not_admitted _ \<longleftrightarrow> False"

definition all_served :: "'a csys \<Rightarrow> bool" where
  "all_served c \<longleftrightarrow> waiting c = {#} \<and> (\<forall>s \<in># c_subs c. not_admitted s) \<and> (\<forall>w \<in># c_workers c. wk_pend (snd w) = 0)"

definition stop_ok :: "'a csys \<Rightarrow> bool" where
  "stop_ok c \<longleftrightarrow> (c_scaler c = CDrain \<longrightarrow> c_closed c) \<and> (c_scaler c = CExit \<longrightarrow> c_closed c \<and> all_served c)"

lemma tally_zero: "(\<And>x. 0 \<le> f x) \<Longrightarrow> tally f M = 0 \<Longrightarrow> x \<in># M \<Longrightarrow> f x = 0" for f :: "'b \<Rightarrow> int"
proof (induction M)
  case (add y M)
  have "0 \<le> tally f M" "0 \<le> f y" using add.prems(1) by (simp_all add: tally_nonneg)
  then have "f y = 0" "tally f M = 0" using add.prems(2) by simp_all
  with add show ?case by auto
qed simp

lemma pending_zero:
  assumes "counters_ok c" "c_pending c = 0"
  shows "all_served c"
proof -
  let ?s = "tally sub_pend (c_subs c)" and ?w = "tally (wk_pend \<circ> snd) (c_workers c)"
  have "?s + int (size (waiting c)) + ?w = 0" "0 \<le> ?s" "0 \<le> ?w"
    using assms by (auto simp: counters_ok_def intro: tally_nonneg)
  then have z: "?s = 0" "size (waiting c) = 0" "?w = 0" by linarith+
  have "not_admitted s" if "s \<in># c_subs c" for s
    using tally_zero [OF _ z(1) that] by (cases s) auto
  moreover have "wk_pend (snd w) = 0" if "w \<in># c_workers c" for w
    using tally_zero [OF _ z(3) that] by simp
  ultimately show ?thesis using z(2) by (auto simp: all_served_def)
qed

lemma sub_step_served: "sub_step c c' \<Longrightarrow> c_closed c \<Longrightarrow> all_served c \<Longrightarrow> all_served c' \<and> c_closed c'"
  by (induction rule: sub_step.induct) (auto simp: all_served_def waiting_def)

lemma wk_step_served: "wk_step c c' \<Longrightarrow> all_served c \<Longrightarrow> all_served c'"
proof (induction rule: wk_step.induct)
  case (scan_hit c w k i W t ts)
  with scan_idx_less [OF scan_hit(2), of k] show ?case by (auto simp: all_served_def waiting_def queued_Nil_iff)
qed (auto simp: all_served_def waiting_def)

lemma scaler_step_served: "scaler_step cfg R c c' \<Longrightarrow> all_served c \<Longrightarrow> all_served c' \<and> c_closed c' = c_closed c"
  by (induction rule: scaler_step.induct) (auto simp: all_served_def waiting_def c_start_def c_start_new_def)

lemma all_served_scaler [simp]: "all_served (c\<lparr>c_scaler := p\<rparr>) = all_served c"
  by (simp add: all_served_def waiting_def)

lemma c_step_stop: "c_step cfg c c' \<Longrightarrow> counters_ok c \<Longrightarrow> stop_ok c \<Longrightarrow> stop_ok c'"
proof (induction rule: c_step.induct)
  case (by_sub c c')
  have "c_scaler c' = c_scaler c \<and> (c_closed c \<longrightarrow> c_closed c')"
    using by_sub(1) by (induction rule: sub_step.induct) (simp_all add: c_send_def c_start_def c_start_new_def)
  with by_sub show ?case using sub_step_served [of c c'] by (auto simp: stop_ok_def)
next
  case (by_wk c c')
  have "c_scaler c' = c_scaler c \<and> c_closed c' = c_closed c"
    using by_wk(1) by (induction rule: wk_step.induct) (simp_all add: c_recv_def)
  with by_wk show ?case using wk_step_served [of c c'] by (auto simp: stop_ok_def)
next
  case (by_scaler c c')
  then show ?case
  proof (cases "c_scaler c = CExit")
    case True
    with by_scaler show ?thesis using scaler_step_served [OF by_scaler(1)] by (simp add: stop_ok_def)
  next
    case False
    with by_scaler show ?thesis
      by (induction rule: scaler_step.induct) (auto simp: stop_ok_def dest: pending_zero)
  qed
next
  case (by_close c c')
  then show ?case by (induction rule: close_step.induct) (simp_all add: stop_ok_def all_served_def waiting_def)
next
  case (by_clean c c')
  then show ?case by (induction rule: clean_step.induct) (simp_all add: stop_ok_def all_served_def waiting_def)
qed

lemma reachable_stop: "c_reachable cfg c \<Longrightarrow> stop_ok c"
proof -
  assume "c_reachable cfg c"
  then have "counters_ok c \<and> stop_ok c"
  proof (induction rule: c_reachable_induct)
    case (init qs)
    then show ?case by (simp add: conc_defs stop_ok_def c_init_def)
  next
    case (step c c')
    then show ?case using c_step_counters c_step_stop by blast
  qed
  then show ?thesis ..
qed

end
