(* ===== verification/Pool_Runs.thy ===== *)
theory Pool_Runs
  imports Pool_Concurrent
begin

text \<open>
  Runs of the interleaved pool of theory \<open>Pool_Concurrent\<close>: what its own goroutines can always still do, a run
  that exceeds the capacity, and the properties that hold in every interleaving.
\<close>

section \<open>Runs\<close>

text \<open>
  The steps of the pool's own goroutines, and the start of a worker by a submitter that has already reserved it; no
  submission, no \<open>Close\<close> and no other step of a submitter.  What the scaler reads is given by \<open>rd\<close>, an arbitrary function of the
  state.  From every reachable state these steps can complete every accepted task.  A worker alone always gets to
  its parking; if the shards it has already passed are empty, it leaves no task queued.
\<close>

definition own_step :: "'h Config \<Rightarrow> ('a csys \<Rightarrow> reading) \<Rightarrow> 'a csys \<Rightarrow> 'a csys \<Rightarrow> bool" where
  "own_step cfg rd c c' \<longleftrightarrow> wk_step c c' \<or> scaler_step cfg (\<lambda>c r. r = rd c) c c'
     \<or> (\<exists>t S. c_subs c = add_mset (SStart t) S \<and> c' = (c_start_new c)\<lparr>c_subs := add_mset (SSend t) S\<rparr>)"

abbreviation own_steps :: "'h Config \<Rightarrow> ('a csys \<Rightarrow> reading) \<Rightarrow> 'a csys \<Rightarrow> 'a csys \<Rightarrow> bool" where
  "own_steps cfg rd \<equiv> (own_step cfg rd)\<^sup>*\<^sup>*"

fun wk_rank :: "nat \<Rightarrow> 'a wk_pc \<Rightarrow> nat" where
  "wk_rank n (WBatch k []) = 5 + n"
| "wk_rank n (WScan k i) = 4 + (n - i)"
| "wk_rank n (WBuf k) = 3"
| "wk_rank n (WBatch k (t # ts)) = 2"
| "wk_rank n (WExec k t ts) = 1"
| "wk_rank n (WDone k t ts) = 0"
| "wk_rank n WPark = 1"
| "wk_rank n WIdle = 0"

fun will_look :: "'a csys \<Rightarrow> 'a wk_pc \<Rightarrow> bool" where
  "will_look c (WScan k i) \<longleftrightarrow> (\<forall>j < i. chan_buf (c_chans c ! scan_idx c k j) = [])"
| "will_look c (WBuf k) \<longleftrightarrow> queued (c_chans c) = []"
| "will_look c WPark \<longleftrightarrow> waiting c = {#}"
| "will_look c WIdle \<longleftrightarrow> waiting c = {#}"
| "will_look c _ \<longleftrightarrow> True"

definition retired :: "'a csys \<Rightarrow> 'a csys \<Rightarrow> bool" where
  "retired c d \<longleftrightarrow> wk_step\<^sup>*\<^sup>* c d \<and> c_scaler d = c_scaler c \<and> length (c_chans d) = length (c_chans c) \<and> c_subs d = c_subs c"

lemma retired_refl [simp]: "retired c c"
  by (simp add: retired_def)

lemma retired_step: "wk_step c c' \<Longrightarrow> retired c' d \<Longrightarrow> retired c d"
proof -
  assume "wk_step c c'" "retired c' d"
  moreover from this(1) have "c_scaler c' = c_scaler c \<and> length (c_chans c') = length (c_chans c) \<and> c_subs c' = c_subs c"
    by (induction rule: wk_step.induct) (simp_all add: c_recv_def)
  ultimately show ?thesis by (auto simp: retired_def intro: converse_rtranclp_into_rtranclp)
qed

definition retires :: "'a csys \<Rightarrow> (nat \<times> 'a wk_pc) multiset \<Rightarrow> 'a wk_pc \<Rightarrow> bool" where
  "retires c W pc \<longleftrightarrow> (\<exists>d. retired c d \<and> c_workers d = W \<and> (will_look c pc \<longrightarrow> waiting d = {#}))"

lemma retires_step:
  assumes "wk_step c c'" "retires c' W pc'" "will_look c pc \<Longrightarrow> will_look c' pc'"
  shows "retires c W pc"
  using assms retired_step [OF assms(1)] unfolding retires_def by blast

definition wk_measure :: "'a csys \<Rightarrow> 'a wk_pc \<Rightarrow> nat \<times> nat" where
  "wk_measure c pc = (size (waiting c) + size (wk_held pc), wk_rank (length (c_chans c)) pc)"

definition advances :: "'a csys \<Rightarrow> nat \<Rightarrow> 'a wk_pc \<Rightarrow> (nat \<times> 'a wk_pc) multiset \<Rightarrow> bool" where
  "advances c w pc W \<longleftrightarrow> (\<exists>c' pc'. wk_step c c' \<and> c_workers c' = add_mset (w, pc') W
     \<and> (wk_measure c' pc', wk_measure c pc) \<in> less_than <*lex*> less_than \<and> (will_look c pc \<longrightarrow> will_look c' pc'))"

lemma advancesI:
  assumes "wk_step c c'" "c_workers c' = add_mset (w, pc') W"
    "(wk_measure c' pc', wk_measure c pc) \<in> less_than <*lex*> less_than" "will_look c pc \<Longrightarrow> will_look c' pc'"
  shows "advances c w pc W"
  using assms unfolding advances_def by blast

text \<open>A scan of as many shards as there are has passed every shard.\<close>

lemma scan_all:
  assumes "length (c_chans c) \<le> i" "\<forall>j < i. chan_buf (c_chans c ! scan_idx c k j) = []"
  shows "queued (c_chans c) = []"
  unfolding queued_Nil_iff
proof (intro allI impI)
  fix p assume p: "p < length (c_chans c)"
  let ?n = "length (c_chans c)"
  define u where "u = k mod ?n"
  define j where "j = (p + ?n - u) mod ?n"
  have u: "u < ?n" using p by (cases "c_chans c") (auto simp: u_def)
  have "(k + j) mod ?n = (u + j) mod ?n" by (simp add: u_def mod_add_left_eq)
  also have "\<dots> = (u + (p + ?n - u)) mod ?n" unfolding j_def by (rule mod_add_right_eq)
  also have "\<dots> = p" using u p by simp
  finally have "scan_idx c k j = p" by (simp add: scan_idx_def)
  moreover have "j < ?n" using u unfolding j_def by (intro mod_less_divisor) linarith
  then have "j < i" using assms(1) by linarith
  ultimately show "chan_buf (c_chans c ! p) = []" using assms(2) by blast
qed

lemma advance_scan:
  assumes "c_workers c = add_mset (w, WScan k i) W"
  shows "advances c w (WScan k i) W"
proof (cases "i < length (c_chans c)")
  case i: True
  show ?thesis
  proof (cases "chan_buf (c_chans c ! scan_idx c k i)")
    case Nil
    with scan_miss [OF assms i] i show ?thesis
      by (intro advancesI) (auto simp: wk_measure_def waiting_def scan_idx_def less_Suc_eq)
  next
    case (Cons t ts)
    have "mset (queued (c_chans c))
      = add_mset t (mset (queued ((c_chans c)[scan_idx c k i := (c_chans c ! scan_idx c k i)\<lparr>chan_buf := ts\<rparr>])))"
      using i Cons by (simp add: mset_queued_recv scan_idx_less)
    with scan_hit [OF assms i Cons] show ?thesis
      by (intro advancesI) (auto simp: wk_measure_def waiting_def c_recv_def Cons simp flip: size_mset)
  qed
next
  case False
  then have l: "length (c_chans c) \<le> i" by simp
  from scan_end [OF assms l] scan_all [OF l] show ?thesis
    by (intro advancesI) (auto simp: wk_measure_def waiting_def)
qed

lemma advance_buf:
  assumes "c_workers c = add_mset (w, WBuf k) W"
  shows "advances c w (WBuf k) W"
proof (cases "c_buf c")
  case Nil
  with pop_none [OF assms] show ?thesis by (intro advancesI) (auto simp: wk_measure_def waiting_def)
next
  case (Cons b bs)
  with pop_some [OF assms] show ?thesis
    by (intro advancesI) (auto simp: wk_measure_def waiting_def c_batch_def)
qed

lemmas advance_by = advancesI [OF done_count] advancesI [OF done_wg] advancesI [OF batch_next]
  advancesI [OF batch_end] advancesI [OF park_count]

lemma advance_task:
  "c_workers c = add_mset (w, WExec k t ts) W \<Longrightarrow> advances c w (WExec k t ts) W"
  "c_workers c = add_mset (w, WDone k t ts) W \<Longrightarrow> advances c w (WDone k t ts) W"
  "c_workers c = add_mset (w, WBatch k (t # ts)) W \<Longrightarrow> advances c w (WBatch k (t # ts)) W"
  "c_workers c = add_mset (w, WBatch k []) W \<Longrightarrow> advances c w (WBatch k []) W"
  "c_workers c = add_mset (w, WPark) W \<Longrightarrow> advances c w WPark W"
  by (rule advance_by, assumption, simp, simp add: wk_measure_def waiting_def, simp add: waiting_def)+

lemma wk_advances:
  assumes "c_workers c = add_mset (w, pc) W" "pc \<noteq> WIdle"
  shows "advances c w pc W"
proof (cases pc)
  case (WBatch k ts)
  with assms show ?thesis by (cases ts) (simp_all add: advance_task)
qed (use assms in \<open>simp_all add: advance_scan advance_buf advance_task\<close>)

lemma wk_retires:
  assumes "c_workers c = add_mset (w, pc) W"
  shows "retires c W pc"
  using assms
proof (induction "wk_measure c pc" arbitrary: c pc rule: wf_induct_rule [OF wf_lex_prod [OF wf_less_than wf_less_than]])
  case (1 c pc)
  show ?case
  proof (cases "pc = WIdle")
    case True
    with 1(2) have "wk_step c (c\<lparr>c_workers := W, c_idle := add_mset w (c_idle c)\<rparr>)" by (simp add: park_idle)
    from retired_step [OF this retired_refl] show ?thesis by (auto simp: True retires_def waiting_def)
  next
    case False
    from wk_advances [OF 1(2) False] obtain c' pc' where a: "wk_step c c'" "c_workers c' = add_mset (w, pc') W"
      "(wk_measure c' pc', wk_measure c pc) \<in> less_than <*lex*> less_than" "will_look c pc \<longrightarrow> will_look c' pc'"
      unfolding advances_def by blast
    from retires_step [OF a(1) 1(1) [OF a(3,2)]] a(4) show ?thesis by blast
  qed
qed

lemma all_retire: "\<exists>d. retired c d \<and> c_workers d = {#}"
proof (induction "c_workers c" arbitrary: c)
  case empty
  then show ?case using retired_refl by metis
next
  case (add x W)
  obtain w pc where x: "x = (w, pc)" by fastforce
  from wk_retires [of c w pc W] add(2) x obtain d where d: "retired c d" "c_workers d = W"
    by (auto simp: retires_def)
  from add(1) [OF d(2) [symmetric]] obtain e where "retired d e" "c_workers e = {#}" by blast
  with d(1) show ?case by (auto simp: retired_def intro!: exI [of _ e])
qed

text \<open>Every worker that a submitter has reserved gets started.\<close>

definition reserved :: "'a csys \<Rightarrow> nat" where
  "reserved c = nat (tally sub_run (c_subs c))"

lemma reserved_add: "c_subs c = add_mset s S \<Longrightarrow> c_subs d = add_mset s' S \<Longrightarrow> sub_run s = 1 \<Longrightarrow> sub_run s' = 0 \<Longrightarrow> reserved c = Suc (reserved d)"
  using tally_nonneg [of sub_run S] by (simp add: reserved_def nat_add_distrib)

lemma all_started: "\<exists>d. own_steps cfg rd c d \<and> tally sub_run (c_subs d) = 0 \<and> c_chans d = c_chans c"
proof (induction "reserved c" arbitrary: c)
  case 0
  then show ?case using tally_nonneg [of sub_run "c_subs c"] by (intro exI [of _ c]) (simp add: reserved_def)
next
  case (Suc n)
  have "\<exists>s \<in># c_subs c. sub_run s \<noteq> 0"
  proof (rule ccontr)
    assume "\<not> ?thesis"
    then have "image_mset sub_run (c_subs c) = image_mset (\<lambda>_. 0) (c_subs c)" by (intro image_mset_cong) auto
    with Suc(2) show False by (simp add: reserved_def)
  qed
  then obtain s where s: "s \<in># c_subs c" "sub_run s \<noteq> 0" by blast
  then obtain t where t: "s = SStart t" by (cases s) auto
  then obtain S where S: "c_subs c = add_mset (SStart t) S" using s(1) by (metis mset_add)
  let ?d = "(c_start_new c)\<lparr>c_subs := add_mset (SSend t) S\<rparr>"
  have "own_step cfg rd c ?d" using S by (auto simp: own_step_def)
  moreover have "reserved c = Suc (reserved ?d)" using reserved_add [OF S, of ?d "SSend t"] by simp
  with Suc obtain e where "own_steps cfg rd ?d e" "tally sub_run (c_subs e) = 0" "c_chans e = c_chans ?d" by (metis nat.inject)
  ultimately show ?case by (intro exI [of _ e]) (auto simp: c_start_new_def c_start_def intro: converse_rtranclp_into_rtranclp)
qed

text \<open>The scaler always gets back to its next tick, or it has stopped.\<close>

definition homes :: "'h Config \<Rightarrow> ('a csys \<Rightarrow> reading) \<Rightarrow> 'a csys \<Rightarrow> bool" where
  "homes cfg rd c \<longleftrightarrow> (\<exists>d. own_steps cfg rd c d \<and> c_scaler d \<in> {CTick, CExit} \<and> c_subs d = c_subs c)"

abbreviation sc_step :: "'h Config \<Rightarrow> ('a csys \<Rightarrow> reading) \<Rightarrow> 'a csys \<Rightarrow> 'a csys \<Rightarrow> bool" where
  "sc_step cfg rd \<equiv> scaler_step cfg (\<lambda>c r. r = rd c)"

lemma homes_sc: "sc_step cfg rd c c' \<Longrightarrow> c_subs c' = c_subs c \<Longrightarrow> homes cfg rd c' \<Longrightarrow> homes cfg rd c"
proof -
  assume s: "sc_step cfg rd c c'" and "c_subs c' = c_subs c" "homes cfg rd c'"
  then obtain d where "own_steps cfg rd c' d" "c_scaler d \<in> {CTick, CExit}" "c_subs d = c_subs c" by (auto simp: homes_def)
  moreover have "own_step cfg rd c c'" using s by (simp add: own_step_def)
  ultimately show ?thesis unfolding homes_def by (blast intro: converse_rtranclp_into_rtranclp)
qed

lemma homes_refl: "c_scaler c \<in> {CTick, CExit} \<Longrightarrow> homes cfg rd c"
  unfolding homes_def by blast

lemma homes_drain: "c_scaler c = CDrain \<Longrightarrow> homes cfg rd c"
proof (cases "c_pending c = 0")
  case True
  assume "c_scaler c = CDrain"
  from homes_sc [OF is_drained [OF this True]] show ?thesis by (simp add: homes_refl)
next
  case False
  assume "c_scaler c = CDrain"
  from homes_sc [OF not_drained [OF this False]] show ?thesis by (simp add: homes_refl)
qed

lemma homes_closed: "c_scaler c = CClosed \<Longrightarrow> homes cfg rd c"
proof (cases "c_closed c")
  case True
  assume "c_scaler c = CClosed"
  from homes_sc [OF is_closed [OF this True]] show ?thesis by (simp add: homes_drain)
next
  case False
  assume "c_scaler c = CClosed"
  from homes_sc [OF still_open [OF this False]] show ?thesis by (simp add: homes_refl)
qed

lemma homes_spawn: "c_scaler c = CSpawn k \<Longrightarrow> homes cfg rd c"
proof (induction k arbitrary: c)
  case 0
  from homes_sc [OF spawn_end [OF this]] show ?case by (simp add: homes_closed)
next
  case (Suc k)
  show ?case
  proof (cases "c_idle c")
    case empty
    show ?thesis by (rule homes_sc [OF spawn_new [OF Suc.prems empty]]) (simp_all add: Suc.IH c_start_new_def c_start_def)
  next
    case (add w I)
    show ?thesis by (rule homes_sc [OF spawn_idle [OF Suc.prems add]]) (simp_all add: Suc.IH c_start_def)
  qed
qed

lemma homes_plan: "c_scaler c = CPlan n \<Longrightarrow> homes cfg rd c"
proof (cases "0 < n")
  case True
  assume c: "c_scaler c = CPlan n"
  have "homes cfg rd (c\<lparr>c_scaler := CLocked n (c_running c)\<rparr>)"
    by (rule homes_sc [OF reserve]) (auto intro: homes_spawn)
  with homes_sc [OF recheck [OF c True]] show ?thesis by simp
next
  case False
  assume "c_scaler c = CPlan n"
  from homes_sc [OF enough [OF this]] False show ?thesis by (simp add: homes_closed)
qed

lemma scaler_homes: "homes cfg rd c"
proof (cases "c_scaler c")
  case (CRead r)
  show ?thesis by (rule homes_sc [OF plan [OF CRead refl]]) (simp_all add: homes_plan)
next
  case (CLocked n cur)
  from homes_sc [OF reserve [OF this]] show ?thesis by (simp add: homes_spawn)
qed (auto intro: homes_refl homes_closed homes_spawn homes_plan homes_drain)

text \<open>
  With no worker running and a task pending, the next tick starts one, whatever the rates, as long as the compensation
  for exiting workers does not overflow.
\<close>

definition readings_ok :: "'h Config \<Rightarrow> ('a csys \<Rightarrow> reading) \<Rightarrow> bool" where
  "readings_ok cfg rd \<longleftrightarrow> (\<forall>c. exitPerTick (fst (rd c)) cfg (fst (snd (rd c))) \<le> 2 ^ 62)"

lemma exitPerTick_upd [simp]: "exitPerTick oor cfg (v\<lparr>sv_running := r, sv_totalBacklog := b\<rparr>) = exitPerTick oor cfg v"
  by (simp add: exitPerTick_def)

lemma c_plan_restart:
  assumes "readings_ok cfg rd" "0 < c_pending c" "c_pending c < 2 ^ 62" "0 < c_capacity c"
  shows "0 < c_plan cfg c 0 (rd d) \<and> 1 \<le> actualSpawn (c_capacity c) (c_plan cfg c 0 (rd d)) 0"
proof -
  obtain oor v z where r: "rd d = (oor, v, z)" by (cases "rd d")
  let ?v = "v\<lparr>sv_running := 0, sv_totalBacklog := c_pending c\<rparr>"
  have "max 0 (exitPerTick oor cfg ?v) \<le> 2 ^ 62" using assms(1) r by (simp add: readings_ok_def) (metis fst_conv snd_conv)
  then have "c_pending c + max 0 (exitPerTick oor cfg ?v) < 2 ^ 63" using assms(3) by (simp del: exitPerTick_upd)
  with scaleDecision_restart [of ?v "c_capacity c" oor cfg z] assms(2,4)
  have "1 \<le> actualSpawn (c_capacity c) (c_plan cfg c 0 (rd d)) 0"
    by (simp add: r c_plan_def scaleDecision_def case_prod_beta Let_def)
  moreover from this have "0 < c_plan cfg c 0 (rd d)"
    using actualSpawn_bounds(2) [of "c_capacity c" "c_plan cfg c 0 (rd d)" 0] by linarith
  ultimately show ?thesis by simp
qed

lemma own_sc: "sc_step cfg rd c c' \<Longrightarrow> own_steps cfg rd c' d \<Longrightarrow> own_steps cfg rd c d"
  by (rule converse_rtranclp_into_rtranclp [where r = "own_step cfg rd" and a = c and b = c']) (simp_all add: own_step_def)

lemma own_wk: "wk_step\<^sup>*\<^sup>* c d \<Longrightarrow> own_steps cfg rd c d"
  by (erule rtranclp_mono [THEN predicate2D, rotated]) (auto simp: own_step_def)

lemma spawn_one:
  assumes "c_scaler c = CSpawn (Suc k)" "c_workers c = {#}"
  shows "\<exists>d w j. sc_step cfg rd c d \<and> c_workers d = {#(w, WScan j 0)#}"
proof (cases "c_idle c")
  case empty
  from spawn_new [OF assms(1) this] assms(2) show ?thesis by (fastforce simp: c_start_new_def c_start_def)
next
  case (add w I)
  from spawn_idle [OF assms(1) add] assms(2) show ?thesis by (fastforce simp: c_start_def)
qed

lemma stalled_restart:
  assumes "c_scaler c = CTick" "c_workers c = {#}" "c_running c = 0" "0 < c_pending c" "c_pending c < 2 ^ 62" "0 < c_capacity c"
    and "readings_ok cfg rd"
  shows "\<exists>d w j. own_steps cfg rd c d \<and> c_workers d = {#(w, WScan j 0)#}"
proof -
  let ?c1 = "c\<lparr>c_scaler := CRead 0\<rparr>"
  define n where "n = c_plan cfg c 0 (rd ?c1)"
  define k where "k = actualSpawn (c_capacity c) n 0"
  have n: "0 < n" "1 \<le> k" using c_plan_restart [OF assms(7,4,5,6)] by (simp_all add: n_def k_def)
  then obtain k' where k': "nat k = Suc k'" by (cases "nat k") auto
  have p: "c_plan cfg ?c1 0 (rd ?c1) = n" by (simp add: n_def c_plan_def case_prod_beta)
  let ?c2 = "c\<lparr>c_scaler := CPlan n\<rparr>" and ?c3 = "c\<lparr>c_scaler := CLocked n 0\<rparr>"
    and ?c4 = "c\<lparr>c_scaler := CSpawn (Suc k'), c_running := k\<rparr>"
  have s1: "sc_step cfg rd c ?c1" using tick [OF assms(1)] assms(3) by simp
  have s2: "sc_step cfg rd ?c1 ?c2" using plan [of ?c1 0 "\<lambda>c r. r = rd c" "rd ?c1" cfg] p by simp
  have s3: "sc_step cfg rd ?c2 ?c3" using recheck [of ?c2 n] n assms(3) by simp
  have s4: "sc_step cfg rd ?c3 ?c4" using reserve [of ?c3 n 0] k' assms(3) by (simp add: k_def [symmetric])
  obtain d w j where d: "sc_step cfg rd ?c4 d" "c_workers d = {#(w, WScan j 0)#}"
    using spawn_one [of ?c4 k' cfg rd] assms(2) by auto
  have "own_steps cfg rd c d" by (rule own_sc [OF s1 own_sc [OF s2 own_sc [OF s3 own_sc [OF s4 own_sc [OF d(1)]]]]]) simp
  with d(2) show ?thesis by blast
qed

lemma own_step_c_step: "own_step cfg rd c d \<Longrightarrow> c_step cfg c d"
proof -
  have m: "scaler_step cfg (\<lambda>_ _. True) c d" if "sc_step cfg rd c d"
    using that by (induction rule: scaler_step.induct) (auto intro: scaler_step.intros)
  assume "own_step cfg rd c d"
  then show ?thesis
    unfolding own_step_def using m by (auto intro: by_wk by_scaler by_sub start)
qed

lemma own_steps_keep:
  assumes "own_steps cfg rd c d"
  shows "c_accepted d = c_accepted c \<and> c_pending d \<le> c_pending c"
  using assms
proof (induction rule: rtranclp_induct)
  case (step d e)
  have "c_accepted e = c_accepted d \<and> c_pending e \<le> c_pending d"
    using step(2) unfolding own_step_def
    by (auto elim!: wk_step.cases scaler_step.cases simp: c_recv_def c_start_def c_start_new_def)
  with step(3) show ?case by simp
qed simp

lemma own_steps_reachable: "own_steps cfg rd c d \<Longrightarrow> c_reachable cfg c \<Longrightarrow> c_reachable cfg d"
proof (induction rule: rtranclp_induct)
  case (step d e)
  then show ?case using own_step_c_step unfolding c_reachable_def by (meson rtranclp.rtrancl_into_rtrancl)
qed

lemma no_workers_served:
  assumes "counters_ok c" "c_workers c = {#}" "waiting c = {#}"
  shows "c_completed c = c_accepted c"
  using assms by (simp add: counters_ok_def held_def)

lemma parked_can_serve:
  assumes c: "c_reachable cfg c" "c_workers c = {#}" "c_scaler c \<in> {CTick, CExit}" "tally sub_run (c_subs c) = 0"
    and "c_pending c < 2 ^ 62" "1 \<le> workerNumCapacity cfg" "readings_ok cfg rd"
  shows "\<exists>d. own_steps cfg rd c d \<and> c_workers d = {#} \<and> waiting d = {#}"
proof (cases "waiting c = {#}")
  case True
  with c(2) show ?thesis by blast
next
  case False
  have inv: "counters_ok c" "capacity_ok c" "stop_ok c"
    using reachable_counters [OF c(1)] reachable_capacity [OF c(1)] reachable_stop [OF c(1)] assms(6) by simp_all
  with False c(3) have t: "c_scaler c = CTick" by (auto simp: stop_ok_def all_served_def)
  have "0 < size (waiting c)" using False by (simp add: nonempty_has_size)
  moreover have "0 \<le> tally sub_pend (c_subs c)" by (simp add: tally_nonneg)
  ultimately have "0 < c_pending c" "c_running c = 0"
    using inv(1) c(2,4) t unfolding counters_ok_def by simp_all
  with stalled_restart [OF t c(2), of cfg rd] assms(5,7) inv(2) obtain d w j where
    d: "own_steps cfg rd c d" "c_workers d = {#(w, WScan j 0)#}" by (auto simp: capacity_ok_def)
  from wk_retires [OF d(2)] obtain e where "retired d e" "c_workers e = {#}" "waiting e = {#}"
    by (auto simp: retires_def)
  with d(1) show ?thesis by (meson own_wk retired_def rtranclp_trans)
qed

lemma reachable_can_serve:
  assumes "c_reachable cfg c" "c_pending c < 2 ^ 62" "1 \<le> workerNumCapacity cfg" "readings_ok cfg rd"
  shows "\<exists>d. own_steps cfg rd c d \<and> c_completed d = c_accepted c"
proof -
  from all_started [of cfg rd c] obtain b where b: "own_steps cfg rd c b" "tally sub_run (c_subs b) = 0" by blast
  from scaler_homes [of cfg rd b] obtain d where d: "own_steps cfg rd b d" "c_scaler d \<in> {CTick, CExit}" "c_subs d = c_subs b"
    by (auto simp: homes_def)
  from all_retire [of d] obtain e where e: "retired d e" "c_workers e = {#}" by auto
  then have ce: "own_steps cfg rd c e" "c_scaler e \<in> {CTick, CExit}" "tally sub_run (c_subs e) = 0"
    using b d own_wk [of d e cfg rd] by (auto simp: retired_def)
  with parked_can_serve [OF own_steps_reachable [OF ce(1) assms(1)] e(2)] own_steps_keep [OF ce(1)] assms
  obtain f where f: "own_steps cfg rd e f" "c_workers f = {#}" "waiting f = {#}" by auto
  have cf: "own_steps cfg rd c f" using ce(1) f(1) by simp
  with no_workers_served [OF reachable_counters [OF own_steps_reachable] f(2,3)] assms(1) own_steps_keep [OF cf]
  show ?thesis by metis
qed

section \<open>A run that exceeds the capacity\<close>

text \<open>
  With capacity 1: the first submitter finds no worker; the scaler, which sees the same, reads
  \<open>currentRunning = 0\<close> under \<open>p.lock\<close>; the submitter wins its compare-and-swap; the scaler
  then adds the one worker it has room for, and both start their worker.
\<close>

definition race_cfg :: "unit Config" where
  "race_cfg = defaultConfig\<lparr>workerNumCapacity := 1\<rparr>"

definition zero_view :: "int \<Rightarrow> scale_view" where
  "zero_view backlog = \<lparr>sv_submitMed = Fin 0, sv_consumeMed = Fin 0, sv_exitMed = Fin 0, sv_running = 0,
     sv_bufDepth = 0, sv_totalBacklog = backlog, sv_queued = 0, sv_now = 0\<rparr>"

definition race_st :: "nat sub_pc multiset \<Rightarrow> (nat \<times> nat wk_pc) multiset \<Rightarrow> scaler_pc \<Rightarrow> int \<Rightarrow> int \<Rightarrow> int \<Rightarrow> nat \<Rightarrow> nat \<Rightarrow> nat list \<Rightarrow> nat multiset \<Rightarrow> nat csys" where
  "race_st subs ws p running pending wg fresh seq q acc =
     (c_init race_cfg [\<lparr>chan_buf = q, chan_cap = 2\<rparr>])\<lparr>c_subs := subs, c_workers := ws, c_scaler := p, c_running := running,
       c_pending := pending, c_wg := wg, c_fresh := fresh, c_workerSeq := seq, c_accepted := acc\<rparr>"

lemma race_st_init: "race_st {#} {#} CTick 0 0 0 0 0 [] {#} = c_init race_cfg [\<lparr>chan_buf = [], chan_cap = 2\<rparr>]"
  by (simp add: race_st_def c_init_def)

lemma race_cfg_simps [simp]: "workerNumCapacity race_cfg = 1" "workMode race_cfg = BLOCK"
  by (simp_all add: race_cfg_def defaultConfig_def)

lemma zero_view_simps [simp]: "sv_running (zero_view b) = 0" "sv_totalBacklog (zero_view b) = b" "sv_exitMed (zero_view b) = Fin 0"
  by (simp_all add: zero_view_def)

lemma race_exit [simp]: "exitPerTick oor race_cfg (zero_view b) = 0"
  by (rule exitPerTick_zero)
    (simp_all add: zero_view_def race_cfg_def defaultConfig_def defaultScalerPeriod_def defaultStatsSamplePeriod_def Millisecond_def)

lemma zero_view_upd [simp]: "zero_view a\<lparr>sv_running := 0, sv_totalBacklog := b\<rparr> = zero_view b"
  by (simp add: zero_view_def)

lemma race_plan [simp]: "c_capacity c = 1 \<Longrightarrow> c_pending c = 1 \<Longrightarrow> c_plan race_cfg c 0 (\<lambda>_. 0, zero_view 0, 0) = 1"
  by (simp add: c_plan_def plannedSpawn_def scaleTarget_def wantedWorkers_def zero_view_def Let_def
      race_exit [unfolded zero_view_def])

lemmas race_defs = race_st_def c_init_def c_start_def c_start_new_def scan_idx_def c_send_def c_recv_def room_def actualSpawn_def numeral_2_eq_2

lemma race_run1:
  "(c_step race_cfg)\<^sup>*\<^sup>* (race_st {#} {#} CTick 0 0 0 0 0 [] {#})
     (race_st {#SCas 1#} {#} CTick 0 1 1 0 0 [] {#})"
proof -
  let ?s0 = "race_st {#} {#} CTick 0 0 0 0 0 [] {#}"
    and ?s1 = "race_st {#SNew 1#} {#} CTick 0 0 0 0 0 [] {#}"
    and ?s2 = "race_st {#SPend 1#} {#} CTick 0 1 0 0 0 [] {#}"
    and ?s3 = "race_st {#SCheck 1#} {#} CTick 0 1 1 0 0 [] {#}"
    and ?s4 = "race_st {#SLoad 1#} {#} CTick 0 1 1 0 0 [] {#}"
    and ?s5 = "race_st {#SCas 1#} {#} CTick 0 1 1 0 0 [] {#}"
  have t1: "sub_step ?s0 ?s1" using call [of ?s0 1] by (simp add: race_defs)
  have t2: "sub_step ?s1 ?s2" using count [of ?s1 1 "{#}"] by (simp add: race_defs)
  have t3: "sub_step ?s2 ?s3" using wg_add [of ?s2 1 "{#}"] by (simp add: race_defs)
  have t4: "sub_step ?s3 ?s4" using check_open [of ?s3 1 "{#}"] by (simp add: race_defs)
  have t5: "sub_step ?s4 ?s5" using load_cold [of ?s4 1 "{#}"] by (simp add: race_defs)
  from by_sub [OF t1] by_sub [OF t2] by_sub [OF t3] by_sub [OF t4] by_sub [OF t5] show ?thesis
    by (meson rtranclp.rtrancl_refl converse_rtranclp_into_rtranclp)
qed

lemma race_run2:
  "(c_step race_cfg)\<^sup>*\<^sup>* (race_st {#SCas 1#} {#} CTick 0 1 1 0 0 [] {#})
     (race_st {#SSend 1#} {#(1, WScan 0 0), (0, WScan 0 0)#} (CSpawn 0) 2 1 1 2 2 [] {#})"
proof -
  let ?s0 = "race_st {#SCas 1#} {#} CTick 0 1 1 0 0 [] {#}"
    and ?s1 = "race_st {#SCas 1#} {#} (CRead 0) 0 1 1 0 0 [] {#}"
    and ?s2 = "race_st {#SCas 1#} {#} (CPlan 1) 0 1 1 0 0 [] {#}"
    and ?s3 = "race_st {#SCas 1#} {#} (CLocked 1 0) 0 1 1 0 0 [] {#}"
    and ?s4 = "race_st {#SStart 1#} {#} (CLocked 1 0) 1 1 1 0 0 [] {#}"
    and ?s5 = "race_st {#SStart 1#} {#} (CSpawn 1) 2 1 1 0 0 [] {#}"
    and ?s6 = "race_st {#SStart 1#} {#(0, WScan 0 0)#} (CSpawn 0) 2 1 1 1 1 [] {#}"
    and ?s7 = "race_st {#SSend 1#} {#(1, WScan 0 0), (0, WScan 0 0)#} (CSpawn 0) 2 1 1 2 2 [] {#}"
  have t1: "scaler_step race_cfg (\<lambda>_ _. True) ?s0 ?s1" using tick [of ?s0 race_cfg "\<lambda>_ _. True"] by (simp add: race_defs)
  have t2: "scaler_step race_cfg (\<lambda>_ _. True) ?s1 ?s2" using plan [of ?s1 0 "\<lambda>_ _. True" "(\<lambda>_. 0, zero_view 0, 0)" race_cfg] by (simp add: race_defs)
  have t3: "scaler_step race_cfg (\<lambda>_ _. True) ?s2 ?s3" using recheck [of ?s2 1 race_cfg "\<lambda>_ _. True"] by (simp add: race_defs)
  have t4: "sub_step ?s3 ?s4" using cas_won [of ?s3 1 "{#}"] by (simp add: race_defs)
  have t5: "scaler_step race_cfg (\<lambda>_ _. True) ?s4 ?s5" using reserve [of ?s4 1 0 race_cfg "\<lambda>_ _. True"] by (simp add: race_defs)
  have t6: "scaler_step race_cfg (\<lambda>_ _. True) ?s5 ?s6" using spawn_new [of ?s5 0 race_cfg "\<lambda>_ _. True"] by (simp add: race_defs)
  have t7: "sub_step ?s6 ?s7" using start [of ?s6 1 "{#}"] by (simp add: race_defs)
  from by_scaler [OF t1] by_scaler [OF t2] by_scaler [OF t3] by_sub [OF t4] by_scaler [OF t5] by_scaler [OF t6] by_sub [OF t7] show ?thesis
    by (meson rtranclp.rtrancl_refl converse_rtranclp_into_rtranclp)
qed

lemma race_run3:
  "(c_step race_cfg)\<^sup>*\<^sup>* (race_st {#SSend 1#} {#(1, WScan 0 0), (0, WScan 0 0)#} (CSpawn 0) 2 1 1 2 2 [] {#})
     (race_st {#} {#(0, WExec 0 2 []), (1, WExec 0 1 [])#} (CSpawn 0) 2 2 2 2 2 [] {#2, 1#})"
proof -
  let ?s0 = "race_st {#SSend 1#} {#(1, WScan 0 0), (0, WScan 0 0)#} (CSpawn 0) 2 1 1 2 2 [] {#}"
    and ?s1 = "race_st {#} {#(1, WScan 0 0), (0, WScan 0 0)#} (CSpawn 0) 2 1 1 2 2 [1] {#1#}"
    and ?s2 = "race_st {#} {#(1, WExec 0 1 []), (0, WScan 0 0)#} (CSpawn 0) 2 1 1 2 2 [] {#1#}"
    and ?s3 = "race_st {#SNew 2#} {#(1, WExec 0 1 []), (0, WScan 0 0)#} (CSpawn 0) 2 1 1 2 2 [] {#1#}"
    and ?s4 = "race_st {#SPend 2#} {#(1, WExec 0 1 []), (0, WScan 0 0)#} (CSpawn 0) 2 2 1 2 2 [] {#1#}"
    and ?s5 = "race_st {#SCheck 2#} {#(1, WExec 0 1 []), (0, WScan 0 0)#} (CSpawn 0) 2 2 2 2 2 [] {#1#}"
    and ?s6 = "race_st {#SLoad 2#} {#(1, WExec 0 1 []), (0, WScan 0 0)#} (CSpawn 0) 2 2 2 2 2 [] {#1#}"
    and ?s7 = "race_st {#SSend 2#} {#(1, WExec 0 1 []), (0, WScan 0 0)#} (CSpawn 0) 2 2 2 2 2 [] {#1#}"
    and ?s8 = "race_st {#} {#(1, WExec 0 1 []), (0, WScan 0 0)#} (CSpawn 0) 2 2 2 2 2 [2] {#2, 1#}"
    and ?s9 = "race_st {#} {#(0, WExec 0 2 []), (1, WExec 0 1 [])#} (CSpawn 0) 2 2 2 2 2 [] {#2, 1#}"
  have t1: "sub_step ?s0 ?s1" using send [of ?s0 1 "{#}" 0] by (simp add: race_defs)
  have t2: "wk_step ?s1 ?s2" using scan_hit [of ?s1 1 0 0 "{#(0, WScan 0 0)#}" 1 "[]"] by (simp add: race_defs)
  have t3: "sub_step ?s2 ?s3" using call [of ?s2 2] by (simp add: race_defs)
  have t4: "sub_step ?s3 ?s4" using count [of ?s3 2 "{#}"] by (simp add: race_defs)
  have t5: "sub_step ?s4 ?s5" using wg_add [of ?s4 2 "{#}"] by (simp add: race_defs)
  have t6: "sub_step ?s5 ?s6" using check_open [of ?s5 2 "{#}"] by (simp add: race_defs)
  have t7: "sub_step ?s6 ?s7" using load_busy [of ?s6 2 "{#}"] by (simp add: race_defs)
  have t8: "sub_step ?s7 ?s8" using send [of ?s7 2 "{#}" 0] by (simp add: race_defs)
  have t9: "wk_step ?s8 ?s9" using scan_hit [of ?s8 0 0 0 "{#(1, WExec 0 1 [])#}" 2 "[]"] by (simp add: race_defs)
  from by_sub [OF t1] by_wk [OF t2] by_sub [OF t3] by_sub [OF t4] by_sub [OF t5] by_sub [OF t6] by_sub [OF t7] by_sub [OF t8] by_wk [OF t9] show ?thesis
    by (meson rtranclp.rtrancl_refl converse_rtranclp_into_rtranclp)
qed

definition race_end :: "nat csys" where
  "race_end = race_st {#} {#(0, WExec 0 2 []), (1, WExec 0 1 [])#} (CSpawn 0) 2 2 2 2 2 [] {#2, 1#}"

lemma race_reachable: "c_reachable race_cfg race_end"
  unfolding c_reachable_def race_end_def
  using race_run1 race_run2 race_run3 race_st_init
  by (intro exI [of _ "[\<lparr>chan_buf = [], chan_cap = 2\<rparr>]"]) (auto simp: queued_def intro: rtranclp_trans)

text \<open>
  The first submitter has won its compare-and-swap and is stopped before it starts the worker; the second one sees a
  running worker and its task is accepted, with no worker there.
\<close>

definition preempted :: "nat csys" where
  "preempted = race_st {#SStart 1#} {#} CTick 1 2 2 0 0 [2] {#2#}"

lemma preempt_run:
  "(c_step race_cfg)\<^sup>*\<^sup>* (race_st {#SCas 1#} {#} CTick 0 1 1 0 0 [] {#})
     (race_st {#SStart 1#} {#} CTick 1 2 2 0 0 [2] {#2#})"
proof -
  let ?s0 = "race_st {#SCas 1#} {#} CTick 0 1 1 0 0 [] {#}"
    and ?s1 = "race_st {#SStart 1#} {#} CTick 1 1 1 0 0 [] {#}"
    and ?s2 = "race_st {#SNew 2, SStart 1#} {#} CTick 1 1 1 0 0 [] {#}"
    and ?s3 = "race_st {#SPend 2, SStart 1#} {#} CTick 1 2 1 0 0 [] {#}"
    and ?s4 = "race_st {#SCheck 2, SStart 1#} {#} CTick 1 2 2 0 0 [] {#}"
    and ?s5 = "race_st {#SLoad 2, SStart 1#} {#} CTick 1 2 2 0 0 [] {#}"
    and ?s6 = "race_st {#SSend 2, SStart 1#} {#} CTick 1 2 2 0 0 [] {#}"
    and ?s7 = "race_st {#SStart 1#} {#} CTick 1 2 2 0 0 [2] {#2#}"
  have t1: "sub_step ?s0 ?s1" using cas_won [of ?s0 1 "{#}"] by (simp add: race_defs)
  have t2: "sub_step ?s1 ?s2" using call [of ?s1 2] by (simp add: race_defs)
  have t3: "sub_step ?s2 ?s3" using count [of ?s2 2 "{#SStart 1#}"] by (simp add: race_defs)
  have t4: "sub_step ?s3 ?s4" using wg_add [of ?s3 2 "{#SStart 1#}"] by (simp add: race_defs)
  have t5: "sub_step ?s4 ?s5" using check_open [of ?s4 2 "{#SStart 1#}"] by (simp add: race_defs)
  have t6: "sub_step ?s5 ?s6" using load_busy [of ?s5 2 "{#SStart 1#}"] by (simp add: race_defs)
  have t7: "sub_step ?s6 ?s7" using send [of ?s6 2 "{#SStart 1#}" 0] by (simp add: race_defs)
  from by_sub [OF t1] by_sub [OF t2] by_sub [OF t3] by_sub [OF t4] by_sub [OF t5] by_sub [OF t6] by_sub [OF t7] show ?thesis
    by (meson rtranclp.rtrancl_refl converse_rtranclp_into_rtranclp)
qed

lemma preempt_reachable: "c_reachable race_cfg preempted"
  unfolding c_reachable_def preempted_def
  using race_run1 preempt_run race_st_init
  by (intro exI [of _ "[\<lparr>chan_buf = [], chan_cap = 2\<rparr>]"]) (auto simp: queued_def intro: rtranclp_trans)

lemma init_reachable: "queued qs = [] \<Longrightarrow> c_reachable cfg (c_init cfg qs)"
  unfolding c_reachable_def by blast

lemma race_config_ok: "config_ok race_cfg"
  using defaultConfig_ok [where ?'a = unit] by (simp add: race_cfg_def config_ok_def in_int64_def)

text \<open>A pool closed while one submission is before its check of \<open>closed\<close>; the scaler stops first.\<close>

definition stop_st :: "nat sub_pc multiset \<Rightarrow> bool \<Rightarrow> close_pc \<Rightarrow> scaler_pc \<Rightarrow> nat csys" where
  "stop_st subs cl k p = (c_init race_cfg [\<lparr>chan_buf = [], chan_cap = 2\<rparr>])\<lparr>c_subs := subs, c_closed := cl, c_closer := k, c_scaler := p\<rparr>"

lemma stop_reachable: "c_reachable race_cfg (stop_st {#SNew 7#} True KBuf CExit)"
proof -
  let ?s0 = "stop_st {#} False KOpen CTick" and ?s1 = "stop_st {#SNew 7#} False KOpen CTick" and ?s2 = "stop_st {#SNew 7#} True KBuf CTick"
    and ?s3 = "stop_st {#SNew 7#} True KBuf (CRead 0)" and ?s4 = "stop_st {#SNew 7#} True KBuf (CPlan 0)"
    and ?s5 = "stop_st {#SNew 7#} True KBuf CClosed" and ?s6 = "stop_st {#SNew 7#} True KBuf CDrain" and ?s7 = "stop_st {#SNew 7#} True KBuf CExit"
  have n: "c_plan race_cfg c 0 (\<lambda>_. 0, zero_view 0, 0) = 0" if "c_capacity c = 1" "c_pending c = 0" for c :: "nat csys"
    using that scaleTarget_caps(1) [of "\<lambda>_. 0" race_cfg 1 "zero_view 0" 0] by (simp add: c_plan_def plannedSpawn_def)
  have t1: "sub_step ?s0 ?s1" using call [of ?s0 7] by (simp add: stop_st_def c_init_def)
  have t2: "close_step ?s1 ?s2" using close [of ?s1] by (simp add: stop_st_def c_init_def)
  have t3: "scaler_step race_cfg (\<lambda>_ _. True) ?s2 ?s3" using tick [of ?s2 race_cfg "\<lambda>_ _. True"] by (simp add: stop_st_def c_init_def)
  have t4: "scaler_step race_cfg (\<lambda>_ _. True) ?s3 ?s4"
    using plan [of ?s3 0 "\<lambda>_ _. True" "(\<lambda>_. 0, zero_view 0, 0)" race_cfg] n by (simp add: stop_st_def c_init_def)
  have t5: "scaler_step race_cfg (\<lambda>_ _. True) ?s4 ?s5" using enough [of ?s4 0 race_cfg "\<lambda>_ _. True"] by (simp add: stop_st_def c_init_def)
  have t6: "scaler_step race_cfg (\<lambda>_ _. True) ?s5 ?s6" using is_closed [of ?s5 race_cfg "\<lambda>_ _. True"] by (simp add: stop_st_def c_init_def)
  have t7: "scaler_step race_cfg (\<lambda>_ _. True) ?s6 ?s7" using is_drained [of ?s6 race_cfg "\<lambda>_ _. True"] by (simp add: stop_st_def c_init_def)
  from by_sub [OF t1] by_close [OF t2] by_scaler [OF t3] by_scaler [OF t4] by_scaler [OF t5] by_scaler [OF t6] by_scaler [OF t7]
  have "(c_step race_cfg)\<^sup>*\<^sup>* ?s0 ?s7"
    by (meson rtranclp.rtrancl_refl converse_rtranclp_into_rtranclp)
  moreover have "?s0 = c_init race_cfg [\<lparr>chan_buf = [], chan_cap = 2\<rparr>]" by (simp add: stop_st_def c_init_def)
  ultimately show ?thesis
    unfolding c_reachable_def by (intro exI [of _ "[\<lparr>chan_buf = [], chan_cap = 2\<rparr>]"]) (simp add: queued_def)
qed

section \<open>Properties\<close>

text \<open>
  C6.  In every interleaving the wait group counts the submissions in progress and the accepted tasks that are not
  completed: it never goes negative (so \<open>wg.Done\<close> never panics), the same holds of \<open>pendingTasks\<close> and of the
  count of running workers, every accepted task is queued, held by one worker or completed, and when \<open>Wait\<close>
  finds the group at zero every accepted task has completed.
\<close>

theorem wait_sound:
  assumes "c_reachable cfg c"
  shows "0 \<le> c_wg c \<and> 0 \<le> c_pending c \<and> 0 \<le> c_running c
    \<and> c_accepted c = mset (queued (c_chans c)) + mset (c_buf c) + sum_mset (image_mset (wk_held \<circ> snd) (c_workers c)) + c_completed c
    \<and> (c_wg c = 0 \<longrightarrow> c_accepted c = c_completed c)"
proof -
  note inv = reachable_counters [OF assms]
  have a: "c_accepted c = waiting c + held c + c_completed c" using inv by (simp add: counters_ok_def)
  with wg_zero [OF inv] have "c_wg c = 0 \<longrightarrow> c_accepted c = c_completed c" by simp
  with a counters_nonneg [OF inv] show ?thesis by (simp add: waiting_def held_def)
qed

theorem wait_sound_witness: "c_accepted race_end = {#2, 1#} \<and> 0 \<le> c_wg race_end \<and> c_completed race_end = {#}"
  using wait_sound [OF race_reachable] by (simp add: race_end_def race_st_def c_init_def)

text \<open>
  C9.  The capacity can be exceeded, by one worker and by no more: the cold start of \<open>submit\<close> does not take the lock under
  which the scaler re-checks the count.  A pool of capacity 1 can run two tasks at the same time.
\<close>

theorem capacity_exceeded_by_at_most_one:
  assumes "c_reachable cfg c" "1 \<le> workerNumCapacity cfg"
  shows "c_running c \<le> c_capacity c + 1
    \<and> (\<exists>d :: nat csys. c_reachable race_cfg d \<and> c_capacity d = 1 \<and> c_running d = 2
         \<and> c_workers d = {#(0, WExec 0 2 []), (1, WExec 0 1 [])#})"
proof
  show "c_running c \<le> c_capacity c + 1"
    using reachable_capacity [OF assms] reserve_ok_bound by (auto simp: capacity_ok_def)
  show "\<exists>d :: nat csys. c_reachable race_cfg d \<and> c_capacity d = 1 \<and> c_running d = 2 \<and> c_workers d = {#(0, WExec 0 2 []), (1, WExec 0 1 [])#}"
    using race_reachable by (intro exI [of _ race_end]) (simp add: race_end_def race_st_def c_init_def)
qed

theorem capacity_exceeded_by_at_most_one_witness: "c_running race_end \<le> 2 \<and> c_capacity race_end = 1"
  using capacity_exceeded_by_at_most_one [OF race_reachable] by (simp add: race_end_def race_st_def c_init_def)

text \<open>
  C7.  When the scaler has stopped, the pool is closed, nothing is queued, every submission still in progress will be
  rejected and no worker holds a task it has not run: it does not leave an accepted task without workers.
\<close>

theorem scaler_stops_after_last_task:
  assumes "c_reachable cfg c" "c_scaler c = CExit"
  shows "c_closed c \<and> queued (c_chans c) = [] \<and> c_buf c = []
    \<and> (\<forall>s \<in># c_subs c. not_admitted s) \<and> (\<forall>w \<in># c_workers c. wk_pend (snd w) = 0)"
  using reachable_stop [OF assms(1)] assms(2) by (simp add: stop_ok_def all_served_def waiting_def)

theorem scaler_stops_after_last_task_witness:
  "c_closed (stop_st {#SNew 7#} True KBuf CExit) \<and> c_subs (stop_st {#SNew 7#} True KBuf CExit) = {#SNew 7#}
     \<and> queued (c_chans (stop_st {#SNew 7#} True KBuf CExit)) = []"
  using scaler_stops_after_last_task [OF stop_reachable] by (simp add: stop_st_def c_init_def)

text \<open>
  C8.  No worker object is ever run by two goroutines, or both running and parked, or parked twice: the identities in the
  run loops and in the idle container are distinct and were all allocated.
\<close>

theorem worker_objects_not_shared:
  assumes "c_reachable cfg c"
  shows "image_mset fst (c_workers c) + c_idle c \<subseteq># mset_set {..<c_fresh c}"
  using reachable_ids [OF assms] by (simp add: ids_ok_def worker_ids_def)

theorem worker_objects_not_shared_witness: "{#0, 1#} \<subseteq># mset_set {..<2::nat}"
  using worker_objects_not_shared [OF race_reachable] by (simp add: race_end_def race_st_def c_init_def)

text \<open>
  C5.  From every state that any interleaving can reach, also one in which a submitter has reserved a worker by its
  compare-and-swap and has not started it yet, the goroutines at work can complete every accepted task: the workers, the
  scaler, whatever it reads of rates and times, and the submitters that still have to start a worker they have reserved,
  without another submission and without \<open>Close\<close>.  So no interleaving loses a task or makes its completion impossible,
  also after \<open>Close\<close>.  The readings are only assumed to keep the compensation for exiting workers at \<open>2\<^sup>6\<^sup>2\<close> or less.
\<close>

theorem accepted_tasks_completable:
  assumes "c_reachable cfg c" "c_pending c < 2 ^ 62" "1 \<le> workerNumCapacity cfg" "readings_ok cfg rd"
  shows "\<exists>d. (own_step cfg rd)\<^sup>*\<^sup>* c d \<and> c_completed d = c_accepted c"
  using reachable_can_serve [OF assms] .

theorem accepted_tasks_completable_witness:
  "\<exists>d. (own_step race_cfg (\<lambda>_. (\<lambda>_. 0, zero_view 0, 0)))\<^sup>*\<^sup>* preempted d \<and> c_completed d = {#2#}"
proof -
  have "c_pending preempted < 2 ^ 62" "c_accepted preempted = {#2#}" by (simp_all add: preempted_def race_st_def c_init_def)
  moreover have "readings_ok race_cfg (\<lambda>_. (\<lambda>_. 0, zero_view 0, 0))" by (simp add: readings_ok_def)
  ultimately show ?thesis
    using accepted_tasks_completable [OF preempt_reachable, of "\<lambda>_. (\<lambda>_. 0, zero_view 0, 0)"] by simp
qed

end
