(* ===== verification/Spin_Lock.thy ===== *)
theory Spin_Lock
  imports Go_Prelude
begin

text \<open>
  \<open>spinlock.go\<close>: the three-phase spin lock that guards the idle container when \<open>SpinLock\<close> is configured.
  Each thread is a program counter of \<open>Lock\<close>; one step is one atomic operation on the lock word or one
  \<open>runtime.Gosched\<close>.  Threads interleave arbitrarily.
\<close>

section \<open>Model\<close>

definition fastSpin :: nat where "fastSpin = 100"
definition yieldInterval :: nat where "yieldInterval = 16"
definition maxBackoff :: nat where "maxBackoff = 16"
definition maxRounds :: nat where "maxRounds = 1024"

datatype lock_pc =
    Outside
  | Fast nat | FastYield nat
  | Slow nat nat | SlowYield nat nat nat
  | Wait | WaitYield
  | Holding

text \<open>\<open>atomic.CompareAndSwapUint32(&s.state, 0, 1)\<close>\<close>

definition cas :: "32 word \<Rightarrow> bool \<times> 32 word" where
  "cas s = (if s = 0 then (True, 1) else (False, s))"

definition nextFast :: "nat \<Rightarrow> lock_pc" where
  "nextFast i = (if i + 1 < fastSpin then Fast (i + 1) else Slow 0 1)"

definition nextSlow :: "nat \<Rightarrow> nat \<Rightarrow> lock_pc" where
  "nextSlow round backoff =
     (let backoff' = (if backoff < maxBackoff then backoff * 2 else backoff)
      in if round + 1 < maxRounds then Slow (round + 1) backoff' else Wait)"

fun Lock :: "lock_pc \<Rightarrow> 32 word \<Rightarrow> lock_pc \<times> 32 word" where
  "Lock (Fast i) s =
     (let (won, s') = cas s in
      (if won then Holding else if (i + 1) mod yieldInterval = 0 then FastYield i else nextFast i, s'))"
| "Lock (FastYield i) s = (nextFast i, s)"
| "Lock (Slow round backoff) s =
     (let (won, s') = cas s in (if won then Holding else SlowYield round backoff 0, s'))"
| "Lock (SlowYield round backoff i) s =
     (if i < backoff then SlowYield round backoff (i + 1) else nextSlow round backoff, s)"
| "Lock Wait s = (let (won, s') = cas s in (if won then Holding else WaitYield, s'))"
| "Lock WaitYield s = (Wait, s)"
| "Lock Outside s = (Outside, s)"
| "Lock Holding s = (Holding, s)"

definition Unlock :: "32 word \<Rightarrow> 32 word" where
  "Unlock s = 0"

definition newSpinLock :: "32 word" where
  "newSpinLock = 0"

text \<open>A thread enters \<open>Lock\<close>, takes a step of it, or, once it holds the lock, calls \<open>Unlock\<close>.\<close>

inductive spin_step :: "('t \<Rightarrow> lock_pc) \<times> 32 word \<Rightarrow> ('t \<Rightarrow> lock_pc) \<times> 32 word \<Rightarrow> bool" where
  enter: "pcs t = Outside \<Longrightarrow> spin_step (pcs, s) (pcs(t := Fast 0), s)"
| spin: "pcs t \<notin> {Outside, Holding} \<Longrightarrow> Lock (pcs t) s = (pc, s') \<Longrightarrow> spin_step (pcs, s) (pcs(t := pc), s')"
| unlock: "pcs t = Holding \<Longrightarrow> spin_step (pcs, s) (pcs(t := Outside), Unlock s)"

inductive_cases spin_stepE: "spin_step c c'"

definition spin_init :: "('t \<Rightarrow> lock_pc) \<times> 32 word" where
  "spin_init = (\<lambda>_. Outside, newSpinLock)"

definition spin_reachable :: "('t \<Rightarrow> lock_pc) \<times> 32 word \<Rightarrow> bool" where
  "spin_reachable c \<longleftrightarrow> spin_step\<^sup>*\<^sup>* spin_init c"

section \<open>Invariant\<close>

text \<open>The counters of a thread stay within the constants, and the backoff is the capped power of two.\<close>

fun pc_ok :: "lock_pc \<Rightarrow> bool" where
  "pc_ok (Fast i) = (i < fastSpin)"
| "pc_ok (FastYield i) = (i < fastSpin)"
| "pc_ok (Slow r b) = (r < maxRounds \<and> b = min (2 ^ r) maxBackoff)"
| "pc_ok (SlowYield r b i) = (r < maxRounds \<and> b = min (2 ^ r) maxBackoff \<and> i \<le> b)"
| "pc_ok _ = True"

definition holders :: "('t \<Rightarrow> lock_pc) \<Rightarrow> 't set" where
  "holders pcs = {t. pcs t = Holding}"

definition spin_inv :: "('t \<Rightarrow> lock_pc) \<times> 32 word \<Rightarrow> bool" where
  "spin_inv c \<longleftrightarrow> (snd c = 0 \<and> holders (fst c) = {} \<or> snd c = 1 \<and> (\<exists>t. holders (fst c) = {t}))
     \<and> (\<forall>t. pc_ok (fst c t))"

lemma holders_upd: "holders (pcs(t := pc)) = (if pc = Holding then insert t (holders pcs) else holders pcs - {t})"
  by (auto simp: holders_def)

lemma backoff_double:
  "(if min (2 ^ r) 16 < (16 :: nat) then min (2 ^ r) 16 * 2 else min (2 ^ r) 16) = min (2 ^ Suc r) (16 :: nat)"
proof (cases "r < 4")
  case True
  then have "r \<in> {0, 1, 2, 3}" by auto
  then show ?thesis by auto
next
  case False
  then have "(2 :: nat) ^ 4 \<le> 2 ^ r" by (intro power_increasing) auto
  then show ?thesis by simp
qed

lemma nextSlow_ok: "pc_ok (nextSlow r (min (2 ^ r) maxBackoff))"
proof (cases "r + 1 < maxRounds")
  case True
  then have "nextSlow r (min (2 ^ r) maxBackoff) = Slow (Suc r) (min (2 ^ Suc r) maxBackoff)"
    unfolding nextSlow_def Let_def maxBackoff_def backoff_double by simp
  with True show ?thesis by simp
qed (simp add: nextSlow_def Let_def)

lemma Lock_pc_ok:
  assumes "pc_ok pc" "Lock pc s = (pc', s')"
  shows "pc_ok pc'"
proof (cases pc)
  case (SlowYield r b i)
  with assms show ?thesis using nextSlow_ok [of r] by (auto split: if_splits)
qed (use assms in \<open>auto simp: nextFast_def cas_def fastSpin_def maxRounds_def maxBackoff_def split: if_splits\<close>)

lemma Lock_won:
  assumes "Lock pc s = (pc', s')" "pc \<notin> {Outside, Holding}"
  shows "pc' = Holding \<and> s = 0 \<and> s' = 1 \<or> pc' \<noteq> Holding \<and> s' = s"
  using assms by (cases pc) (auto simp: cas_def nextFast_def nextSlow_def Let_def split: if_splits)

lemma spin_inv_step: "spin_step c c' \<Longrightarrow> spin_inv c \<Longrightarrow> spin_inv c'"
proof (induction rule: spin_step.induct)
  case (enter pcs t s)
  then have "t \<notin> holders pcs" by (simp add: holders_def)
  with enter show ?case by (auto simp: spin_inv_def holders_upd fastSpin_def)
next
  case (spin pcs t s pc s')
  have "pc_ok (pcs t)" using spin(3) by (simp add: spin_inv_def)
  from Lock_pc_ok [OF this spin(2)] have ok: "pc_ok pc" .
  have "t \<notin> holders pcs" using spin(1) by (simp add: holders_def)
  with Lock_won [OF spin(2,1)] spin(3) ok show ?case by (auto simp: spin_inv_def holders_upd)
next
  case (unlock pcs t s)
  then have "t \<in> holders pcs" by (simp add: holders_def)
  with unlock show ?case by (auto simp: spin_inv_def holders_upd Unlock_def)
qed

lemma spin_inv_init: "spin_inv spin_init"
  by (simp add: spin_inv_def spin_init_def newSpinLock_def holders_def)

lemma spin_inv_reachable:
  assumes "spin_reachable c"
  shows "spin_inv c"
  using assms unfolding spin_reachable_def
  by (induction rule: rtranclp_induct) (simp_all add: spin_inv_init spin_inv_step)

section \<open>Progress\<close>

text \<open>What is left of a backoff pause before the next attempt.\<close>

fun pause_left :: "lock_pc \<Rightarrow> nat" where
  "pause_left (FastYield i) = 1"
| "pause_left (SlowYield r b i) = b - i + 1"
| "pause_left WaitYield = 1"
| "pause_left _ = 0"

lemma pause_step:
  assumes "0 < pause_left pc"
  shows "snd (Lock pc s) = s" "pause_left (fst (Lock pc s)) = pause_left pc - 1"
    "fst (Lock pc s) \<notin> {Outside, Holding}"
  using assms by (cases pc; auto simp: nextFast_def nextSlow_def Let_def)+

fun Lock_steps :: "nat \<Rightarrow> lock_pc \<times> 32 word \<Rightarrow> lock_pc \<times> 32 word" where
  "Lock_steps 0 c = c"
| "Lock_steps (Suc n) (pc, s) = Lock_steps n (Lock pc s)"

lemma Lock_free:
  assumes "pc \<notin> {Outside, Holding}" "pause_left pc = 0"
  shows "Lock pc 0 = (Holding, 1)"
  using assms by (cases pc) (auto simp: cas_def)

lemma Lock_acquires:
  "pc \<notin> {Outside, Holding} \<Longrightarrow> Lock_steps (Suc (pause_left pc)) (pc, 0) = (Holding, 1)"
proof (induction "pause_left pc" arbitrary: pc)
  case 0
  then show ?case using Lock_free [of pc] by simp
next
  case (Suc n)
  then have p: "0 < pause_left pc" by simp
  from pause_step [OF p, of 0] obtain pc' where
    pc': "Lock pc 0 = (pc', 0)" "pause_left pc' = n" "pc' \<notin> {Outside, Holding}"
    using Suc.hyps(2) by (cases "Lock pc 0") auto
  with Suc.hyps(1) [of pc'] Suc.hyps(2) show ?case by simp
qed

lemma pause_bound: "pc_ok pc \<Longrightarrow> pause_left pc \<le> 17"
  by (cases pc) (auto simp: maxBackoff_def)

section \<open>A concrete run\<close>

lemma spin_one_waiter: "spin_reachable ((\<lambda>_ :: nat. Outside)(3 := Fast 0), 0)"
  unfolding spin_reachable_def spin_init_def newSpinLock_def by (intro r_into_rtranclp spin_step.enter) simp

lemma spin_one_holder: "spin_reachable ((\<lambda>_ :: nat. Outside)(3 := Holding), 1)"
proof -
  have "spin_step ((\<lambda>_ :: nat. Outside)(3 := Fast 0), 0) (((\<lambda>_ :: nat. Outside)(3 := Fast 0))(3 := Holding), 1)"
    by (rule spin_step.spin) (simp_all add: cas_def)
  with spin_one_waiter show ?thesis unfolding spin_reachable_def by (auto intro: rtranclp.rtrancl_into_rtrancl)
qed

section \<open>Properties\<close>

text \<open>
  C32.  Mutual exclusion: in every interleaving of any number of threads, at most one thread is between
  its \<open>Lock\<close> and its \<open>Unlock\<close>, and the lock word is 1 exactly while one is.
\<close>

theorem spinLock_mutual_exclusion:
  assumes "spin_reachable (pcs, s)"
  shows "(pcs t = Holding \<and> pcs u = Holding \<longrightarrow> t = u) \<and> (s = 0 \<or> s = 1) \<and> (s = 1 \<longleftrightarrow> (\<exists>t. pcs t = Holding))"
proof -
  have "s = 0 \<and> holders pcs = {} \<or> s = 1 \<and> (\<exists>v. holders pcs = {v})"
    using spin_inv_reachable [OF assms] by (simp add: spin_inv_def)
  moreover have "v \<in> holders pcs \<longleftrightarrow> pcs v = Holding" for v by (simp add: holders_def)
  ultimately show ?thesis by (metis empty_iff singleton_iff zero_neq_one)
qed

theorem spinLock_mutual_exclusion_witness:
  "(1 :: 32 word) = 0 \<or> (1 :: 32 word) = 1 \<and> (\<exists>t. ((\<lambda>_ :: nat. Outside)(3 := Holding)) t = Holding)"
  using spinLock_mutual_exclusion [OF spin_one_holder, of 3 3] by blast

text \<open>
  C33.  No lost lock and bounded pauses: whenever the lock is free, a waiting thread that runs undisturbed
  holds it after at most 18 steps, whatever phase of the backoff it is in.
\<close>

theorem spinLock_progress:
  assumes "spin_reachable (pcs, 0)" "pcs t \<notin> {Outside, Holding}"
  shows "\<exists>n \<le> 18. Lock_steps n (pcs t, 0) = (Holding, 1)"
proof -
  have "pc_ok (pcs t)" using spin_inv_reachable [OF assms(1)] by (simp add: spin_inv_def)
  then have "Suc (pause_left (pcs t)) \<le> 18" using pause_bound by fastforce
  with Lock_acquires [OF assms(2)] show ?thesis by blast
qed

theorem spinLock_progress_witness:
  "\<exists>n \<le> 18. Lock_steps n (((\<lambda>_ :: nat. Outside)(3 := Fast 0)) 3, 0) = (Holding, 1)"
  using spinLock_progress [OF spin_one_waiter, of 3] by simp

end
