(* ===== verification/Task_Context.thy ===== *)
theory Task_Context
  imports Go_Prelude
begin

text \<open>
  The per-task \<open>Context\<close> of \<open>internal/context/context.go\<close> and \<open>internal/context/utils.go\<close>: labels, the chain of
  \<open>Value\<close> lookups, reuse through a \<open>sync.Pool\<close>, trace ids and latencies.

  A \<open>*Context\<close> is an address into a store; a context of the standard library is a term over addresses
  (\<open>context.Background\<close>, \<open>WithValue\<close>, and \<open>WithCancel\<close> or \<open>WithTimeout\<close>, which only delegate lookups), and a context
  implemented elsewhere is the function its \<open>Value\<close> computes.  A chain may be cyclic once a released context is used
  again, so the lookup is a partial function; \<open>None\<close> is a panic or a lookup that does not return.
\<close>

section \<open>Values, keys and contexts\<close>

datatype 'v any = AnyNil | Str string | TimeVal go_time | Empty | CtxPtr nat | Other 'v

datatype 'k key = StrKey string | poolContextKey | OtherKey 'k

datatype ('k, 'v) gctx =
    NilCtx
  | Background
  | WithValue "('k, 'v) gctx" "'k key" "'v any"
  | WithCancel "('k, 'v) gctx"
  | Foreign "'k key \<Rightarrow> 'v any"
  | PoolCtx nat

record ('k, 'v) Context =
  embedded :: "('k, 'v) gctx"
  labels :: "string \<Rightarrow> 'v any option"

definition LabelTraceID :: string where "LabelTraceID = ''trace_id''"
definition LabelTiming :: string where "LabelTiming = ''_timing''"
definition LabelTimingSubmitted :: string where "LabelTimingSubmitted = ''_timing_submitted''"
definition LabelTimingEnqueued :: string where "LabelTimingEnqueued = ''_timing_enqueued''"
definition LabelTimingStarted :: string where "LabelTimingStarted = ''_timing_started''"
definition LabelTimingCompleted :: string where "LabelTimingCompleted = ''_timing_completed''"

section \<open>Labels\<close>

definition Store :: "string \<Rightarrow> 'v any \<Rightarrow> ('k, 'v) Context \<Rightarrow> ('k, 'v) Context" where
  "Store key v c = c\<lparr>labels := (labels c)(key := Some v)\<rparr>"

definition Get :: "('k, 'v) Context \<Rightarrow> string \<Rightarrow> 'v any \<times> bool" where
  "Get c key = (case labels c key of Some v \<Rightarrow> (v, True) | None \<Rightarrow> (AnyNil, False))"

definition GetString :: "('k, 'v) Context \<Rightarrow> string \<Rightarrow> string" where
  "GetString c key = (case labels c key of Some (Str s) \<Rightarrow> s | _ \<Rightarrow> [])"

definition GetTime :: "('k, 'v) Context \<Rightarrow> string \<Rightarrow> go_time" where
  "GetTime c key = (case labels c key of Some (TimeVal t) \<Rightarrow> t | _ \<Rightarrow> time_zero)"

text \<open>\<open>Reset\<close> deletes every key that is present.\<close>

definition Reset :: "('k, 'v) Context \<Rightarrow> ('k, 'v) Context" where
  "Reset c = c\<lparr>labels := (\<lambda>k. if labels c k \<noteq> None then None else labels c k)\<rparr>"

section \<open>The store of contexts and the pool of released ones\<close>

record ('k, 'v) ctx_store =
  objs :: "nat \<Rightarrow> ('k, 'v) Context option"
  contextPool :: "nat list"
  nextObj :: nat

definition new_store :: "('k, 'v) ctx_store" where
  "new_store = \<lparr>objs = Map.empty, contextPool = [], nextObj = 0\<rparr>"

definition upd_ctx :: "nat \<Rightarrow> (('k, 'v) Context \<Rightarrow> ('k, 'v) Context) \<Rightarrow> ('k, 'v) ctx_store \<Rightarrow> ('k, 'v) ctx_store" where
  "upd_ctx r f st = st\<lparr>objs := (objs st)(r := map_option f (objs st r))\<rparr>"

text \<open>
  \<open>sync.Pool.Get\<close> hands out any pooled object or makes a new one: \<open>pick\<close> is its choice.
\<close>

definition contextPool_Get :: "nat option \<Rightarrow> ('k, 'v) ctx_store \<Rightarrow> nat \<times> ('k, 'v) ctx_store" where
  "contextPool_Get pick st =
     (case pick of
        Some i \<Rightarrow>
          if i < length (contextPool st)
          then (contextPool st ! i, st\<lparr>contextPool := take i (contextPool st) @ drop (Suc i) (contextPool st)\<rparr>)
          else (nextObj st, st\<lparr>objs := (objs st)(nextObj st \<mapsto> \<lparr>embedded = NilCtx, labels = Map.empty\<rparr>), nextObj := Suc (nextObj st)\<rparr>)
      | None \<Rightarrow> (nextObj st, st\<lparr>objs := (objs st)(nextObj st \<mapsto> \<lparr>embedded = NilCtx, labels = Map.empty\<rparr>), nextObj := Suc (nextObj st)\<rparr>))"

definition NewContext :: "nat option \<Rightarrow> ('k, 'v) gctx \<Rightarrow> ('k, 'v) ctx_store \<Rightarrow> nat \<times> ('k, 'v) ctx_store" where
  "NewContext pick parent st =
     (let parent = (case parent of NilCtx \<Rightarrow> Background | _ \<Rightarrow> parent);
          (r, st) = contextPool_Get pick st
      in (r, upd_ctx r (\<lambda>c. c\<lparr>embedded := WithValue parent poolContextKey (CtxPtr r)\<rparr>) st))"

definition Release :: "nat \<Rightarrow> ('k, 'v) ctx_store \<Rightarrow> ('k, 'v) ctx_store" where
  "Release r st =
     (let st = upd_ctx r (\<lambda>c. (Reset c)\<lparr>embedded := NilCtx\<rparr>) st
      in st\<lparr>contextPool := r # contextPool st\<rparr>)"

section \<open>Lookup\<close>

text \<open>
  \<open>Context.Value\<close>: a string key is looked up in the labels first; then, as for every other key, the embedded context
  answers.  A method call on a nil context panics.
\<close>

definition own_label :: "('k, 'v) Context \<Rightarrow> 'k key \<Rightarrow> 'v any option" where
  "own_label c key = (case key of StrKey k \<Rightarrow> labels c k | _ \<Rightarrow> None)"

partial_function (option) Value :: "('k, 'v) ctx_store \<Rightarrow> ('k, 'v) gctx \<Rightarrow> 'k key \<Rightarrow> 'v any option" where
  "Value st ctx key =
     (case ctx of
        NilCtx \<Rightarrow> None
      | Background \<Rightarrow> Some AnyNil
      | WithValue parent k v \<Rightarrow> if k = key then Some v else Value st parent key
      | WithCancel parent \<Rightarrow> Value st parent key
      | Foreign f \<Rightarrow> Some (f key)
      | PoolCtx r \<Rightarrow>
          (case objs st r of
             None \<Rightarrow> None
           | Some c \<Rightarrow> (case own_label c key of Some v \<Rightarrow> Some v | None \<Rightarrow> Value st (embedded c) key)))"

text \<open>\<open>PoolContextFrom\<close> returns a pointer or nil; the outer option is the panic on a nil context.\<close>

definition PoolContextFrom :: "('k, 'v) ctx_store \<Rightarrow> ('k, 'v) gctx \<Rightarrow> nat option option" where
  "PoolContextFrom st ctx =
     (case ctx of
        PoolCtx r \<Rightarrow> Some (Some r)
      | _ \<Rightarrow> (case Value st ctx poolContextKey of
               None \<Rightarrow> None
             | Some (CtxPtr r) \<Rightarrow> Some (Some r)
             | Some _ \<Rightarrow> Some None))"

section \<open>Trace ids\<close>

definition EncodeToString :: "8 word list \<Rightarrow> string" where
  "EncodeToString bs = concat (map (\<lambda>b. [hexDigits ! (unat b div 16), hexDigits ! (unat b mod 16)]) bs)"

text \<open>\<open>newTraceID\<close>, given what \<open>rand.Read\<close> returns: an error or the sixteen bytes it has filled.\<close>

definition newTraceID :: "'e + 8 word list \<Rightarrow> 'e + string" where
  "newTraceID rnd = (case rnd of Inl e \<Rightarrow> Inl e | Inr b \<Rightarrow> Inr (EncodeToString b))"

definition trace_label :: "('k, 'v) Context \<Rightarrow> string option" where
  "trace_label c = (case labels c LabelTraceID of Some (Str s) \<Rightarrow> if s \<noteq> [] then Some s else None | _ \<Rightarrow> None)"

text \<open>
  \<open>TraceID\<close> generates the id outside the lock: \<open>other\<close> is what the goroutines that hold the lock in between do to
  the context.  \<open>TraceID_publish\<close> is the second critical section.
\<close>

definition TraceID_publish :: "string \<Rightarrow> ('k, 'v) Context \<Rightarrow> string \<times> ('k, 'v) Context" where
  "TraceID_publish s c =
     (case trace_label c of
        Some existing \<Rightarrow> (existing, c)
      | None \<Rightarrow> (s, c\<lparr>labels := (labels c)(LabelTraceID \<mapsto> Str s)\<rparr>))"

definition TraceID :: "'e + 8 word list \<Rightarrow> (('k, 'v) Context \<Rightarrow> ('k, 'v) Context) \<Rightarrow> ('k, 'v) Context \<Rightarrow> ('e + string) \<times> ('k, 'v) Context" where
  "TraceID rnd other c =
     (case trace_label c of
        Some s \<Rightarrow> (Inr s, c)
      | None \<Rightarrow>
          (let c = other c in
           case newTraceID rnd of
             Inl e \<Rightarrow> (Inl e, c)
           | Inr s \<Rightarrow> (let (r, c) = TraceID_publish s c in (Inr r, c))))"

definition SetTraceID :: "string \<Rightarrow> ('k, 'v) Context \<Rightarrow> ('k, 'v) Context" where
  "SetTraceID s c = Store LabelTraceID (Str s) c"

section \<open>Timing\<close>

definition EnableTiming :: "('k, 'v) Context \<Rightarrow> ('k, 'v) Context" where
  "EnableTiming c = Store LabelTiming Empty c"

definition IsTimingEnabled :: "('k, 'v) Context \<Rightarrow> bool" where
  "IsTimingEnabled c = snd (Get c LabelTiming)"

definition Timing :: "('k, 'v) Context \<Rightarrow> go_time \<times> go_time \<times> go_time \<times> go_time" where
  "Timing c = (GetTime c LabelTimingSubmitted, GetTime c LabelTimingEnqueued,
     GetTime c LabelTimingStarted, GetTime c LabelTimingCompleted)"

definition Duration :: "go_time \<Rightarrow> ('k, 'v) Context \<Rightarrow> duration" where
  "Duration now c =
     (let start = GetTime c LabelTimingStarted
      in if start = time_zero then 0 else time_sub now start)"

definition TotalLatency :: "('k, 'v) Context \<Rightarrow> duration" where
  "TotalLatency c =
     (let (submitted, _, _, completed) = Timing c
      in if submitted = time_zero \<or> completed = time_zero then 0 else time_sub completed submitted)"

definition QueueLatency :: "('k, 'v) Context \<Rightarrow> duration" where
  "QueueLatency c =
     (let (submitted, _, started, _) = Timing c
      in if submitted = time_zero \<or> started = time_zero then 0 else time_sub started submitted)"

definition ExecLatency :: "('k, 'v) Context \<Rightarrow> duration" where
  "ExecLatency c =
     (let (_, _, started, completed) = Timing c
      in if started = time_zero \<or> completed = time_zero then 0 else time_sub completed started)"

definition HandoffLatency :: "('k, 'v) Context \<Rightarrow> duration" where
  "HandoffLatency c =
     (let (submitted, enqueued, _, _) = Timing c
      in if submitted = time_zero \<or> enqueued = time_zero then 0 else time_sub enqueued submitted)"

definition QueueWaitLatency :: "('k, 'v) Context \<Rightarrow> duration" where
  "QueueWaitLatency c =
     (let (_, enqueued, started, _) = Timing c
      in if enqueued = time_zero \<or> started = time_zero then 0 else time_sub started enqueued)"

section \<open>What a provider of contexts promises\<close>

text \<open>
  A client that follows \<open>Release\<close>'s rule uses a context only until it releases it.  For such clients, creating a
  context gives one without labels that no other live handle shares, and every write and release concerns one
  context only; the reuse of released objects is not observable.
\<close>

locale context_provider =
  fixes inv :: "'s \<Rightarrow> bool" and live :: "'s \<Rightarrow> nat \<Rightarrow> bool" and lab :: "'s \<Rightarrow> nat \<Rightarrow> string \<Rightarrow> 'v option"
    and create :: "'p \<Rightarrow> 's \<Rightarrow> nat \<times> 's" and put :: "nat \<Rightarrow> string \<Rightarrow> 'v \<Rightarrow> 's \<Rightarrow> 's" and release :: "nat \<Rightarrow> 's \<Rightarrow> 's"
  assumes create: "inv s \<Longrightarrow> create p s = (r, s') \<Longrightarrow> inv s' \<and> \<not> live s r \<and> live s' = (live s)(r := True) \<and> lab s' r = Map.empty
      \<and> (\<forall>q. live s q \<longrightarrow> lab s' q = lab s q)"
    and put: "inv s \<Longrightarrow> live s r \<Longrightarrow> inv (put r k v s) \<and> live (put r k v s) = live s
      \<and> lab (put r k v s) = (lab s)(r := (lab s r)(k \<mapsto> v))"
    and release: "inv s \<Longrightarrow> live s r \<Longrightarrow> inv (release r s) \<and> live (release r s) = (live s)(r := False)
      \<and> (\<forall>q. q \<noteq> r \<longrightarrow> lab (release r s) q = lab s q)"

text \<open>Clients name contexts by the order of creation and keep a pointer for each until they release it.\<close>

datatype ('p, 'v) ctx_op = CNew 'p | CStore nat string 'v | CGet nat string | CRelease nat

fun ctx_client :: "('s \<Rightarrow> nat \<Rightarrow> string \<Rightarrow> 'v option) \<Rightarrow> ('p \<Rightarrow> 's \<Rightarrow> nat \<times> 's) \<Rightarrow> (nat \<Rightarrow> string \<Rightarrow> 'v \<Rightarrow> 's \<Rightarrow> 's) \<Rightarrow> (nat \<Rightarrow> 's \<Rightarrow> 's) \<Rightarrow>
    ('p, 'v) ctx_op list \<Rightarrow> nat \<Rightarrow> (nat \<Rightarrow> nat option) \<Rightarrow> 's \<Rightarrow> 'v option list" where
  "ctx_client lab create put release [] n hs s = []"
| "ctx_client lab create put release (CNew p # ops) n hs s =
     (let (r, s') = create p s in ctx_client lab create put release ops (Suc n) (hs(n \<mapsto> r)) s')"
| "ctx_client lab create put release (CStore i k v # ops) n hs s =
     (case hs i of Some r \<Rightarrow> ctx_client lab create put release ops n hs (put r k v s)
                 | None \<Rightarrow> ctx_client lab create put release ops n hs s)"
| "ctx_client lab create put release (CGet i k # ops) n hs s =
     (case hs i of Some r \<Rightarrow> lab s r k # ctx_client lab create put release ops n hs s
                 | None \<Rightarrow> ctx_client lab create put release ops n hs s)"
| "ctx_client lab create put release (CRelease i # ops) n hs s =
     (case hs i of Some r \<Rightarrow> ctx_client lab create put release ops n (hs(i := None)) (release r s)
                 | None \<Rightarrow> ctx_client lab create put release ops n hs s)"

fun client_spec :: "('p, 'v) ctx_op list \<Rightarrow> nat \<Rightarrow> (nat \<Rightarrow> (string \<Rightarrow> 'v option) option) \<Rightarrow> 'v option list" where
  "client_spec [] n ms = []"
| "client_spec (CNew p # ops) n ms = client_spec ops (Suc n) (ms(n \<mapsto> Map.empty))"
| "client_spec (CStore i k v # ops) n ms = (case ms i of Some m \<Rightarrow> client_spec ops n (ms(i \<mapsto> m(k \<mapsto> v))) | None \<Rightarrow> client_spec ops n ms)"
| "client_spec (CGet i k # ops) n ms = (case ms i of Some m \<Rightarrow> m k # client_spec ops n ms | None \<Rightarrow> client_spec ops n ms)"
| "client_spec (CRelease i # ops) n ms = (case ms i of Some m \<Rightarrow> client_spec ops n (ms(i := None)) | None \<Rightarrow> client_spec ops n ms)"

context context_provider
begin

abbreviation client :: "('p, 'v) ctx_op list \<Rightarrow> nat \<Rightarrow> (nat \<Rightarrow> nat option) \<Rightarrow> 's \<Rightarrow> 'v option list" where
  "client \<equiv> ctx_client lab create put release"

definition sim :: "'s \<Rightarrow> (nat \<Rightarrow> nat option) \<Rightarrow> (nat \<Rightarrow> (string \<Rightarrow> 'v option) option) \<Rightarrow> bool" where
  "sim s hs ms \<longleftrightarrow> inv s \<and> (\<forall>i. ms i = map_option (lab s) (hs i)) \<and> (\<forall>i r. hs i = Some r \<longrightarrow> live s r)
     \<and> (\<forall>i j r. hs i = Some r \<longrightarrow> hs j = Some r \<longrightarrow> i = j)"

lemma sim_new:
  assumes "sim s hs ms" "create p s = (r, s')"
  shows "sim s' (hs(n \<mapsto> r)) (ms(n \<mapsto> Map.empty))"
proof -
  have i: "inv s" and l: "\<And>i q. hs i = Some q \<Longrightarrow> live s q" using assms(1) by (simp_all add: sim_def)
  note c = create [OF i assms(2)]
  have "hs j \<noteq> Some r" for j using l c by blast
  moreover have "map_option (lab s') (hs j) = map_option (lab s) (hs j)" for j
    using l [of j] c by (cases "hs j") auto
  ultimately show ?thesis using assms(1) c unfolding sim_def by auto
qed

lemma sim_store:
  assumes "sim s hs ms" "hs i = Some r"
  shows "sim (put r k v s) hs (ms(i \<mapsto> (lab s r)(k \<mapsto> v)))"
proof -
  have "live s r" "inv s" using assms by (auto simp: sim_def)
  note w = put [OF this(2,1), of k v]
  have "hs j \<noteq> Some r" if "j \<noteq> i" for j using that assms unfolding sim_def by blast
  then have "map_option ((lab s)(r := (lab s r)(k \<mapsto> v))) (hs j) = (ms(i \<mapsto> (lab s r)(k \<mapsto> v))) j" for j
    using assms unfolding sim_def by (cases "hs j"; cases "j = i") auto
  then show ?thesis using assms(1) w unfolding sim_def by simp
qed

lemma sim_release:
  assumes "sim s hs ms" "hs i = Some r"
  shows "sim (release r s) (hs(i := None)) (ms(i := None))"
proof -
  have "live s r" "inv s" using assms by (auto simp: sim_def)
  note w = release [OF this(2,1)]
  have ne: "hs j \<noteq> Some r" if "j \<noteq> i" for j using that assms unfolding sim_def by blast
  have "map_option (lab (release r s)) (hs j) = ms j" if "j \<noteq> i" for j
    using ne [OF that] assms(1) w unfolding sim_def by (cases "hs j") auto
  moreover have "live (release r s) q" if "(hs(i := None)) j = Some q" for j q
    using that ne [of j] assms(1) w unfolding sim_def by (cases "j = i") auto
  moreover have "inv (release r s)" "\<And>j k q. (hs(i := None)) j = Some q \<Longrightarrow> (hs(i := None)) k = Some q \<Longrightarrow> j = k"
    using assms(1) w unfolding sim_def by (auto split: if_splits)
  ultimately show ?thesis unfolding sim_def by (metis fun_upd_apply option.map(1))
qed

lemma client_refines: "sim s hs ms \<Longrightarrow> client ops n hs s = client_spec ops n ms"
proof (induction ops arbitrary: n s hs ms)
  case (Cons a ops)
  have ms: "ms i = map_option (lab s) (hs i)" for i using Cons.prems by (simp add: sim_def)
  show ?case
  proof (cases a)
    case (CNew p)
    obtain r s' where c: "create p s = (r, s')" by fastforce
    from Cons.IH [OF sim_new [OF Cons.prems c, of n], of "Suc n"] show ?thesis unfolding CNew by (simp only: ctx_client.simps client_spec.simps c Let_def prod.case)
  next
    case (CStore i k v)
    with ms [of i] Cons.IH [OF Cons.prems] Cons.IH [OF sim_store [OF Cons.prems], of i _ n k v] show ?thesis
      by (cases "hs i") (simp_all add: fun_upd_def)
  next
    case (CGet i k)
    with Cons ms [of i] show ?thesis by (cases "hs i") simp_all
  next
    case (CRelease i)
    with ms [of i] Cons.IH [OF Cons.prems] Cons.IH [OF sim_release [OF Cons.prems], of i _ n] show ?thesis
      by (cases "hs i") (simp_all add: fun_upd_def)
  qed
qed simp

lemma client_from_start: "inv s \<Longrightarrow> client ops 0 Map.empty s = client_spec ops 0 Map.empty"
  by (rule client_refines) (simp add: sim_def)

end

section \<open>The pooled contexts keep the promise\<close>

definition ctx_live :: "('k, 'v) ctx_store \<Rightarrow> nat \<Rightarrow> bool" where
  "ctx_live st r \<longleftrightarrow> r < nextObj st \<and> r \<notin> set (contextPool st)"

definition ctx_labels :: "('k, 'v) ctx_store \<Rightarrow> nat \<Rightarrow> string \<Rightarrow> 'v any option" where
  "ctx_labels st r = (case objs st r of Some c \<Rightarrow> labels c | None \<Rightarrow> Map.empty)"

definition ctx_inv :: "('k, 'v) ctx_store \<Rightarrow> bool" where
  "ctx_inv st \<longleftrightarrow> distinct (contextPool st) \<and> (\<forall>r. r < nextObj st \<longleftrightarrow> objs st r \<noteq> None)
     \<and> (\<forall>r \<in> set (contextPool st). objs st r = Some \<lparr>embedded = NilCtx, labels = Map.empty\<rparr>)"

lemma new_store_inv: "ctx_inv new_store"
  by (simp add: ctx_inv_def new_store_def)

lemma Reset_labels [simp]: "labels (Reset c) = Map.empty" "embedded (Reset c) = embedded c"
  by (auto simp: Reset_def)

lemma remove_mid: "distinct (ys @ y # zs) \<Longrightarrow> set (ys @ zs) = set (ys @ y # zs) - {y} \<and> distinct (ys @ zs)"
  by auto

lemma remove_nth:
  assumes "i < length xs" "distinct xs"
  shows "set (take i xs @ drop (Suc i) xs) = set xs - {xs ! i} \<and> distinct (take i xs @ drop (Suc i) xs)"
  using remove_mid [of "take i xs" "xs ! i" "drop (Suc i) xs"] assms id_take_nth_drop [OF assms(1)] by simp

text \<open>Either way \<open>sync.Pool\<close> hands out an object that is not in use and carries nothing of an earlier use.\<close>

definition fresh_object :: "('k, 'v) ctx_store \<Rightarrow> nat \<Rightarrow> ('k, 'v) ctx_store \<Rightarrow> bool" where
  "fresh_object st r st' \<longleftrightarrow> ctx_inv st' \<and> \<not> ctx_live st r \<and> ctx_live st' = (ctx_live st)(r := True)
     \<and> objs st' = (objs st)(r \<mapsto> \<lparr>embedded = NilCtx, labels = Map.empty\<rparr>)"

lemma recycled_fresh:
  assumes "ctx_inv st" "i < length (contextPool st)"
  shows "fresh_object st (contextPool st ! i) (st\<lparr>contextPool := take i (contextPool st) @ drop (Suc i) (contextPool st)\<rparr>)"
proof -
  let ?r = "contextPool st ! i"
  have r: "?r \<in> set (contextPool st)" using assms(2) by simp
  then have o: "objs st ?r = Some \<lparr>embedded = NilCtx, labels = Map.empty\<rparr>" and n: "?r < nextObj st"
    using assms(1) by (auto simp: ctx_inv_def)
  have "distinct (contextPool st)" using assms(1) by (simp add: ctx_inv_def)
  with remove_nth [OF assms(2)] r o n assms(1) show ?thesis
    by (auto simp: fresh_object_def ctx_inv_def ctx_live_def fun_eq_iff)
qed

lemma allocated_fresh:
  assumes "ctx_inv st"
  shows "fresh_object st (nextObj st)
    (st\<lparr>objs := (objs st)(nextObj st \<mapsto> \<lparr>embedded = NilCtx, labels = Map.empty\<rparr>), nextObj := Suc (nextObj st)\<rparr>)"
proof -
  have "r < nextObj st" if "r \<in> set (contextPool st)" for r using that assms by (auto simp: ctx_inv_def)
  then have "nextObj st \<notin> set (contextPool st)" by blast
  with assms show ?thesis by (auto simp: fresh_object_def ctx_inv_def ctx_live_def fun_eq_iff less_Suc_eq)
qed

lemma contextPool_Get_fresh: "ctx_inv st \<Longrightarrow> contextPool_Get pick st = (r, st') \<Longrightarrow> fresh_object st r st'"
  by (auto simp: contextPool_Get_def recycled_fresh allocated_fresh split: option.splits if_splits)

lemma upd_ctx_inv:
  assumes "ctx_inv st" "r \<notin> set (contextPool st)"
  shows "ctx_inv (upd_ctx r f st)" "ctx_live (upd_ctx r f st) = ctx_live st"
  using assms by (auto simp: ctx_inv_def ctx_live_def upd_ctx_def fun_eq_iff)

definition bg_parent :: "('k, 'v) gctx \<Rightarrow> ('k, 'v) gctx" where
  "bg_parent p = (case p of NilCtx \<Rightarrow> Background | _ \<Rightarrow> p)"

lemma NewContext_spec:
  assumes "ctx_inv st" "NewContext pick parent st = (r, st')"
  shows "ctx_inv st' \<and> \<not> ctx_live st r \<and> ctx_live st' = (ctx_live st)(r := True)
    \<and> objs st' = (objs st)(r \<mapsto> \<lparr>embedded = WithValue (bg_parent parent) poolContextKey (CtxPtr r), labels = Map.empty\<rparr>)"
proof -
  obtain st1 where g: "contextPool_Get pick st = (r, st1)"
    and s: "st' = upd_ctx r (\<lambda>c. c\<lparr>embedded := WithValue (bg_parent parent) poolContextKey (CtxPtr r)\<rparr>) st1"
    using assms(2) by (auto simp: NewContext_def bg_parent_def Let_def split: prod.splits)
  note f = contextPool_Get_fresh [OF assms(1) g]
  then have "ctx_live st1 r" by (simp add: fresh_object_def)
  then have "r \<notin> set (contextPool st1)" by (simp add: ctx_live_def)
  with f have "ctx_inv st'" "ctx_live st' = ctx_live st1" by (simp_all add: s fresh_object_def upd_ctx_inv)
  moreover have "objs st' = (objs st)(r \<mapsto> \<lparr>embedded = WithValue (bg_parent parent) poolContextKey (CtxPtr r), labels = Map.empty\<rparr>)"
    using f by (simp add: s fresh_object_def upd_ctx_def)
  ultimately show ?thesis using f by (simp add: fresh_object_def)
qed

lemma Release_spec:
  assumes "ctx_inv st" "ctx_live st r"
  shows "ctx_inv (Release r st) \<and> ctx_live (Release r st) = (ctx_live st)(r := False)
    \<and> objs (Release r st) = (objs st)(r \<mapsto> \<lparr>embedded = NilCtx, labels = Map.empty\<rparr>)"
proof -
  obtain c where "objs st r = Some c" using assms by (auto simp: ctx_inv_def ctx_live_def)
  moreover have "(Reset c)\<lparr>embedded := NilCtx\<rparr> = \<lparr>embedded = NilCtx, labels = Map.empty\<rparr>" for c :: "('a, 'b) Context"
    by (rule Context.equality) simp_all
  ultimately show ?thesis
    using assms by (auto simp: Release_def upd_ctx_def ctx_inv_def ctx_live_def fun_eq_iff Let_def)
qed

lemma Store_spec:
  assumes "ctx_inv st" "ctx_live st r"
  shows "ctx_inv (upd_ctx r (Store k v) st) \<and> ctx_live (upd_ctx r (Store k v) st) = ctx_live st
    \<and> ctx_labels (upd_ctx r (Store k v) st) = (ctx_labels st)(r := (ctx_labels st r)(k \<mapsto> v))"
proof -
  obtain c where "objs st r = Some c" using assms by (auto simp: ctx_inv_def ctx_live_def)
  moreover have "r \<notin> set (contextPool st)" using assms(2) by (simp add: ctx_live_def)
  ultimately have "ctx_labels (upd_ctx r (Store k v) st) = (ctx_labels st)(r := (ctx_labels st r)(k \<mapsto> v))"
    by (auto simp: upd_ctx_def ctx_labels_def Store_def fun_eq_iff)
  with \<open>r \<notin> set (contextPool st)\<close> show ?thesis by (simp add: upd_ctx_inv [OF assms(1)])
qed

interpretation pooled: context_provider ctx_inv ctx_live ctx_labels "\<lambda>(pick, parent). NewContext pick parent" "\<lambda>r k v. upd_ctx r (Store k v)" Release
proof unfold_locales
  fix s s' :: "('k, 'v) ctx_store" and p r
  assume "ctx_inv s" "(case p of (pick, parent) \<Rightarrow> NewContext pick parent) s = (r, s')"
  then show "ctx_inv s' \<and> \<not> ctx_live s r \<and> ctx_live s' = (ctx_live s)(r := True) \<and> ctx_labels s' r = Map.empty
      \<and> (\<forall>q. ctx_live s q \<longrightarrow> ctx_labels s' q = ctx_labels s q)"
    using NewContext_spec [of s "fst p" "snd p" r s'] by (cases p) (auto simp: ctx_labels_def)
next
  fix s :: "('k, 'v) ctx_store" and r
  assume "ctx_inv s" "ctx_live s r"
  then show "ctx_inv (Release r s) \<and> ctx_live (Release r s) = (ctx_live s)(r := False)
      \<and> (\<forall>q. q \<noteq> r \<longrightarrow> ctx_labels (Release r s) q = ctx_labels s q)"
    using Release_spec [of s r] by (auto simp: ctx_labels_def)
qed (rule Store_spec)

section \<open>Lookup through wrappers\<close>

text \<open>What a caller may put around a context before it reaches the pool: values under its own keys, cancellation, deadlines.\<close>

datatype ('k, 'v) wrapper = Val "'k key" "'v any" | Cancel

fun wrap :: "('k, 'v) wrapper list \<Rightarrow> ('k, 'v) gctx \<Rightarrow> ('k, 'v) gctx" where
  "wrap [] ctx = ctx"
| "wrap (Val k v # ws) ctx = WithValue (wrap ws ctx) k v"
| "wrap (Cancel # ws) ctx = WithCancel (wrap ws ctx)"

fun overrides :: "'k key \<Rightarrow> ('k, 'v) wrapper \<Rightarrow> bool" where
  "overrides key (Val k v) \<longleftrightarrow> k = key"
| "overrides key Cancel \<longleftrightarrow> False"

lemmas Value_simps [simp] = Value.simps [of _ NilCtx] Value.simps [of _ Background] Value.simps [of _ "WithValue p k v" for p k v]
  Value.simps [of _ "WithCancel p" for p] Value.simps [of _ "Foreign f" for f] Value.simps [of _ "PoolCtx r" for r]

lemma Value_wrap: "\<forall>w \<in> set ws. \<not> overrides key w \<Longrightarrow> Value st (wrap ws ctx) key = Value st ctx key"
proof (induction ws)
  case (Cons w ws)
  then show ?case by (cases w) auto
qed simp

lemma own_label_simps [simp]: "own_label c (StrKey k) = labels c k" "own_label c poolContextKey = None" "own_label c (OtherKey x) = None"
  by (simp_all add: own_label_def)

lemma PoolContextFrom_wrap:
  assumes "objs st r = Some c" "embedded c = WithValue parent poolContextKey (CtxPtr r)" "\<forall>w \<in> set ws. \<not> overrides poolContextKey w"
  shows "PoolContextFrom st (wrap ws (PoolCtx r)) = Some (Some r)"
proof (cases ws)
  case Nil
  then show ?thesis by (simp add: PoolContextFrom_def)
next
  case (Cons w ws')
  have "Value st (wrap ws (PoolCtx r)) poolContextKey = Some (CtxPtr r)"
    using Value_wrap [OF assms(3)] assms(1,2) by simp
  then show ?thesis using Cons by (cases w) (simp_all add: PoolContextFrom_def del: Value_simps)
qed

section \<open>Hexadecimal trace ids\<close>

text \<open>The reference decoder: the position of each digit, two digits a byte.\<close>

fun hexVal :: "char \<Rightarrow> nat option" where
  "hexVal ch = (let n = length (takeWhile (\<lambda>d. d \<noteq> ch) hexDigits) in if n < 16 then Some n else None)"

fun hexDecode :: "string \<Rightarrow> 8 word list option" where
  "hexDecode [] = Some []"
| "hexDecode [_] = None"
| "hexDecode (a # b # s) =
     (case (hexVal a, hexVal b, hexDecode s) of
        (Some i, Some j, Some bs) \<Rightarrow> Some (of_nat (16 * i + j) # bs)
      | _ \<Rightarrow> None)"

lemma hexVal_digits: "list_all (\<lambda>n. hexVal (hexDigits ! n) = Some n) [0..<16]"
  by code_simp

lemma hexVal_nth: "n < 16 \<Longrightarrow> hexVal (hexDigits ! n) = Some n"
  using hexVal_digits unfolding list_all_iff set_upt by (simp del: hexVal.simps)

lemma byte_digits: "unat (b :: 8 word) div 16 < 16" "unat b mod 16 < 16" "of_nat (16 * (unat b div 16) + unat b mod 16) = b"
proof -
  have "unat b < 256" using unsigned_less [of b] by simp
  then show "unat b div 16 < 16" "unat b mod 16 < 16" by simp_all
  show "of_nat (16 * (unat b div 16) + unat b mod 16) = b" by simp
qed

lemma hexDecode_Encode: "hexDecode (EncodeToString bs) = Some bs"
proof (induction bs)
  case (Cons b bs)
  have "hexDecode (EncodeToString (b # bs)) = (case (hexVal (hexDigits ! (unat b div 16)), hexVal (hexDigits ! (unat b mod 16)), hexDecode (EncodeToString bs)) of
        (Some i, Some j, Some bs) \<Rightarrow> Some (of_nat (16 * i + j) # bs) | _ \<Rightarrow> None)"
    by (simp add: EncodeToString_def del: hexVal.simps)
  then show ?case by (simp only: Cons.IH hexVal_nth byte_digits option.case prod.case)
qed (simp add: EncodeToString_def)

lemma length_Encode [simp]: "length (EncodeToString bs) = 2 * length bs"
  by (induction bs) (simp_all add: EncodeToString_def)

section \<open>Concurrent trace ids\<close>

text \<open>
  A call of \<open>TraceID\<close> by its next action: read the label, generate an id outside the lock, publish it; then it has
  returned an id or an error.  \<open>t_up\<close> is the id that was set from outside, if any.
\<close>

datatype caller = TCall | TGen | TPub string | TRet string | TErr

record ('k, 'v) trace_state =
  t_ctx :: "('k, 'v) Context"
  t_callers :: "caller multiset"
  t_up :: "string option"

inductive trace_step :: "('k, 'v) trace_state \<Rightarrow> ('k, 'v) trace_state \<Rightarrow> bool" where
  t_call: "trace_step g (g\<lparr>t_callers := add_mset TCall (t_callers g)\<rparr>)"
| t_hit: "t_callers g = add_mset TCall C \<Longrightarrow> trace_label (t_ctx g) = Some s \<Longrightarrow> trace_step g (g\<lparr>t_callers := add_mset (TRet s) C\<rparr>)"
| t_miss: "t_callers g = add_mset TCall C \<Longrightarrow> trace_label (t_ctx g) = None \<Longrightarrow> trace_step g (g\<lparr>t_callers := add_mset TGen C\<rparr>)"
| t_gen: "t_callers g = add_mset TGen C \<Longrightarrow> length b = 16 \<Longrightarrow> newTraceID (Inr b :: unit + 8 word list) = Inr s \<Longrightarrow>
    trace_step g (g\<lparr>t_callers := add_mset (TPub s) C\<rparr>)"
| t_fail: "t_callers g = add_mset TGen C \<Longrightarrow> trace_step g (g\<lparr>t_callers := add_mset TErr C\<rparr>)"
| t_publish: "t_callers g = add_mset (TPub s) C \<Longrightarrow> TraceID_publish s (t_ctx g) = (r, c') \<Longrightarrow>
    trace_step g (g\<lparr>t_ctx := c', t_callers := add_mset (TRet r) C\<rparr>)"
| t_store: "key \<noteq> LabelTraceID \<Longrightarrow> trace_step g (g\<lparr>t_ctx := Store key v (t_ctx g)\<rparr>)"
| t_set: "\<forall>s. TRet s \<notin># t_callers g \<Longrightarrow>
    trace_step g (g\<lparr>t_ctx := SetTraceID s (t_ctx g), t_up := trace_label (SetTraceID s (t_ctx g))\<rparr>)"

definition trace_init :: "('k, 'v) Context \<Rightarrow> ('k, 'v) trace_state" where
  "trace_init c = \<lparr>t_ctx = c, t_callers = {#}, t_up = trace_label c\<rparr>"

definition hex_id :: "string \<Rightarrow> bool" where
  "hex_id s \<longleftrightarrow> length s = 32 \<and> (\<exists>b. length b = 16 \<and> hexDecode s = Some b)"

text \<open>
  Once a caller has returned, the label is its id; a label that nobody set from outside was generated; what is about to be
  published was generated.
\<close>

definition trace_ok :: "('k, 'v) trace_state \<Rightarrow> bool" where
  "trace_ok g \<longleftrightarrow>
     (\<forall>s. TRet s \<in># t_callers g \<longrightarrow> trace_label (t_ctx g) = Some s)
     \<and> (case t_up g of
          Some u \<Rightarrow> trace_label (t_ctx g) = Some u
        | None \<Rightarrow> (\<forall>s. trace_label (t_ctx g) = Some s \<longrightarrow> hex_id s))
     \<and> (\<forall>s. TPub s \<in># t_callers g \<longrightarrow> hex_id s)"

lemma trace_label_Store: "key \<noteq> LabelTraceID \<Longrightarrow> trace_label (Store key v c) = trace_label c"
  by (simp add: trace_label_def Store_def)

lemma newTraceID_hex: "length b = 16 \<Longrightarrow> newTraceID (Inr b :: 'e + 8 word list) = Inr s \<Longrightarrow> hex_id s"
  by (auto simp: newTraceID_def hex_id_def hexDecode_Encode)

lemma publish_label:
  assumes "TraceID_publish s c = (r, c')" "hex_id s"
  shows "trace_label c' = Some r \<and> (trace_label c = Some r \<and> c' = c \<or> trace_label c = None \<and> r = s)"
proof -
  have "s \<noteq> []" using assms(2) by (auto simp: hex_id_def)
  with assms(1) show ?thesis by (auto simp: TraceID_publish_def trace_label_def split: option.splits any.splits if_splits)
qed

lemma trace_step_ok: "trace_step g g' \<Longrightarrow> trace_ok g \<Longrightarrow> trace_ok g'"
proof (induction rule: trace_step.induct)
  case (t_gen g C b s)
  with newTraceID_hex [OF t_gen(2,3)] show ?case by (auto simp: trace_ok_def split: option.splits)
next
  case (t_publish g s C r c')
  have "hex_id s" using t_publish(1,3) by (simp add: trace_ok_def)
  from publish_label [OF t_publish(2) this] this t_publish(1,3) show ?case
    by (auto simp: trace_ok_def split: option.splits)
next
  case (t_set g s)
  then show ?case by (auto simp: trace_ok_def split: option.splits)
qed (auto simp: trace_ok_def trace_label_Store split: option.splits)

lemma trace_reachable_ok: "trace_step\<^sup>*\<^sup>* (trace_init c) g \<Longrightarrow> trace_ok g"
proof (induction rule: rtranclp_induct)
  case base
  show ?case by (simp add: trace_ok_def trace_init_def split: option.split)
qed (rule trace_step_ok)

text \<open>A call of \<open>TraceID\<close> that is not interrupted is a run of these steps.\<close>

lemma TraceID_steps:
  assumes "TraceID (Inr b :: unit + 8 word list) id (t_ctx g) = (Inr s, c')" "length b = 16" "t_callers g = add_mset TCall C"
  shows "trace_step\<^sup>*\<^sup>* g (g\<lparr>t_ctx := c', t_callers := add_mset (TRet s) C\<rparr>)"
proof (cases "trace_label (t_ctx g)")
  case (Some r)
  with assms(1) have "s = r" "c' = t_ctx g" by (auto simp: TraceID_def)
  with t_hit [OF assms(3) Some] show ?thesis by auto
next
  case None
  obtain x where x: "newTraceID (Inr b :: unit + 8 word list) = Inr x" by (simp add: newTraceID_def)
  let ?g1 = "g\<lparr>t_callers := add_mset TGen C\<rparr>" and ?g2 = "g\<lparr>t_callers := add_mset (TPub x) C\<rparr>"
  have 1: "trace_step g ?g1" by (rule t_miss [OF assms(3) None])
  have 2: "trace_step ?g1 ?g2" using t_gen [of ?g1 C b x] assms(2) x by simp
  have "TraceID_publish x (t_ctx g) = (s, c')" using assms(1) None x by (auto simp: TraceID_def split: prod.splits)
  then have 3: "trace_step ?g2 (g\<lparr>t_ctx := c', t_callers := add_mset (TRet s) C\<rparr>)" using t_publish [of ?g2 x C s c'] by simp
  from 1 2 3 show ?thesis by (meson converse_rtranclp_into_rtranclp rtranclp.rtrancl_refl)
qed

definition blank_ctx :: "(unit, unit) Context" where
  "blank_ctx = \<lparr>embedded = Background, labels = Map.empty\<rparr>"

text \<open>Two callers; while the first is generating, the upstream id is set; it publishes too late, and the second one reads the label.\<close>

definition agreed :: "(unit, unit) trace_state" where
  "agreed = \<lparr>t_ctx = SetTraceID ''up'' blank_ctx, t_callers = {#TRet ''up'', TRet ''up''#}, t_up = Some ''up''\<rparr>"

lemma agreed_reachable: "trace_step\<^sup>*\<^sup>* (trace_init blank_ctx) agreed"
proof -
  let ?i = "EncodeToString (replicate 16 255)"
  let ?st = "\<lambda>C. \<lparr>t_ctx = blank_ctx, t_callers = C, t_up = None\<rparr> :: (unit, unit) trace_state"
  let ?up = "\<lambda>C. \<lparr>t_ctx = SetTraceID ''up'' blank_ctx, t_callers = C, t_up = Some ''up''\<rparr> :: (unit, unit) trace_state"
  have a: "trace_label blank_ctx = None" "trace_label (SetTraceID ''up'' blank_ctx) = Some ''up''"
    by (simp_all add: trace_label_def blank_ctx_def SetTraceID_def Store_def LabelTraceID_def)
  have n: "newTraceID (Inr (replicate 16 255) :: unit + 8 word list) = Inr ?i" by (simp add: newTraceID_def)
  have p: "TraceID_publish ?i (SetTraceID ''up'' blank_ctx) = (''up'', SetTraceID ''up'' blank_ctx)" by (simp add: TraceID_publish_def a)
  have i: "trace_init blank_ctx = ?st {#}" by (simp add: trace_init_def a)
  have t1: "trace_step (?st {#}) (?st {#TCall#})" using t_call [of "?st {#}"] by simp
  have t2: "trace_step (?st {#TCall#}) (?st {#TGen#})" using t_miss [of "?st {#TCall#}" "{#}"] a by simp
  have t3: "trace_step (?st {#TGen#}) (?st {#TPub ?i#})" using t_gen [of "?st {#TGen#}" "{#}" "replicate 16 255" ?i] n by simp
  have t4: "trace_step (?st {#TPub ?i#}) (?up {#TPub ?i#})" using t_set [of "?st {#TPub ?i#}" "''up''"] a by simp
  have t5: "trace_step (?up {#TPub ?i#}) (?up {#TCall, TPub ?i#})" using t_call [of "?up {#TPub ?i#}"] by simp
  have t6: "trace_step (?up {#TCall, TPub ?i#}) (?up {#TRet ''up'', TPub ?i#})"
    using t_hit [of "?up {#TCall, TPub ?i#}" "{#TPub ?i#}" "''up''"] a by simp
  have t7: "trace_step (?up {#TRet ''up'', TPub ?i#}) agreed"
    using t_publish [of "?up {#TRet ''up'', TPub ?i#}" ?i "{#TRet ''up''#}" "''up''"] p by (simp add: agreed_def add_mset_commute)
  show ?thesis unfolding i using t1 t2 t3 t4 t5 t6 t7 by (meson converse_rtranclp_into_rtranclp rtranclp.rtrancl_refl)
qed

section \<open>Recorded stages\<close>

datatype stage = Submitted | Enqueued | Started | Completed

fun stage_label :: "stage \<Rightarrow> string" where
  "stage_label Submitted = LabelTimingSubmitted"
| "stage_label Enqueued = LabelTimingEnqueued"
| "stage_label Started = LabelTimingStarted"
| "stage_label Completed = LabelTimingCompleted"

lemma stage_label_inj: "stage_label x = stage_label y \<longleftrightarrow> x = y"
  by (cases x; cases y) (simp_all add: LabelTimingSubmitted_def LabelTimingEnqueued_def LabelTimingStarted_def LabelTimingCompleted_def)

lemma stage_records:
  "labels (fold (\<lambda>(st, v). Store (stage_label st) v) rs c) (stage_label x)
     = (case map_of (rev rs) x of Some v \<Rightarrow> Some v | None \<Rightarrow> labels c (stage_label x))"
  by (induction rs arbitrary: c) (auto simp: Store_def stage_label_inj map_add_def split: option.splits)

lemma time_sub_exact: "\<bar>x - y\<bar> < 2 ^ 63 \<Longrightarrow> time_sub x y = x - y"
  by (simp add: time_sub_def)

section \<open>Properties\<close>

text \<open>
  C34.  For every sequence of calls by clients that use a context until they release it, and whatever object
  \<open>sync.Pool\<close> hands back, every label read is the one stored last in that context since it was created: no label
  survives \<open>Release\<close>, and no two live contexts share an object.
\<close>

theorem pooled_contexts_isolated:
  "ctx_client ctx_labels (\<lambda>(pick, parent). NewContext pick parent) (\<lambda>r k v. upd_ctx r (Store k v)) Release ops 0 Map.empty new_store
     = client_spec ops 0 Map.empty"
  by (rule pooled.client_from_start) (rule new_store_inv)

text \<open>
  C35.  A context made by \<open>NewContext\<close> is found by \<open>PoolContextFrom\<close> through any values, cancellations and deadlines put
  around it, as long as none uses the pool's own key; string lookups reach its labels through wrappers that do not
  override them, and every other key is answered by the parent.
\<close>

theorem wrapped_context_found:
  assumes "ctx_inv st" "NewContext pick parent st = (r, st')" "st'' = upd_ctx r (Store k v) st'"
  shows "((\<forall>w \<in> set ws. \<not> overrides poolContextKey w) \<longrightarrow> PoolContextFrom st'' (wrap ws (PoolCtx r)) = Some (Some r))
    \<and> ((\<forall>w \<in> set ws. \<not> overrides (StrKey k) w) \<longrightarrow> Value st'' (wrap ws (PoolCtx r)) (StrKey k) = Some v)
    \<and> ((\<forall>w \<in> set ws. \<not> overrides (OtherKey x) w) \<longrightarrow>
        Value st'' (wrap ws (PoolCtx r)) (OtherKey x) = Value st'' (if parent = NilCtx then Background else parent) (OtherKey x))"
proof -
  obtain c where c: "objs st'' r = Some c" "embedded c = WithValue (bg_parent parent) poolContextKey (CtxPtr r)" "labels c k = Some v"
    using NewContext_spec [OF assms(1,2)] by (simp add: assms(3) upd_ctx_def Store_def)
  have "Value st'' (wrap ws (PoolCtx r)) (OtherKey x) = Value st'' (if parent = NilCtx then Background else parent) (OtherKey x)"
    if "\<forall>w \<in> set ws. \<not> overrides (OtherKey x) w"
    using Value_wrap [OF that] c by (simp add: bg_parent_def split: gctx.splits)
  moreover have "Value st'' (wrap ws (PoolCtx r)) (StrKey k) = Some v" if "\<forall>w \<in> set ws. \<not> overrides (StrKey k) w"
    using Value_wrap [OF that] c by simp
  ultimately show ?thesis using PoolContextFrom_wrap [OF c(1,2)] by blast
qed

definition sample_ctx :: "(unit, unit) ctx_store" where
  "sample_ctx = upd_ctx 0 (Store ''user'' (Str ''ann'')) (snd (NewContext None Background new_store))"

theorem wrapped_context_found_witness:
  "PoolContextFrom sample_ctx (WithCancel (WithValue (PoolCtx 0) (OtherKey ()) Empty)) = Some (Some 0)
     \<and> Value sample_ctx (WithCancel (WithValue (PoolCtx 0) (OtherKey ()) Empty)) (StrKey ''user'') = Some (Str ''ann'')"
proof -
  have "NewContext None Background new_store = (0, snd (NewContext None Background new_store))"
    by (simp add: NewContext_def contextPool_Get_def new_store_def)
  from wrapped_context_found [OF new_store_inv this sample_ctx_def, of "[Cancel, Val (OtherKey ()) Empty]" "()"]
  show ?thesis by simp
qed

text \<open>
  C36.  All goroutines that ask one context for its trace id get the same id, in every interleaving of any number of
  \<open>TraceID\<close> calls with each other, with stores of other labels and with calls of \<open>SetTraceID\<close> that come before the first answer: the
  id is the context's label from the first answer on.  An id that was set from upstream, also one that is set while
  callers are generating theirs, is the answer; otherwise the answer is sixteen random bytes in hexadecimal (32 digits, from which they can be
  read back).
\<close>

theorem TraceID_callers_agree:
  assumes "trace_step\<^sup>*\<^sup>* (trace_init c) g" "TRet s \<in># t_callers g"
  shows "trace_label (t_ctx g) = Some s \<and> (\<forall>s'. TRet s' \<in># t_callers g \<longrightarrow> s' = s)
    \<and> (case t_up g of Some u \<Rightarrow> s = u | None \<Rightarrow> length s = 32 \<and> (\<exists>b. length b = 16 \<and> hexDecode s = Some b))"
proof -
  have ok: "trace_ok g" by (rule trace_reachable_ok [OF assms(1)])
  have l: "trace_label (t_ctx g) = Some s'" if "TRet s' \<in># t_callers g" for s' using ok that by (simp add: trace_ok_def)
  have "s' = s" if "TRet s' \<in># t_callers g" for s' using l [OF that] l [OF assms(2)] by simp
  with l [OF assms(2)] ok show ?thesis by (auto simp: trace_ok_def hex_id_def split: option.splits)
qed

theorem TraceID_callers_agree_witness:
  "trace_label (t_ctx agreed) = Some ''up'' \<and> t_callers agreed = {#TRet ''up'', TRet ''up''#}"
  using TraceID_callers_agree [OF agreed_reachable, of "''up''"] by (simp add: agreed_def)

text \<open>
  C38.  The latencies follow from what was recorded.  After any sequence of records of the four stages in a fresh context, in any order,
  repeated or missing, or with values that are not times, each latency is the difference of the two times recorded last
  for its stages, and zero if either is missing; \<open>Duration\<close> is the time since the start, and zero if there is none.
  With all four stages recorded, queueing and execution make the total, handoff and waiting make the queueing, for any
  times whose differences fit a \<open>Duration\<close> (also when \<open>Enqueued\<close> is recorded after \<open>Started\<close>).
\<close>

theorem latencies_add_up:
  assumes "labels c0 = Map.empty" "c = fold (\<lambda>(st, v). Store (stage_label st) v) rs c0"
    and "\<forall>st. t st = (case map_of (rev rs) st of Some (TimeVal x) \<Rightarrow> x | _ \<Rightarrow> time_zero)"
    and "\<forall>x y. lat x y = (if t x = time_zero \<or> t y = time_zero then 0 else time_sub (t y) (t x))"
  shows "TotalLatency c = lat Submitted Completed \<and> QueueLatency c = lat Submitted Started \<and> ExecLatency c = lat Started Completed
    \<and> HandoffLatency c = lat Submitted Enqueued \<and> QueueWaitLatency c = lat Enqueued Started
    \<and> Duration now c = (if t Started = time_zero then 0 else time_sub now (t Started))
    \<and> ((\<forall>st. t st \<noteq> time_zero) \<and> (\<forall>x y. \<bar>t x - t y\<bar> < 2 ^ 63) \<longrightarrow>
         QueueLatency c + ExecLatency c = TotalLatency c \<and> HandoffLatency c + QueueWaitLatency c = QueueLatency c)"
proof -
  have g: "GetTime c (stage_label st) = t st" for st
    using assms(1,3) stage_records [of rs c0 st] by (simp add: GetTime_def assms(2) split: option.splits)
  have tm: "Timing c = (t Submitted, t Enqueued, t Started, t Completed)"
    using g [of Submitted] g [of Enqueued] g [of Started] g [of Completed] by (simp add: Timing_def)
  have l: "TotalLatency c = lat Submitted Completed" "QueueLatency c = lat Submitted Started" "ExecLatency c = lat Started Completed"
    "HandoffLatency c = lat Submitted Enqueued" "QueueWaitLatency c = lat Enqueued Started"
    using assms(4) by (simp_all add: TotalLatency_def QueueLatency_def ExecLatency_def HandoffLatency_def QueueWaitLatency_def tm)
  have d: "Duration now c = (if t Started = time_zero then 0 else time_sub now (t Started))"
    using g [of Started] by (simp add: Duration_def)
  have "lat x y = t y - t x" if "(\<forall>st. t st \<noteq> time_zero) \<and> (\<forall>x y. \<bar>t x - t y\<bar> < 2 ^ 63)" for x y
    using that assms(4) time_sub_exact [of "t y" "t x"] by simp
  with l d show ?thesis by simp
qed

theorem latencies_add_up_witness:
  "let c = fold (\<lambda>(st, v). Store (stage_label st) v) [(Submitted, TimeVal 10), (Started, TimeVal 35), (Enqueued, TimeVal 40), (Completed, Empty)] blank_ctx
   in QueueLatency c = 25 \<and> HandoffLatency c = 30 \<and> QueueWaitLatency c = - 5 \<and> TotalLatency c = 0 \<and> Duration 90 c = 55"
proof -
  let ?rs = "[(Submitted, TimeVal 10), (Started, TimeVal 35), (Enqueued, TimeVal 40), (Completed, Empty)] :: (stage \<times> unit any) list"
  define t where "t st = (case map_of (rev ?rs) st of Some (TimeVal x) \<Rightarrow> x | _ \<Rightarrow> time_zero)" for st
  define lat where "lat x y = (if t x = time_zero \<or> t y = time_zero then 0 else time_sub (t y) (t x))" for x y
  have b: "labels blank_ctx = Map.empty" by (simp add: blank_ctx_def)
  have v: "t Submitted = 10" "t Started = 35" "t Enqueued = 40" "t Completed = time_zero" by (simp_all add: t_def)
  have h: "\<forall>st. t st = (case map_of (rev ?rs) st of Some (TimeVal x) \<Rightarrow> x | _ \<Rightarrow> time_zero)"
    "\<forall>x y. lat x y = (if t x = time_zero \<or> t y = time_zero then 0 else time_sub (t y) (t x))" by (simp_all only: t_def lat_def) simp_all
  from latencies_add_up [OF b refl h, of 90] show ?thesis
    unfolding Let_def by (simp add: lat_def v time_zero_def time_sub_def)
qed

end
