(* ===== verification/Stack_Trace.thy ===== *)
theory Stack_Trace
  imports Go_Prelude
begin

text \<open>
  The stack traces of \<open>stack_trace.go\<close>, which the pool logs for a panic.  \<open>runtime.Caller\<close>, \<open>runtime.FuncForPC\<close> and what
  opening and scanning a source file gives are parameters; the loop over the frames ends when \<open>runtime.Caller\<close>
  reports the top of the stack.
\<close>

section \<open>Model\<close>

record frame =
  fr_pc :: nat
  fr_file :: string
  fr_line :: nat

text \<open>Opening a file fails, or a scanner yields its lines and then stops, with an error or at the end of the file.\<close>

datatype 'e source_file = OpenErr 'e | Lines "string list" "'e option"

definition unknown :: string where "unknown = ''unknown''"
definition dunno :: string where "dunno = ''Unknown''"

definition function_name :: "(nat \<Rightarrow> string option) \<Rightarrow> nat \<Rightarrow> string" where
  "function_name FuncForPC pc = (case FuncForPC pc of None \<Rightarrow> unknown | Some n \<Rightarrow> n)"

fun scanLoop :: "string list \<Rightarrow> 'e option \<Rightarrow> int \<Rightarrow> int \<Rightarrow> string \<times> 'e option" where
  "scanLoop [] err n lineNum = ([], err)"
| "scanLoop (l # ls) err n lineNum = (if lineNum = n then (l, None) else scanLoop ls err n (lineNum + 1))"

definition readNthLine :: "(string \<Rightarrow> 'e source_file) \<Rightarrow> string \<Rightarrow> int \<Rightarrow> string \<times> 'e option" where
  "readNthLine fs file n =
     (case fs file of OpenErr e \<Rightarrow> ([], Some e) | Lines ls err \<Rightarrow> scanLoop ls err n 0)"

definition frame_header :: "frame \<Rightarrow> string" where
  "frame_header f = fr_file f @ '':'' @ print_base 10 (fr_line f) @ '' (0x'' @ print_base 16 (fr_pc f) @ '')'' @ [CHR 0x0A]"

partial_function (option) stackLoop ::
  "(nat \<Rightarrow> string option) \<Rightarrow> (string \<Rightarrow> 'e source_file) \<Rightarrow> (nat \<Rightarrow> frame option) \<Rightarrow> nat \<Rightarrow> string \<Rightarrow> string \<Rightarrow> string option" where
  "stackLoop FuncForPC fs Caller i lastFile buf =
     (case Caller i of
        None \<Rightarrow> Some buf
      | Some f \<Rightarrow>
          (let buf = buf @ frame_header f in
           if fr_file f \<noteq> lastFile then
             (let (sourceLine, err) = readNthLine fs (fr_file f) (int (fr_line f) - 1);
                  sourceLine = (if err \<noteq> None then dunno else sourceLine)
              in stackLoop FuncForPC fs Caller (Suc i) (fr_file f)
                   (buf @ [CHR 0x09] @ function_name FuncForPC (fr_pc f) @ '': '' @ sourceLine @ [CHR 0x0A]))
           else stackLoop FuncForPC fs Caller (Suc i) lastFile
                  (buf @ [CHR 0x09] @ function_name FuncForPC (fr_pc f) @ [CHR 0x0A])))"

definition Stack :: "(nat \<Rightarrow> string option) \<Rightarrow> (string \<Rightarrow> 'e source_file) \<Rightarrow> (nat \<Rightarrow> frame option) \<Rightarrow> nat \<Rightarrow> string option" where
  "Stack FuncForPC fs Caller skip = stackLoop FuncForPC fs Caller skip [] []"

section \<open>Reference\<close>

lemma scanLoop_spec:
  "scanLoop ls err n k = (if k \<le> n \<and> n < k + int (length ls) then (ls ! nat (n - k), None) else ([], err))"
proof (induction ls arbitrary: k)
  case (Cons l ls)
  show ?case
  proof (cases "k = n")
    case False
    then have "nat (n - k) = Suc (nat (n - (k + 1)))" if "k \<le> n" using that by linarith
    with False Cons.IH [of "k + 1"] show ?thesis by auto
  qed simp
qed auto

text \<open>The text shown for a line: a line that is not in the file is shown as empty, one that cannot be read as unknown.\<close>

definition shown_line :: "(string \<Rightarrow> 'e source_file) \<Rightarrow> frame \<Rightarrow> string" where
  "shown_line fs f =
     (case fs (fr_file f) of
        OpenErr e \<Rightarrow> dunno
      | Lines ls err \<Rightarrow>
          if 1 \<le> fr_line f \<and> fr_line f \<le> length ls then ls ! (fr_line f - 1)
          else if err \<noteq> None then dunno else [])"

definition frame_text :: "(nat \<Rightarrow> string option) \<Rightarrow> (string \<Rightarrow> 'e source_file) \<Rightarrow> string \<Rightarrow> frame \<Rightarrow> string" where
  "frame_text FuncForPC fs prev f = frame_header f @ [CHR 0x09] @ function_name FuncForPC (fr_pc f)
     @ (if fr_file f \<noteq> prev then '': '' @ shown_line fs f else []) @ [CHR 0x0A]"

fun stack_text :: "(nat \<Rightarrow> string option) \<Rightarrow> (string \<Rightarrow> 'e source_file) \<Rightarrow> string \<Rightarrow> frame list \<Rightarrow> string" where
  "stack_text FuncForPC fs prev [] = []"
| "stack_text FuncForPC fs prev (f # frs) = frame_text FuncForPC fs prev f @ stack_text FuncForPC fs (fr_file f) frs"

lemma readNthLine_shown:
  "(let (s, err) = readNthLine fs (fr_file f) (int (fr_line f) - 1) in if err \<noteq> None then dunno else s) = shown_line fs f"
proof (cases "fs (fr_file f)")
  case (Lines ls err)
  have "nat (int (fr_line f) - 1) = fr_line f - 1" by simp
  moreover have "(0 \<le> int (fr_line f) - 1 \<and> int (fr_line f) - 1 < 0 + int (length ls)) \<longleftrightarrow> 1 \<le> fr_line f \<and> fr_line f \<le> length ls" by linarith
  ultimately show ?thesis using Lines by (simp only: readNthLine_def source_file.case scanLoop_spec shown_line_def) simp
qed (simp add: readNthLine_def shown_line_def)

lemma stackLoop_frames:
  assumes "\<And>k. k < length frs \<Longrightarrow> Caller (i + k) = Some (frs ! k)" "Caller (i + length frs) = None"
  shows "stackLoop FuncForPC fs Caller i prev b = Some (b @ stack_text FuncForPC fs prev frs)"
  using assms
proof (induction frs arbitrary: i prev b)
  case Nil
  then show ?case by (simp add: stackLoop.simps)
next
  case (Cons f frs)
  have f: "Caller i = Some f" using Cons.prems(1) [of 0] by simp
  have IH: "stackLoop FuncForPC fs Caller (Suc i) p b' = Some (b' @ stack_text FuncForPC fs p frs)" for p b'
    using Cons.prems(1) [of "Suc k" for k] Cons.prems(2) by (intro Cons.IH) auto
  show ?case
    using readNthLine_shown [of fs f]
    by (subst stackLoop.simps) (auto simp: f IH Let_def frame_text_def case_prod_beta)
qed

section \<open>Properties\<close>

text \<open>
  C39.  For a stack of any finite depth \<open>Stack\<close> ends and shows every frame in order, its source line only where the file changes:
  the line itself when the file has it, \<open>Unknown\<close> when the file cannot be read, and nothing when the file is too short,
  since \<open>readNthLine\<close> reports no error for a missing line.
\<close>

theorem Stack_shows_every_frame:
  assumes "\<And>k. k < length frs \<Longrightarrow> Caller (skip + k) = Some (frs ! k)" "Caller (skip + length frs) = None"
  shows "Stack FuncForPC fs Caller skip = Some (stack_text FuncForPC fs [] frs)
    \<and> (fs file = Lines ls None \<longrightarrow> int (length ls) \<le> n \<longrightarrow> readNthLine fs file n = ([], None))"
  using stackLoop_frames [OF assms, of FuncForPC fs "[]" "[]"]
  by (simp add: Stack_def readNthLine_def scanLoop_spec)

theorem Stack_shows_every_frame_witness:
  "Stack (\<lambda>_. Some ''main.f'') (\<lambda>_. Lines [''a'', ''go f()''] (None :: unit option))
      (\<lambda>i. if i = 1 then Some \<lparr>fr_pc = 255, fr_file = ''m.go'', fr_line = 2\<rparr> else None) 1
     = Some (''m.go:2 (0xff)'' @ [CHR 0x0A, CHR 0x09] @ ''main.f: go f()'' @ [CHR 0x0A])"
proof -
  let ?f = "\<lparr>fr_pc = 255, fr_file = ''m.go'', fr_line = 2\<rparr>"
  have "print_base 10 2 = ''2''" "print_base 16 255 = ''ff''" by code_simp+
  then have "stack_text (\<lambda>_. Some ''main.f'') (\<lambda>_. Lines [''a'', ''go f()''] (None :: unit option)) [] [?f]
      = ''m.go:2 (0xff)'' @ [CHR 0x0A, CHR 0x09] @ ''main.f: go f()'' @ [CHR 0x0A]"
    by (simp add: frame_text_def frame_header_def shown_line_def function_name_def)
  then show ?thesis
    using Stack_shows_every_frame [of "[?f]" "\<lambda>i. if i = 1 then Some ?f else None" 1 "\<lambda>_. Some ''main.f''" "\<lambda>_. Lines [''a'', ''go f()''] (None :: unit option)"
        "[]" "[]" 0]
    by simp
qed

end
