(* ===== verification/Spec2Isabelle.thy ===== *)
theory Spec2Isabelle
  imports Pool_Life Default_Pool Pool_Runs Spin_Lock Task_Context Stack_Trace
begin

text \<open>
  agilePool, a goroutine pool in Go: its verification library.

  \<^bold>\<open>The program.\<close>  A \<open>Pool\<close> (\<open>pool.go\<close>) accepts tasks (\<open>task.go\<close>) from any goroutine.  \<open>submit\<close> counts a task,
  starts a worker if none runs, and hands the task to one of several channel shards; when that is full it
  goes to a chunked overflow buffer (\<open>task_buffer.go\<close>), and when that is full too the submitter waits.
  A worker (\<open>worker.go\<close>) takes tasks from the shards, then in batches from the buffer, and parks in
  an idle container (\<open>internal/idle\<close>) when both are empty.  A scaler starts workers from the submission,
  consumption and exit rates that a sampler keeps in histograms (\<open>histogram.go\<close>); a cleaner drops idle
  workers.  Hooks (\<open>hook.go\<close>, \<open>hook/hook.go\<close>, \<open>hook/dynamic/dynamic.go\<close>) observe the tasks; \<open>config.go\<close> holds the
  settings; \<open>spinlock.go\<close> is an optional lock around the idle container; \<open>internal/context\<close> is a
  per-task context with labels and timestamps.

  \<^bold>\<open>Theories and sources.\<close>
  \<^item> \<open>Go_Prelude\<close>, \<open>Go_Float64\<close>: the Go primitives used (panics as \<open>None\<close>, \<open>int64\<close> wrap-around, saturating time
    differences, slices, IEEE doubles).
  \<^item> \<open>Idle_Spec\<close>: what the pool asks of an idle container, as locales (any order, FIFO, least recently
    used).  \<open>Idle_Slice\<close>, \<open>Idle_RingQueue\<close>, \<open>Idle_LinkedList\<close>, \<open>Idle_MinHeap\<close>, \<open>Idle_Treap\<close> model the five containers
    and interpret the locales; \<open>Idle_Works\<close> is the container of workers that \<open>NewPool\<close> chooses.
  \<^item> \<open>Task_Buffer\<close>: \<open>task_buffer.go\<close> over an explicit store of chunks; it interprets the locale of a bounded queue.
  \<^item> \<open>Histogram\<close>, \<open>Config\<close>, \<open>Task\<close>: the files of these names.
  \<^item> \<open>Shards\<close>: the channels of \<open>pool.go\<close>, \<open>nextShard\<close> and the scan of \<open>worker.go\<close>.
  \<^item> \<open>Hooks\<close>: both dispatchers, as instances of one locale.
  \<^item> \<open>Scaler\<close>: the decision of \<open>scaleIfNeeded\<close>, on doubles and \<open>int64\<close>.
  \<^item> \<open>Spin_Lock\<close>: \<open>spinLock.Lock\<close> and \<open>Unlock\<close> as interleaved steps.
  \<^item> \<open>Pool\<close>: the record \<open>Pool\<close> and every operation of \<open>pool.go\<close> and \<open>worker.go\<close>, each run to its end by one goroutine;
    \<open>Pool_Submit\<close>, \<open>Pool_Worker\<close>, \<open>Pool_Scale\<close> prove what submission, the worker loop and the background loops do.
    \<open>Pool_Life\<close> runs any history of these operations, with the submitters that are blocked and resumed, up to the shutdown;
    \<open>Default_Pool\<close> is the package variable \<open>defaultPool\<close> under \<open>NewPool\<close> and \<open>Close\<close>.
  \<^item> \<open>Pool_Concurrent\<close>: the same protocol as goroutines interleaved between their operations on shared
    state (the reservation of a worker and its start are two steps), with its invariants; \<open>Pool_Runs\<close>: runs of it and the
    properties of every interleaving.
  \<^item> \<open>Task_Context\<close>: \<open>internal/context\<close>; \<open>Stack_Trace\<close>: \<open>stack_trace.go\<close>, over the frames and files the runtime supplies.

  \<^bold>\<open>What is shown.\<close>  Each container and the buffer return for every sequence of calls what a list or a multiset
  returns; the histogram's median is that of the last window; configurations are valid; retries and
  backoffs follow their schedule; shards are a power of two, scans are complete and submissions go round
  robin.  For the pool run step by step, every submission is accepted, rejected or left waiting and
  counted as such, a worker run ends and runs every queued task once, panics of tasks, handlers and
  hooks are absorbed, a stalled pool is restarted, and after any history \<open>Close\<close> releases the blocked submitters and \<open>Wait\<close> returns
  with exactly the accepted tasks run.  The default pool is the newest one that is open.  For every interleaving, the counters are exact, \<open>Wait\<close> is
  sound, worker objects are not shared, the scaler stops only when nothing is left, the goroutines at work can always
  complete every accepted task, whatever the scaler reads, and the capacity is exceeded by at most one worker (\<open>race_end\<close> is
  reached by a schedule that does so).  For contexts, reuse is not observable, lookups survive wrapping, concurrent callers agree on the trace id
  and latencies follow from the recorded times; a stack trace ends and shows every frame.

  \<^bold>\<open>Bounds and fuel.\<close>  No definition uses fuel: loops are structural, have a termination proof, or are partial functions
  into \<open>option\<close> whose termination is a theorem (\<open>run_loop\<close>, the shard loops).  Counters of live objects are integers far
  below \<open>2 ^ 63\<close>; wrap-around is written out where the code can reach it.  The theorems in which the scaler has to start a worker
  bound its compensation for exiting workers, so that the one sum of \<open>scaleIfNeeded\<close> that can overflow does not.

  \<^bold>\<open>Parameters.\<close>  User code (tasks, hooks, panic handlers, custom backoff), the clock, \<open>GOMAXPROCS\<close>, conversions of doubles
  out of the \<open>int64\<close> range, \<open>crypto/rand\<close>, stack frames and source files, and the choices of \<open>sync.Pool\<close> and \<open>select\<close> are arguments of the definitions.

  \<^bold>\<open>User code.\<close>  In the theories that run one operation after another (\<open>Pool\<close> to \<open>Pool_Life\<close>), a task, a hook and a panic
  handler return or panic; they do not call back into the pool, do not call \<open>runtime.Goexit\<close> and do not run for ever.  A task that submits tasks or
  closes the pool is covered by the interleaved model, in which a submission or \<open>Close\<close> can come at any time, also
  while a worker runs a task; there, too, a task that runs is assumed to end.

  \<^bold>\<open>Not modelled.\<close>  What loggers do with the text they are given; \<open>doc.go\<close> (a comment); \<open>example/\<close> and \<open>test/\<close>
  (programs around the public API).  The interleaved model leaves out hooks and time: the shard a submitter selects,
  rates, cancellation and expiry are arbitrary in it.  Fairness of the Go scheduler is not modelled: liveness there says that the
  goroutines can still complete every task, from every state.
\<close>

section \<open>The idle containers are interchangeable\<close>

text \<open>
  C40.  The three FIFO containers that \<open>WithIdleContainerType\<close> selects between return the same results for
  the same calls.
\<close>

theorem fifo_containers_agree:
  assumes "list_all op_ok ops"
  shows "map_option fst (idle_run (\<lambda>(_ :: unit). LinkedList_Add) (LinkedList_Pop zero)
             (LinkedList_RemoveExpired dated) ops NewLinkedList)
         = map_option fst (idle_run (\<lambda>_. RingQueue_Add zero) (RingQueue_Pop zero)
             (RingQueue_RemoveExpired dated zero) ops (NewRingQueue zero))
    \<and> map_option fst (idle_run (\<lambda>_. RingQueue_Add zero) (RingQueue_Pop zero)
             (RingQueue_RemoveExpired dated zero) ops (NewRingQueue zero))
         = map_option fst (idle_run (\<lambda>_ w s. Some (Slice_Add w s)) (Slice_Pop zero)
             (\<lambda>now expiry s. Some (Slice_RemoveExpired dated zero now expiry s)) ops NewSlice)"
  by (simp only: linkedlist.fifo_run_New [OF assms] ring.fifo_run_New [OF assms] slice.fifo_run_New [OF assms])

theorem fifo_containers_agree_witness:
  "map_option fst (idle_run (\<lambda>(_ :: unit). LinkedList_Add) (LinkedList_Pop 0)
             (LinkedList_RemoveExpired id) (sample_calls ()) NewLinkedList)
     = map_option fst (idle_run (\<lambda>_. RingQueue_Add 0) (RingQueue_Pop 0)
             (RingQueue_RemoveExpired id 0) (sample_calls ()) (NewRingQueue 0))"
  using fifo_containers_agree [OF sample_calls_ok, of 0 id] by blast

end
